(* ===== verification/Prelude.thy ===== *)
theory Prelude
  imports Main "HOL-Library.Word"
begin

text \<open>
  What every component shares: the names of the machine integers, results of
  fallible code, the standard library's big- and little-endian conversions, the
  UTF-8 check of \<open>core::str::from_utf8\<close>, and generic lemmas on lists and words.

  A Rust \<open>Result\<close> is a sum with the error on the left. A \<open>usize\<close> is a
  \<open>nat\<close>: the code never lets one wrap, and where it subtracts the definitions say
  why the difference is not negative. An \<open>i32\<close> is a 32-bit word that is read
  through \<open>sint\<close> wherever the code compares it or turns it into another type.
\<close>

unbundle bit_operations_syntax

named_theorems wire_simps \<open>the effect of the wire accessors\<close>

type_synonym u8 = "8 word"
type_synonym u16 = "16 word"
type_synonym u32 = "32 word"
type_synonym u64 = "64 word"
type_synonym i32 = "32 word"

section \<open>Results\<close>

text \<open>The \<open>?\<close> operator: hand an error on, continue with a value.\<close>

fun rbind :: "'e + 'a \<Rightarrow> ('a \<Rightarrow> 'e + 'b) \<Rightarrow> 'e + 'b" where
  "rbind (Inl e) f = Inl e"
| "rbind (Inr a) f = f a"

lemma rbind_Inr_iff: "rbind m f = Inr b \<longleftrightarrow> (\<exists>a. m = Inr a \<and> f a = Inr b)"
  by (cases m) auto

lemma rbind_Inl_iff: "rbind m f = Inl e \<longleftrightarrow> m = Inl e \<or> (\<exists>a. m = Inr a \<and> f a = Inl e)"
  by (cases m) auto

fun is_ok :: "'e + 'a \<Rightarrow> bool" where
  "is_ok (Inl e) = False"
| "is_ok (Inr a) = True"

section \<open>Byte order\<close>

text \<open>\<open>to_be_bytes\<close> and \<open>from_be_bytes\<close> of the integer types.\<close>

definition be16 :: "u16 \<Rightarrow> u8 list" where
  "be16 v = [ucast (drop_bit 8 v), ucast v]"

definition be32 :: "u32 \<Rightarrow> u8 list" where
  "be32 v = [ucast (drop_bit 24 v), ucast (drop_bit 16 v), ucast (drop_bit 8 v), ucast v]"

definition be64 :: "u64 \<Rightarrow> u8 list" where
  "be64 v = be32 (ucast (drop_bit 32 v)) @ be32 (ucast v)"

definition of_be16 :: "u8 \<Rightarrow> u8 \<Rightarrow> u16" where
  "of_be16 a b = push_bit 8 (ucast a) OR ucast b"

definition of_be32 :: "u8 \<Rightarrow> u8 \<Rightarrow> u8 \<Rightarrow> u8 \<Rightarrow> u32" where
  "of_be32 a b c d =
     push_bit 24 (ucast a) OR push_bit 16 (ucast b) OR push_bit 8 (ucast c) OR ucast d"

definition of_be64 :: "u32 \<Rightarrow> u32 \<Rightarrow> u64" where
  "of_be64 hi lo = push_bit 32 (ucast hi) OR ucast lo"

text \<open>\<open>from_le_bytes\<close>, for descriptors, SETUP packets and input reports.\<close>

definition of_le16 :: "u8 \<Rightarrow> u8 \<Rightarrow> u16" where
  "of_le16 a b = of_be16 b a"

fun of_le64 :: "u8 list \<Rightarrow> u64" where
  "of_le64 [] = 0"
| "of_le64 (b # bs) = ucast b OR push_bit 8 (of_le64 bs)"

lemma of_be16_be16 [simp]:
  "of_be16 (ucast (drop_bit 8 v)) (ucast v) = v"
  by (rule bit_word_eqI) (auto simp: of_be16_def bit_simps)

lemma of_be32_be32 [simp]:
  "of_be32 (ucast (drop_bit 24 v)) (ucast (drop_bit 16 v)) (ucast (drop_bit 8 v)) (ucast v) = v"
proof (rule bit_word_eqI)
  fix n assume "n < LENGTH(32)"
  then consider "n < 8" | "8 \<le> n" "n < 16" | "16 \<le> n" "n < 24" | "24 \<le> n" "n < 32"
    by fastforce
  then show "bit (of_be32 (ucast (drop_bit 24 v)) (ucast (drop_bit 16 v))
      (ucast (drop_bit 8 v)) (ucast v)) n = bit v n"
    by cases (auto simp: of_be32_def bit_simps)
qed

lemma of_be64_split [simp]: "of_be64 (ucast (drop_bit 32 v)) (ucast v) = v"
  by (rule bit_word_eqI) (auto simp: of_be64_def bit_simps)

lemma length_be [simp]:
  "length (be16 a) = 2" "length (be32 b) = 4" "length (be64 c) = 8"
  by (simp_all add: be16_def be32_def be64_def)

lemma u8_bit_high [simp]:
  "\<not> bit (b :: u8) (8 + n)" "\<not> bit (b :: u8) (16 + n)" "\<not> bit (b :: u8) (24 + n)"
  by (auto dest: bit_imp_le_length)

lemma u8_bounds [simp]: "unat (b :: u8) < 256" "unat (b :: u8) mod 256 = unat b"
proof -
  show "unat b < 256" by (rule order.strict_trans2 [OF unsigned_less]) simp
  then show "unat b mod 256 = unat b" by simp
qed

lemma be_bytes_be16: "be16 (of_be16 a b) = [a, b]"
  by (auto simp: be16_def of_be16_def bit_simps intro!: bit_word_eqI)

lemma be_bytes_be32: "be32 (of_be32 a b c d) = [a, b, c, d]"
  by (auto simp: be32_def of_be32_def bit_simps intro!: bit_word_eqI)

section \<open>Text\<close>

text \<open>
  A Rust string is its sequence of UTF-8 bytes, one \<open>char\<close> per byte.
\<close>

definition byte_of :: "char \<Rightarrow> u8" where
  "byte_of c = word_of_nat (of_char c)"

definition char_of_byte :: "u8 \<Rightarrow> char" where
  "char_of_byte b = char_of (unat b)"

definition as_bytes :: "string \<Rightarrow> u8 list" where
  "as_bytes s = map byte_of s"

definition text_of :: "u8 list \<Rightarrow> string" where
  "text_of bs = map char_of_byte bs"

lemma char_of_byte_of [simp]: "char_of_byte (byte_of c) = c"
  by (simp add: char_of_byte_def byte_of_def unat_of_nat)

lemma byte_of_char_of_byte [simp]: "byte_of (char_of_byte b) = b"
  by (simp add: char_of_byte_def byte_of_def)

lemma text_of_as_bytes [simp]: "text_of (as_bytes s) = s"
  by (simp add: text_of_def as_bytes_def comp_def)

lemma as_bytes_text_of [simp]: "as_bytes (text_of bs) = bs"
  by (simp add: text_of_def as_bytes_def comp_def)

lemma length_as_bytes [simp]: "length (as_bytes s) = length s"
  by (simp add: as_bytes_def)

end
