(* ===== verification/Rust_Str.thy ===== *)
theory Rust_Str
  imports Prelude "HOL-Library.Sublist"
begin

text \<open>
  The methods of Rust's \<open>str\<close> and integer types that the sources call: trimming and
  splitting (with Unicode white space, as UTF-8 byte sequences), prefixes, ASCII case,
  \<open>from_str_radix\<close> and \<open>parse\<close> with their overflow checks, and decimal
  and hexadecimal printing, with the round trip from a number to its text and back.
\<close>

section \<open>White space\<close>

text \<open>The code points with the White_Space property, encoded.\<close>

definition ws_chars :: "string list" where
  "ws_chars =
     map (\<lambda>c. [c]) [CHR 0x09, CHR 0x0A, CHR 0x0B, CHR 0x0C, CHR 0x0D, CHR 0x20]
     @ [[CHR 0xC2, CHR 0x85], [CHR 0xC2, CHR 0xA0], [CHR 0xE1, CHR 0x9A, CHR 0x80]]
     @ map (\<lambda>c. [CHR 0xE2, CHR 0x80, c])
         [CHR 0x80, CHR 0x81, CHR 0x82, CHR 0x83, CHR 0x84, CHR 0x85, CHR 0x86, CHR 0x87,
          CHR 0x88, CHR 0x89, CHR 0x8A, CHR 0xA8, CHR 0xA9, CHR 0xAF]
     @ [[CHR 0xE2, CHR 0x81, CHR 0x9F], [CHR 0xE3, CHR 0x80, CHR 0x80]]"

text \<open>The length of the first of \<open>ws\<close> that \<open>s\<close> starts with, 0 if there is none.\<close>

fun lead :: "string list \<Rightarrow> string \<Rightarrow> nat" where
  "lead [] s = 0"
| "lead (w # ws) s = (if take (length w) s = w then length w else lead ws s)"

function strip_lead :: "string list \<Rightarrow> string \<Rightarrow> string" where
  "strip_lead ws s =
     (if lead ws s = 0 \<or> s = [] then s else strip_lead ws (drop (lead ws s) s))"
  by pat_completeness auto
termination
  by (relation "measure (\<lambda>(ws, s). length s)") auto

declare strip_lead.simps [simp del]

definition trim_start :: "string \<Rightarrow> string" where
  "trim_start s = strip_lead ws_chars s"

definition trim_end :: "string \<Rightarrow> string" where
  "trim_end s = rev (strip_lead (map rev ws_chars) (rev s))"

definition trim :: "string \<Rightarrow> string" where
  "trim s = trim_end (trim_start s)"

text \<open>Printable ASCII characters other than the space: what trimming never touches.\<close>

definition graphic :: "char \<Rightarrow> bool" where
  "graphic c \<longleftrightarrow> 0x20 < (of_char c :: nat) \<and> (of_char c :: nat) < 0x7F"

lemma lead_cases: "lead ws s = 0 \<or> (\<exists>w\<in>set ws. w \<noteq> [] \<and> take (length w) s = w)"
  by (induction ws) auto

lemma strip_lead_stop: "lead ws s = 0 \<or> s = [] \<Longrightarrow> strip_lead ws s = s"
  by (subst strip_lead.simps) simp

lemma strip_lead_suffix: "suffix (strip_lead ws s) s"
proof (induction ws s rule: strip_lead.induct)
  case (1 ws s)
  then show ?case
    by (subst strip_lead.simps) (auto intro: suffix_order.trans suffix_drop)
qed

lemma ws_hd: "w \<in> set ws_chars \<Longrightarrow> w \<noteq> [] \<and> \<not> graphic (hd w) \<and> \<not> graphic (last w)"
  unfolding ws_chars_def by (auto simp: graphic_def)

lemma lead_graphic:
  assumes "graphic c" "\<And>w. w \<in> set ws \<Longrightarrow> w \<noteq> [] \<and> \<not> graphic (hd w)"
  shows "lead ws (c # s) = 0"
proof (rule disjE [OF lead_cases [of ws "c # s"]])
  assume "\<exists>w\<in>set ws. w \<noteq> [] \<and> take (length w) (c # s) = w"
  then obtain w where "w \<in> set ws" "w \<noteq> []" "take (length w) (c # s) = w" by blast
  moreover from this have "hd w = c"
    by (metis hd_take length_0_conv list.sel(1) not_gr_zero)
  ultimately show ?thesis using assms by auto
qed

lemma trim_start_graphic [simp]: "graphic c \<Longrightarrow> trim_start (c # s) = c # s"
  by (simp add: trim_start_def strip_lead_stop lead_graphic ws_hd)

lemma trim_end_graphic [simp]:
  assumes "graphic c"
  shows "trim_end (s @ [c]) = s @ [c]"
proof -
  have "lead (map rev ws_chars) (c # rev s) = 0"
    using assms ws_hd by (intro lead_graphic) (auto simp: hd_rev)
  then show ?thesis
    by (simp add: trim_end_def strip_lead_stop)
qed

lemma trim_start_Nil [simp]: "trim_start [] = []"
  by (simp add: trim_start_def strip_lead_stop)

lemma trim_end_Nil [simp]: "trim_end [] = []"
  by (simp add: trim_end_def strip_lead_stop)

lemma trim_id: "s = [] \<or> graphic (hd s) \<and> graphic (last s) \<Longrightarrow> trim s = s"
  using trim_end_graphic [of "last s" "butlast s"] trim_start_graphic [of "hd s" "tl s"]
  by (cases "s = []") (simp_all add: trim_def)

lemma trim_graphic: "list_all graphic s \<Longrightarrow> trim s = s"
  by (rule trim_id) (cases s; auto simp: list_all_iff)

section \<open>Splitting\<close>

text \<open>\<open>split(c)\<close>: always at least one piece.\<close>

fun split_on :: "(char \<Rightarrow> bool) \<Rightarrow> string \<Rightarrow> string list" where
  "split_on p [] = [[]]"
| "split_on p (c # s) =
     (if p c then [] # split_on p s
      else case split_on p s of [] \<Rightarrow> [[c]] | t # ts \<Rightarrow> (c # t) # ts)"

definition split_once :: "char \<Rightarrow> string \<Rightarrow> (string \<times> string) option" where
  "split_once c s =
     (if c \<in> set s then Some (takeWhile (\<lambda>x. x \<noteq> c) s, tl (dropWhile (\<lambda>x. x \<noteq> c) s))
      else None)"

definition strip_prefix_str :: "string \<Rightarrow> string \<Rightarrow> string option" where
  "strip_prefix_str p s = (if take (length p) s = p then Some (drop (length p) s) else None)"

definition strip_suffix_str :: "string \<Rightarrow> string \<Rightarrow> string option" where
  "strip_suffix_str p s = map_option rev (strip_prefix_str (rev p) (rev s))"

definition starts_with :: "string \<Rightarrow> string \<Rightarrow> bool" where
  "starts_with s p \<longleftrightarrow> take (length p) s = p"

lemma split_once_append: "c \<notin> set s \<Longrightarrow> split_once c (s @ c # t) = Some (s, t)"
  by (auto simp: split_once_def takeWhile_append dropWhile_append)

lemma strip_suffix_append: "strip_suffix_str p (s @ p) = Some s"
  by (simp add: strip_suffix_str_def strip_prefix_str_def)

text \<open>\<open>split_whitespace\<close>: the maximal pieces without white space.\<close>

function ws_word :: "string \<Rightarrow> string \<times> string" where
  "ws_word s =
     (if s = [] \<or> lead ws_chars s \<noteq> 0 then ([], s)
      else case ws_word (tl s) of (w, r) \<Rightarrow> (hd s # w, r))"
  by pat_completeness auto
termination
  by (relation "measure length") auto

declare ws_word.simps [simp del]

lemma ws_word_length: "length (snd (ws_word s)) \<le> length s"
proof (induction s rule: ws_word.induct)
  case (1 s)
  then show ?case by (subst ws_word.simps) (auto split: prod.split simp: le_diff_conv)
qed

lemma ws_word_progress:
  assumes "s \<noteq> []" "lead ws_chars s = 0"
  shows "length (snd (ws_word s)) < length s"
proof -
  have "snd (ws_word s) = snd (ws_word (tl s))"
    using assms by (subst ws_word.simps) (simp split: prod.split)
  with ws_word_length [of "tl s"] assms(1) show ?thesis
    by (cases s) auto
qed

lemma strip_lead_head: "s \<noteq> [] \<Longrightarrow> strip_lead ws s = [] \<or> lead ws (strip_lead ws s) = 0"
proof (induction ws s rule: strip_lead.induct)
  case (1 ws s)
  show ?case
  proof (cases "lead ws s = 0 \<or> s = []")
    case True
    with 1 show ?thesis by (simp add: strip_lead_stop)
  next
    case False
    then have "strip_lead ws s = strip_lead ws (drop (lead ws s) s)"
      by (subst strip_lead.simps) simp
    with 1(1) False show ?thesis
      by (cases "drop (lead ws s) s = []") (auto simp: strip_lead_stop)
  qed
qed

function split_whitespace :: "string \<Rightarrow> string list" where
  "split_whitespace s =
     (let t = trim_start s in
      if t = [] then [] else case ws_word t of (w, r) \<Rightarrow> w # split_whitespace r)"
  by pat_completeness auto
termination
proof (relation "measure length")
  fix s x xa y assume x: "x = trim_start s" "x \<noteq> []" and xa: "(xa, y) = ws_word x"
  then have "s \<noteq> []" by auto
  with x have "lead ws_chars x = 0"
    using strip_lead_head [of s ws_chars] by (auto simp: trim_start_def)
  with x have "length (snd (ws_word x)) < length x" by (intro ws_word_progress) auto
  also have "length x \<le> length s"
    unfolding x(1) trim_start_def by (rule suffix_length_le [OF strip_lead_suffix])
  finally show "(y, s) \<in> measure length"
    by (simp flip: xa)
qed auto

declare split_whitespace.simps [simp del]

text \<open>\<open>str::lines\<close>: a line ends with a line feed, a carriage return before it is dropped too.\<close>

definition strip_cr :: "string \<Rightarrow> string" where
  "strip_cr s = (if s \<noteq> [] \<and> last s = CHR 0x0D then butlast s else s)"

fun lines_loop :: "string \<Rightarrow> string \<Rightarrow> string list" where
  "lines_loop cur [] = (if cur = [] then [] else [cur])"
| "lines_loop cur (c # s) = (if c = CHR 0x0A then strip_cr cur # lines_loop [] s else lines_loop (cur @ [c]) s)"

definition str_lines :: "string \<Rightarrow> string list" where
  "str_lines s = lines_loop [] s"

section \<open>Case\<close>

definition ascii_upper :: "char \<Rightarrow> bool" where
  "ascii_upper c \<longleftrightarrow> 65 \<le> (of_char c :: nat) \<and> (of_char c :: nat) \<le> 90"

definition to_ascii_lowercase :: "string \<Rightarrow> string" where
  "to_ascii_lowercase s =
     map (\<lambda>c. if ascii_upper c then char_of ((of_char c :: nat) + 32) else c) s"

section \<open>Numbers\<close>

definition digit_value :: "char \<Rightarrow> nat option" where
  "digit_value c =
     (let n = (of_char c :: nat) in
      if 48 \<le> n \<and> n \<le> 57 then Some (n - 48)
      else if 97 \<le> n \<and> n \<le> 122 then Some (n - 87)
      else if 65 \<le> n \<and> n \<le> 90 then Some (n - 55)
      else None)"

definition to_digit :: "nat \<Rightarrow> char \<Rightarrow> nat option" where
  "to_digit radix c =
     (case digit_value c of Some d \<Rightarrow> if d < radix then Some d else None | None \<Rightarrow> None)"

text \<open>The loop with checked multiplication and addition: overflow past \<open>bound\<close> is an error.\<close>

fun radix_loop :: "nat \<Rightarrow> nat \<Rightarrow> nat \<Rightarrow> string \<Rightarrow> nat option" where
  "radix_loop bound radix acc [] = Some acc"
| "radix_loop bound radix acc (c # s) =
     (case to_digit radix c of
        None \<Rightarrow> None
      | Some d \<Rightarrow> let v = acc * radix + d in
          if bound < v then None else radix_loop bound radix v s)"

text \<open>Unsigned types accept one leading plus sign and no minus sign.\<close>

definition from_str_radix :: "nat \<Rightarrow> nat \<Rightarrow> string \<Rightarrow> nat option" where
  "from_str_radix bound radix s =
     (let t = (case s of c # r \<Rightarrow> if c = CHR ''+'' then r else s | [] \<Rightarrow> s)
      in if t = [] then None else radix_loop bound radix 0 t)"

definition parse_unsigned :: "nat \<Rightarrow> string \<Rightarrow> nat option" where
  "parse_unsigned bound s = from_str_radix bound 10 s"

definition parse_i64 :: "string \<Rightarrow> int option" where
  "parse_i64 s =
     (case s of
        c # r \<Rightarrow> (if c = CHR ''-'' then
             if r = [] then None else map_option (\<lambda>n. - int n) (radix_loop (2 ^ 63) 10 0 r)
           else map_option int (from_str_radix (2 ^ 63 - 1) 10 s))
      | [] \<Rightarrow> None)"

text \<open>Printing: \<open>{}\<close>, \<open>{:03}\<close> and \<open>{:04x}\<close> of unsigned numbers.\<close>

definition digit_char :: "nat \<Rightarrow> char" where
  "digit_char d = char_of (if d < 10 then d + 48 else d + 87)"

fun show_loop :: "nat \<Rightarrow> nat \<Rightarrow> string" where
  "show_loop radix n =
     (if radix < 2 \<or> n < radix then [digit_char n]
      else show_loop radix (n div radix) @ [digit_char (n mod radix)])"

declare show_loop.simps [simp del]

definition show_nat :: "nat \<Rightarrow> string" where
  "show_nat n = show_loop 10 n"

definition show_int :: "int \<Rightarrow> string" where
  "show_int i = (if i < 0 then CHR ''-'' # show_nat (nat (- i)) else show_nat (nat i))"

definition pad_left :: "nat \<Rightarrow> string \<Rightarrow> string" where
  "pad_left w s = replicate (w - length s) (CHR ''0'') @ s"

text \<open>\<open>{:<w}\<close>, counting bytes.\<close>

definition pad_right :: "nat \<Rightarrow> string \<Rightarrow> string" where
  "pad_right w s = s @ replicate (w - length s) (CHR '' '')"

text \<open>A text between back quotes, as the messages quote it.\<close>

definition quoted :: "string \<Rightarrow> string" where
  "quoted s = [CHR 0x60] @ s @ [CHR 0x60]"

lemma radix_loop_bound: "radix_loop bound radix acc t = Some v \<Longrightarrow> acc \<le> bound \<Longrightarrow> v \<le> bound"
  by (induction bound radix acc t rule: radix_loop.induct)
    (auto simp: Let_def split: option.splits if_splits)

lemma from_str_radix_bound: "from_str_radix bound radix s = Some v \<Longrightarrow> v \<le> bound"
  unfolding from_str_radix_def Let_def
  by (auto split: if_splits list.splits intro: radix_loop_bound simp del: radix_loop.simps)

lemma to_digit_digit_char:
  assumes "d < radix" "radix \<le> 16"
  shows "to_digit radix (digit_char d) = Some d"
proof -
  have "of_char (digit_char d) = (if d < 10 then d + 48 else d + 87)"
    using assms unfolding digit_char_def by auto
  with assms show ?thesis
    by (auto simp: to_digit_def digit_value_def)
qed

lemma radix_loop_append:
  "radix_loop bound radix acc (s @ t) =
     (case radix_loop bound radix acc s of None \<Rightarrow> None | Some v \<Rightarrow> radix_loop bound radix v t)"
  by (induction bound radix acc s rule: radix_loop.induct)
    (auto simp: Let_def split: option.splits)

lemma radix_loop_show:
  assumes "n \<le> bound" "1 < radix" "radix \<le> 16"
  shows "radix_loop bound radix 0 (show_loop radix n) = Some n"
  using assms
proof (induction radix n rule: show_loop.induct)
  case (1 radix n)
  show ?case
  proof (cases "n < radix")
    case True
    with 1 show ?thesis
      by (subst show_loop.simps) (simp add: to_digit_digit_char)
  next
    case False
    have "n div radix \<le> bound" using 1(2) by (rule order.trans [OF div_le_dividend])
    moreover have "n mod radix < radix" using 1 by simp
    ultimately show ?thesis
      using 1 False
      by (subst show_loop.simps) (simp add: radix_loop_append to_digit_digit_char)
  qed
qed

lemma radix_loop_zeros:
  "1 < radix \<Longrightarrow> radix_loop bound radix 0 (replicate k (CHR ''0'') @ s) = radix_loop bound radix 0 s"
proof (induction k)
  case (Suc k)
  have "to_digit radix (CHR ''0'') = Some 0"
    using Suc.prems by (simp add: to_digit_def digit_value_def)
  with Suc show ?case by simp
qed simp

lemma digit_char_graphic: "d < 16 \<Longrightarrow> graphic (digit_char d) \<and> digit_char d \<noteq> CHR ''+''"
  unfolding digit_char_def graphic_def
  by (cases "d < 10") (auto dest: arg_cong [where f = "of_char :: char \<Rightarrow> nat"])

lemma show_loop_graphic:
  "1 < radix \<Longrightarrow> radix \<le> 16 \<Longrightarrow> list_all (\<lambda>c. graphic c \<and> c \<noteq> CHR ''+'') (show_loop radix n)"
proof (induction radix n rule: show_loop.induct)
  case (1 radix n)
  have "n mod radix < 16"
    using 1 by (intro order.strict_trans2 [OF mod_less_divisor]) auto
  with 1 show ?case
    by (subst show_loop.simps) (simp add: digit_char_graphic)
qed

lemma show_loop_Nil [simp]: "show_loop radix n \<noteq> []"
  by (subst show_loop.simps) simp

text \<open>Reading back what was printed, with or without leading zeros.\<close>

lemma from_str_radix_show:
  assumes "n \<le> bound" "1 < radix" "radix \<le> 16"
  shows "from_str_radix bound radix (pad_left w (show_loop radix n)) = Some n"
proof -
  let ?s = "pad_left w (show_loop radix n)"
  have "hd ?s \<noteq> CHR ''+''"
    using show_loop_graphic [OF assms(2,3), of n]
    by (cases "show_loop radix n"; cases "w - length (show_loop radix n)")
      (auto simp: pad_left_def)
  moreover have "?s \<noteq> []" by (simp add: pad_left_def)
  ultimately have "from_str_radix bound radix ?s = radix_loop bound radix 0 ?s"
    by (cases ?s) (auto simp: from_str_radix_def)
  with assms show ?thesis
    by (simp add: pad_left_def radix_loop_zeros radix_loop_show)
qed

lemma show_nat_chars: "list_all (\<lambda>c. graphic c \<and> to_digit 10 c \<noteq> None) (show_nat n)"
proof -
  have d: "d < 10 \<Longrightarrow> graphic (digit_char d) \<and> to_digit 10 (digit_char d) \<noteq> None" for d
    using to_digit_digit_char [of d 10] digit_char_graphic [of d] by simp
  have "radix = 10 \<Longrightarrow> list_all (\<lambda>c. graphic c \<and> to_digit 10 c \<noteq> None) (show_loop radix n)" for radix
  proof (induction radix n rule: show_loop.induct)
    case (1 radix n)
    then show ?case using d by (subst show_loop.simps) simp
  qed
  then show ?thesis by (simp add: show_nat_def)
qed

end
