(* ===== verification/Wire.thy ===== *)
theory Wire
  imports Prelude
begin

text \<open>
  The cursor helpers of \<^verbatim>\<open>usbip-proto/src/wire.rs\<close>: a \<open>Reader\<close> over a byte
  slice and a \<open>Writer\<close> that appends to a vector, with the protocol's error type
  from \<^verbatim>\<open>usbip-proto/src/lib.rs\<close>. The locale \<open>codec\<close> is the contract between
  a writer and the reader of the same field, the locale \<open>fixed_codec\<close> the one of a field
  with a fixed width; every record of the protocol interprets one of them.
\<close>

section \<open>Errors and sizes\<close>

datatype proto_error =
    Truncated nat nat
  | BadVersion u16
  | BadCommand u32
  | TooLarge string int int
  | Utf8

definition USBIP_VERSION :: u16 where "USBIP_VERSION = 0x0111"
definition SIZE_OP_HEADER :: nat where "SIZE_OP_HEADER = 8"
definition SIZE_USB_DEVICE :: nat where "SIZE_USB_DEVICE = 312"
definition SIZE_USB_INTERFACE :: nat where "SIZE_USB_INTERFACE = 4"
definition SIZE_CMD_HEADER :: nat where "SIZE_CMD_HEADER = 48"
definition SIZE_ISO_DESC :: nat where "SIZE_ISO_DESC = 16"
definition BUSID_LEN :: nat where "BUSID_LEN = 32"
definition PATH_LEN :: nat where "PATH_LEN = 256"
definition USBIP_PORT :: u16 where "USBIP_PORT = 3240"

lemmas proto_sizes [simp] =
  SIZE_OP_HEADER_def SIZE_USB_DEVICE_def SIZE_USB_INTERFACE_def SIZE_CMD_HEADER_def
  SIZE_ISO_DESC_def BUSID_LEN_def PATH_LEN_def

section \<open>UTF-8\<close>

text \<open>
  \<open>core::str::from_utf8\<close>: the length of the well-formed character a byte string
  starts with, by the table of the Unicode standard (no overlong forms, no surrogates,
  nothing above U+10FFFF), and the check of a whole string.
\<close>

definition cont :: "u8 \<Rightarrow> bool" where
  "cont b \<longleftrightarrow> 0x80 \<le> b \<and> b \<le> 0xBF"

definition utf8_second :: "u8 \<Rightarrow> u8 \<Rightarrow> bool" where
  "utf8_second a b \<longleftrightarrow>
     (if a = 0xE0 then 0xA0 \<le> b \<and> b \<le> 0xBF
      else if a = 0xED then 0x80 \<le> b \<and> b \<le> 0x9F
      else if a = 0xF0 then 0x90 \<le> b \<and> b \<le> 0xBF
      else if a = 0xF4 then 0x80 \<le> b \<and> b \<le> 0x8F
      else cont b)"

definition utf8_width :: "u8 \<Rightarrow> nat" where
  "utf8_width a =
     (if a < 0x80 then 1
      else if 0xC2 \<le> a \<and> a \<le> 0xDF then 2
      else if 0xE0 \<le> a \<and> a \<le> 0xEF then 3
      else if 0xF0 \<le> a \<and> a \<le> 0xF4 then 4
      else 0)"

fun utf8_char :: "u8 list \<Rightarrow> nat option" where
  "utf8_char [] = None"
| "utf8_char (a # bs) =
     (let n = utf8_width a in
      if n = 0 \<or> length bs < n - 1 then None
      else if n = 1 then Some 1
      else if utf8_second a (bs ! 0) \<and> list_all cont (take (n - 2) (drop 1 bs))
      then Some n else None)"

function utf8_valid :: "u8 list \<Rightarrow> bool" where
  "utf8_valid [] = True"
| "utf8_valid (a # bs) =
     (case utf8_char (a # bs) of
        None \<Rightarrow> False
      | Some n \<Rightarrow> utf8_valid (drop (n - 1) bs))"
  by pat_completeness auto
termination
  by (relation "measure length") auto

definition from_utf8 :: "u8 list \<Rightarrow> proto_error + string" where
  "from_utf8 bs = (if utf8_valid bs then Inr (text_of bs) else Inl Utf8)"

definition ascii :: "u8 list \<Rightarrow> bool" where
  "ascii bs \<longleftrightarrow> list_all (\<lambda>b. b < 0x80) bs"

lemma utf8_valid_ascii: "ascii bs \<Longrightarrow> utf8_valid bs"
  by (induction bs) (auto simp: ascii_def utf8_width_def)

section \<open>Reader\<close>

record reader =
  rd_buf :: "u8 list"
  rd_pos :: nat

type_synonym 'a rd = "reader \<Rightarrow> proto_error + ('a \<times> reader)"

definition reader_new :: "u8 list \<Rightarrow> reader" where
  "reader_new b = \<lparr>rd_buf = b, rd_pos = 0\<rparr>"

definition position :: "reader \<Rightarrow> nat" where
  "position r = rd_pos r"

definition remaining :: "reader \<Rightarrow> nat" where
  "remaining r = length (rd_buf r) - rd_pos r"

definition rd_bytes :: "nat \<Rightarrow> u8 list rd" where
  "rd_bytes n r =
     (if remaining r < n then Inl (Truncated n (remaining r))
      else Inr (take n (drop (rd_pos r) (rd_buf r)), r\<lparr>rd_pos := rd_pos r + n\<rparr>))"

text \<open>Sequencing of reads: \<open>let x = r.field()?; ...\<close>.\<close>

definition rd_bind :: "'a rd \<Rightarrow> ('a \<Rightarrow> 'b rd) \<Rightarrow> 'b rd" where
  "rd_bind m f r = rbind (m r) (\<lambda>(a, r'). f a r')"

definition rd_return :: "'a \<Rightarrow> 'a rd" where
  "rd_return a r = Inr (a, r)"

definition rd_skip :: "nat \<Rightarrow> unit rd" where
  "rd_skip n = rd_bind (rd_bytes n) (\<lambda>_. rd_return ())"

definition rd_u8 :: "u8 rd" where
  "rd_u8 = rd_bind (rd_bytes 1) (\<lambda>b. rd_return (b ! 0))"

definition rd_u16 :: "u16 rd" where
  "rd_u16 = rd_bind (rd_bytes 2) (\<lambda>b. rd_return (of_be16 (b ! 0) (b ! 1)))"

definition rd_u32 :: "u32 rd" where
  "rd_u32 = rd_bind (rd_bytes 4) (\<lambda>b. rd_return (of_be32 (b ! 0) (b ! 1) (b ! 2) (b ! 3)))"

text \<open>\<open>self.u32()? as i32\<close> keeps the bits.\<close>

definition rd_i32 :: "i32 rd" where
  "rd_i32 = rd_u32"

definition rd_u64 :: "u64 rd" where
  "rd_u64 = rd_bind (rd_bytes 8) (\<lambda>b. rd_return (of_be64
     (of_be32 (b ! 0) (b ! 1) (b ! 2) (b ! 3)) (of_be32 (b ! 4) (b ! 5) (b ! 6) (b ! 7))))"

definition rd_array :: "nat \<Rightarrow> u8 list rd" where
  "rd_array n = rd_bytes n"

definition rd_text_field :: "nat \<Rightarrow> string rd" where
  "rd_text_field n =
     rd_bind (rd_bytes n) (\<lambda>b r. rbind (from_utf8 (takeWhile (\<lambda>c. c \<noteq> 0) b))
       (\<lambda>s. Inr (s, r)))"

section \<open>Writer\<close>

type_synonym writer = "u8 list"

definition writer_new :: writer where
  "writer_new = []"

definition wr_bytes :: "u8 list \<Rightarrow> writer \<Rightarrow> writer" where
  "wr_bytes v w = w @ v"

definition wr_u8 :: "u8 \<Rightarrow> writer \<Rightarrow> writer" where
  "wr_u8 v w = w @ [v]"

definition wr_u16 :: "u16 \<Rightarrow> writer \<Rightarrow> writer" where
  "wr_u16 v w = w @ be16 v"

definition wr_u32 :: "u32 \<Rightarrow> writer \<Rightarrow> writer" where
  "wr_u32 v w = w @ be32 v"

definition wr_i32 :: "i32 \<Rightarrow> writer \<Rightarrow> writer" where
  "wr_i32 v w = w @ be32 v"

definition wr_u64 :: "u64 \<Rightarrow> writer \<Rightarrow> writer" where
  "wr_u64 v w = w @ be64 v"

definition wr_zeros :: "nat \<Rightarrow> writer \<Rightarrow> writer" where
  "wr_zeros n w = w @ replicate n 0"

text \<open>At most \<open>n - 1\<close> bytes of the text, so that a terminator always fits.\<close>

definition wr_text_field :: "string \<Rightarrow> nat \<Rightarrow> writer \<Rightarrow> writer" where
  "wr_text_field s n w =
     (let src = as_bytes s; tk = min (length src) (n - 1)
      in wr_zeros (n - tk) (w @ take tk src))"

lemmas wr_defs [wire_simps] =
  wr_bytes_def wr_u8_def wr_u16_def wr_u32_def wr_i32_def wr_u64_def wr_zeros_def

section \<open>What a read does to the cursor\<close>

definition rest :: "reader \<Rightarrow> u8 list" where
  "rest r = drop (rd_pos r) (rd_buf r)"

definition advance :: "nat \<Rightarrow> reader \<Rightarrow> reader" where
  "advance n r = r\<lparr>rd_pos := rd_pos r + n\<rparr>"

lemma remaining_rest: "remaining r = length (rest r)"
  by (simp add: remaining_def rest_def)

lemma rest_advance [simp]: "rest (advance n r) = drop n (rest r)"
  by (simp add: rest_def advance_def add.commute)

lemma advance_advance [simp]: "advance m (advance n r) = advance (n + m) r"
  by (simp add: advance_def add.assoc)

lemma advance_0 [simp]: "advance 0 r = r"
  by (simp add: advance_def)

lemma rest_reader_new [simp]: "rest (reader_new bs) = bs"
  by (simp add: rest_def reader_new_def)

lemma rd_bytes_rest:
  "rd_bytes n r = (if length (rest r) < n then Inl (Truncated n (length (rest r)))
     else Inr (take n (rest r), advance n r))"
  by (simp add: rd_bytes_def remaining_rest rest_def advance_def)

text \<open>
  \<open>reads m a xs\<close>: from the bytes \<open>xs\<close>, whatever follows them, \<open>m\<close> reads \<open>a\<close>
  and steps over exactly \<open>xs\<close>. \<open>takes m n\<close>: whenever \<open>m\<close> succeeds there
  were \<open>n\<close> bytes left and it stepped over exactly \<open>n\<close>.
\<close>

definition reads :: "'a rd \<Rightarrow> 'a \<Rightarrow> u8 list \<Rightarrow> bool" where
  "reads m a xs \<longleftrightarrow> (\<forall>r bs. rest r = xs @ bs \<longrightarrow> m r = Inr (a, advance (length xs) r))"

definition takes :: "'a rd \<Rightarrow> nat \<Rightarrow> bool" where
  "takes m n \<longleftrightarrow> (\<forall>r a r'. m r = Inr (a, r') \<longrightarrow> n \<le> remaining r \<and> r' = advance n r)"

named_theorems reads_intros \<open>syntax-directed rules for reads\<close>
named_theorems takes_intros \<open>syntax-directed rules for takes\<close>

lemma readsD: "reads m a xs \<Longrightarrow> rest r = xs @ bs \<Longrightarrow> m r = Inr (a, advance (length xs) r)"
  by (simp add: reads_def)

lemma reads_new: "reads m a xs \<Longrightarrow> m (reader_new (xs @ bs)) = Inr (a, advance (length xs) (reader_new (xs @ bs)))"
  by (rule readsD) auto

lemma takesD: "takes m n \<Longrightarrow> m r = Inr (a, r') \<Longrightarrow> n \<le> remaining r \<and> r' = advance n r"
  by (auto simp: takes_def)

lemma reads_bind:
  assumes "reads m a xs" "reads (f a) b ys" "zs = xs @ ys"
  shows "reads (rd_bind m f) b zs"
  unfolding reads_def
proof (intro allI impI)
  fix r bs assume r: "rest r = zs @ bs"
  then have "m r = Inr (a, advance (length xs) r)"
    using assms(1,3) by (auto intro: readsD)
  moreover have "f a (advance (length xs) r) = Inr (b, advance (length ys) (advance (length xs) r))"
    using assms(2) by (rule readsD) (simp add: r assms(3))
  ultimately show "rd_bind m f r = Inr (b, advance (length zs) r)"
    by (simp add: rd_bind_def assms(3))
qed

lemma takes_bind [takes_intros]:
  assumes "takes m j" "\<And>a. takes (f a) k" "n = j + k"
  shows "takes (rd_bind m f) n"
  unfolding takes_def
proof (intro allI impI)
  fix r b r' assume "rd_bind m f r = Inr (b, r')"
  then obtain a where m: "m r = Inr (a, advance j r)" "j \<le> remaining r"
    and f: "f a (advance j r) = Inr (b, r')"
    using assms(1) by (auto simp: rd_bind_def rbind_Inr_iff dest: takesD)
  have "k \<le> remaining (advance j r) \<and> r' = advance k (advance j r)"
    using assms(2) f by (rule takesD)
  then show "n \<le> remaining r \<and> r' = advance n r"
    using m by (auto simp: assms(3) remaining_rest)
qed

lemma reads_return: "a = b \<Longrightarrow> reads (rd_return a) b []"
  by (simp add: reads_def rd_return_def)

lemma reads_append: "reads m a xs \<Longrightarrow> reads (f a) b ys \<Longrightarrow> reads (rd_bind m f) b (xs @ ys)"
  by (rule reads_bind) auto

lemma reads_last: "reads m a xs \<Longrightarrow> reads (f a) b [] \<Longrightarrow> reads (rd_bind m f) b xs"
  by (rule reads_bind) auto

lemma reads_Cons: "reads m a [x] \<Longrightarrow> reads (f a) b ys \<Longrightarrow> reads (rd_bind m f) b (x # ys)"
  by (rule reads_bind) auto

lemma takes_return [takes_intros]: "n = 0 \<Longrightarrow> takes (rd_return a) n"
  by (simp add: takes_def rd_return_def)

text \<open>Classical rules are tried latest first: split an append before ending a sequence.\<close>

lemmas reads_seq = reads_return reads_last reads_Cons reads_append

lemma reads_bytes: "length xs = n \<Longrightarrow> reads (rd_bytes n) xs xs"
  by (auto simp: reads_def rd_bytes_rest)

lemma takes_bytes: "takes (rd_bytes n) n"
  by (auto simp: takes_def rd_bytes_rest remaining_rest split: if_splits)

lemma reads_field: "reads (rd_bytes n) xs xs \<Longrightarrow> g xs = a \<Longrightarrow>
    reads (rd_bind (rd_bytes n) (\<lambda>b. rd_return (g b))) a xs"
  by (auto intro: reads_last reads_return)

lemma takes_field: "takes (rd_bind (rd_bytes n) (\<lambda>b. rd_return (g b))) n"
  by (rule takes_bind [OF takes_bytes takes_return]) auto

lemma reads_u8 [reads_intros]: "reads rd_u8 v [v]"
  unfolding rd_u8_def by (rule reads_field) (auto intro: reads_bytes)

lemma reads_u16 [reads_intros]: "reads rd_u16 v (be16 v)"
  unfolding rd_u16_def by (rule reads_field) (auto intro: reads_bytes simp: be16_def)

lemma reads_u32 [reads_intros]: "reads rd_u32 v (be32 v)"
  unfolding rd_u32_def by (rule reads_field) (auto intro: reads_bytes simp: be32_def)

lemma reads_i32 [reads_intros]: "reads rd_i32 v (be32 v)"
  unfolding rd_i32_def by (rule reads_u32)

lemma reads_u64 [reads_intros]: "reads rd_u64 v (be64 v)"
  unfolding rd_u64_def
  by (rule reads_field) (auto intro: reads_bytes simp: be64_def be32_def nth_Cons_numeral)

lemma reads_array [reads_intros]: "length xs = n \<Longrightarrow> reads (rd_array n) xs xs"
  unfolding rd_array_def by (rule reads_bytes)

lemma reads_skip [reads_intros]: "length xs = n \<Longrightarrow> reads (rd_skip n) () xs"
  unfolding rd_skip_def by (rule reads_field) (auto intro: reads_bytes)

lemma takes_scalars [takes_intros]:
  "takes rd_u8 1" "takes rd_u16 2" "takes rd_u32 4" "takes rd_i32 4" "takes rd_u64 8"
  "takes (rd_array n) n" "takes (rd_skip n) n"
  by (simp_all only: rd_u8_def rd_u16_def rd_u32_def rd_i32_def rd_u64_def rd_array_def
      rd_skip_def takes_field takes_bytes)

lemma takes_text_field [takes_intros]: "takes (rd_text_field n) n"
  unfolding takes_def rd_text_field_def rd_bind_def
  by (auto simp: rbind_Inr_iff rd_bytes_rest remaining_rest split: if_splits)

text \<open>A text field holds a terminator: it stores fewer than \<open>n\<close> bytes, none of them NUL.\<close>

definition fits_field :: "string \<Rightarrow> nat \<Rightarrow> bool" where
  "fits_field s n \<longleftrightarrow> length s < n \<and> utf8_valid (as_bytes s) \<and> 0 \<notin> set (as_bytes s)"

definition text_field_bytes :: "string \<Rightarrow> nat \<Rightarrow> u8 list" where
  "text_field_bytes s n = wr_text_field s n []"

lemma wr_text_field_append [wire_simps]: "wr_text_field s n w = w @ text_field_bytes s n"
  by (simp add: text_field_bytes_def wr_text_field_def wr_zeros_def Let_def)

lemma length_text_field [simp]: "length (text_field_bytes s n) = n"
  by (auto simp: text_field_bytes_def wr_text_field_def wr_zeros_def Let_def)

lemma text_field_bytes_fits:
  "length s < n \<Longrightarrow> text_field_bytes s n = as_bytes s @ replicate (n - length s) 0"
  by (simp add: text_field_bytes_def wr_text_field_def wr_zeros_def Let_def)

lemma takeWhile_text_field:
  assumes "fits_field s n"
  shows "takeWhile (\<lambda>c. c \<noteq> 0) (text_field_bytes s n) = as_bytes s"
proof -
  from assms have "n - length s \<noteq> 0" and s: "\<forall>b\<in>set (as_bytes s). b \<noteq> 0"
    by (auto simp: fits_field_def)
  then obtain k where "n - length s = Suc k" by (cases "n - length s") auto
  with assms s show ?thesis
    by (simp add: fits_field_def text_field_bytes_fits takeWhile_tail)
qed

lemma reads_text_field [reads_intros]:
  assumes "fits_field s n"
  shows "reads (rd_text_field n) s (text_field_bytes s n)"
  using assms takeWhile_text_field [OF assms]
  by (auto simp: reads_def rd_text_field_def rd_bind_def rd_bytes_rest from_utf8_def fits_field_def)

section \<open>Fixed numbers of records\<close>

text \<open>\<open>for _ in 0..n { out.push(T::decode(r)?) }\<close>\<close>

fun rd_many :: "nat \<Rightarrow> 'a rd \<Rightarrow> 'a list rd" where
  "rd_many 0 m = rd_return []"
| "rd_many (Suc n) m = rd_bind m (\<lambda>a. rd_bind (rd_many n m) (\<lambda>as. rd_return (a # as)))"

text \<open>
  The contract of a field: what its encoder writes, its decoder reads back, and nothing
  beyond it.
\<close>

locale codec =
  fixes enc :: "'a \<Rightarrow> u8 list" and dec :: "'a rd" and ok :: "'a \<Rightarrow> bool"
  assumes dec_enc: "ok a \<Longrightarrow> reads dec a (enc a)"
begin

lemma roundtrip:
  "ok a \<Longrightarrow> dec (reader_new (enc a @ bs)) = Inr (a, advance (length (enc a)) (reader_new (enc a @ bs)))"
  by (rule reads_new [OF dec_enc])

lemma prefix_unique:
  assumes "ok a" "ok b" "enc a @ xs = enc b @ ys"
  shows "a = b \<and> xs = ys"
proof -
  have "a = b"
    using roundtrip [OF assms(1), of xs] roundtrip [OF assms(2), of ys] assms(3) by simp
  with assms(3) show ?thesis by simp
qed

lemma reads_many:
  "list_all ok as \<Longrightarrow> reads (rd_many (length as) dec) as (concat (map enc as))"
proof (induction as)
  case Nil
  then show ?case by (simp add: reads_return)
next
  case (Cons a as)
  then have "reads dec a (enc a)" and "reads (rd_many (length as) dec) as (concat (map enc as))"
    by (auto intro: dec_enc)
  then show ?case
    by (auto intro!: reads_seq)
qed

end

locale fixed_codec = codec +
  fixes w :: nat
  assumes width: "ok a \<Longrightarrow> length (enc a) = w"
    and dec_takes: "takes dec w"
begin

lemma short_fails: "remaining r < w \<Longrightarrow> \<not> is_ok (dec r)"
  using dec_takes by (cases "dec r") (fastforce simp: takes_def)+

lemma takes_many: "takes (rd_many n dec) (n * w)"
  by (induction n) (auto intro!: takes_intros dec_takes)

lemma length_many: "list_all ok as \<Longrightarrow> length (concat (map enc as)) = length as * w"
  by (induction as) (auto simp: width)

end

interpretation u32_field: fixed_codec be32 rd_u32 "\<lambda>_. True" 4
  by unfold_locales (auto intro: reads_intros takes_intros)

interpretation text_field: fixed_codec "\<lambda>s. text_field_bytes s n" "rd_text_field n"
    "\<lambda>s. fits_field s n" n for n
  by unfold_locales (auto intro: reads_intros takes_intros)

end
