(* ===== verification/Pdu.thy ===== *)
theory Pdu
  imports Wire
begin

text \<open>
  The URB-carrying messages of \<^verbatim>\<open>usbip-proto/src/pdu.rs\<close>: the 48-byte command
  headers with their four bodies and the isochronous packet descriptors. An array
  \<open>[u8; 8]\<close> is a list whose length \<open>header_ok\<close> fixes.
\<close>

section \<open>Data\<close>

definition USBIP_CMD_SUBMIT :: u32 where "USBIP_CMD_SUBMIT = 1"
definition USBIP_CMD_UNLINK :: u32 where "USBIP_CMD_UNLINK = 2"
definition USBIP_RET_SUBMIT :: u32 where "USBIP_RET_SUBMIT = 3"
definition USBIP_RET_UNLINK :: u32 where "USBIP_RET_UNLINK = 4"

lemmas usbip_commands [simp] =
  USBIP_CMD_SUBMIT_def USBIP_CMD_UNLINK_def USBIP_RET_SUBMIT_def USBIP_RET_UNLINK_def

datatype direction = Out | In

definition DIR_OUT :: u32 where "DIR_OUT = 0"
definition DIR_IN :: u32 where "DIR_IN = 1"

definition direction_from_raw :: "u32 \<Rightarrow> direction" where
  "direction_from_raw v = (if v = DIR_IN then In else Out)"

fun direction_as_raw :: "direction \<Rightarrow> u32" where
  "direction_as_raw Out = DIR_OUT"
| "direction_as_raw In = DIR_IN"

definition is_in :: "direction \<Rightarrow> bool" where
  "is_in d \<longleftrightarrow> d = In"

definition SHORT_NOT_OK :: u32 where "SHORT_NOT_OK = 0x1"
definition ISO_ASAP :: u32 where "ISO_ASAP = 0x2"
definition ZERO_PACKET :: u32 where "ZERO_PACKET = 0x40"
definition NO_INTERRUPT :: u32 where "NO_INTERRUPT = 0x80"

record basic_header =
  bh_command :: u32
  bh_seqnum :: u32
  bh_devid :: u32
  bh_direction :: u32
  bh_ep :: u32

definition bh_dir :: "basic_header \<Rightarrow> direction" where
  "bh_dir b = direction_from_raw (bh_direction b)"

record cmd_submit =
  cs_transfer_flags :: u32
  cs_transfer_buffer_length :: i32
  cs_start_frame :: i32
  cs_number_of_packets :: i32
  cs_interval :: i32
  cs_setup :: "u8 list"

definition is_iso :: "cmd_submit \<Rightarrow> bool" where
  "is_iso c \<longleftrightarrow> 0 < sint (cs_number_of_packets c)"

definition iso_count :: "cmd_submit \<Rightarrow> nat" where
  "iso_count c = (if is_iso c then nat (sint (cs_number_of_packets c)) else 0)"

definition cmd_payload_len :: "cmd_submit \<Rightarrow> direction \<Rightarrow> nat" where
  "cmd_payload_len c d =
     (if is_in d then 0 else nat (max (sint (cs_transfer_buffer_length c)) 0))"

record ret_submit =
  rs_status :: i32
  rs_actual_length :: i32
  rs_start_frame :: i32
  rs_number_of_packets :: i32
  rs_error_count :: i32

definition ret_submit_default :: ret_submit where
  "ret_submit_default = \<lparr>rs_status = 0, rs_actual_length = 0, rs_start_frame = 0,
     rs_number_of_packets = 0, rs_error_count = 0\<rparr>"

definition ret_payload_len :: "ret_submit \<Rightarrow> direction \<Rightarrow> nat" where
  "ret_payload_len r d = (if is_in d then nat (max (sint (rs_actual_length r)) 0) else 0)"

record cmd_unlink =
  cu_unlink_seqnum :: u32

record ret_unlink =
  ru_status :: i32

datatype body =
    CmdSubmit cmd_submit
  | RetSubmit ret_submit
  | CmdUnlink cmd_unlink
  | RetUnlink ret_unlink

record header =
  h_base :: basic_header
  h_body :: body

section \<open>Construction\<close>

definition header_cmd_submit :: "basic_header \<Rightarrow> cmd_submit \<Rightarrow> header" where
  "header_cmd_submit base c =
     \<lparr>h_base = base\<lparr>bh_command := USBIP_CMD_SUBMIT\<rparr>, h_body = CmdSubmit c\<rparr>"

definition header_ret_submit :: "u32 \<Rightarrow> ret_submit \<Rightarrow> header" where
  "header_ret_submit seqnum r =
     \<lparr>h_base = \<lparr>bh_command = USBIP_RET_SUBMIT, bh_seqnum = seqnum, bh_devid = 0,
        bh_direction = 0, bh_ep = 0\<rparr>,
      h_body = RetSubmit r\<rparr>"

definition header_ret_unlink :: "u32 \<Rightarrow> i32 \<Rightarrow> header" where
  "header_ret_unlink seqnum status =
     \<lparr>h_base = \<lparr>bh_command = USBIP_RET_UNLINK, bh_seqnum = seqnum, bh_devid = 0,
        bh_direction = 0, bh_ep = 0\<rparr>,
      h_body = RetUnlink \<lparr>ru_status = status\<rparr>\<rparr>"

section \<open>Encoding and decoding\<close>

fun body_encode :: "body \<Rightarrow> writer \<Rightarrow> writer" where
  "body_encode (CmdSubmit c) w =
     wr_bytes (cs_setup c) (wr_i32 (cs_interval c) (wr_i32 (cs_number_of_packets c)
       (wr_i32 (cs_start_frame c) (wr_i32 (cs_transfer_buffer_length c)
         (wr_u32 (cs_transfer_flags c) w)))))"
| "body_encode (RetSubmit r) w =
     wr_u64 0 (wr_i32 (rs_error_count r) (wr_i32 (rs_number_of_packets r)
       (wr_i32 (rs_start_frame r) (wr_i32 (rs_actual_length r) (wr_i32 (rs_status r) w)))))"
| "body_encode (CmdUnlink u) w = wr_zeros 24 (wr_u32 (cu_unlink_seqnum u) w)"
| "body_encode (RetUnlink u) w = wr_zeros 24 (wr_i32 (ru_status u) w)"

definition header_encode :: "header \<Rightarrow> writer \<Rightarrow> writer" where
  "header_encode h w =
     (let b = h_base h in
      body_encode (h_body h) (wr_u32 (bh_ep b) (wr_u32 (bh_direction b) (wr_u32 (bh_devid b)
        (wr_u32 (bh_seqnum b) (wr_u32 (bh_command b) w))))))"

definition header_to_bytes :: "header \<Rightarrow> u8 list" where
  "header_to_bytes h = header_encode h writer_new"

definition rd_basic_header :: "basic_header rd" where
  "rd_basic_header =
     rd_bind rd_u32 (\<lambda>cmd. rd_bind rd_u32 (\<lambda>sq. rd_bind rd_u32 (\<lambda>dv.
     rd_bind rd_u32 (\<lambda>di. rd_bind rd_u32 (\<lambda>e.
       rd_return \<lparr>bh_command = cmd, bh_seqnum = sq, bh_devid = dv, bh_direction = di, bh_ep = e\<rparr>)))))"

definition rd_cmd_submit :: "cmd_submit rd" where
  "rd_cmd_submit =
     rd_bind rd_u32 (\<lambda>f. rd_bind rd_i32 (\<lambda>l. rd_bind rd_i32 (\<lambda>s. rd_bind rd_i32 (\<lambda>n.
     rd_bind rd_i32 (\<lambda>i. rd_bind (rd_array 8) (\<lambda>st.
       rd_return \<lparr>cs_transfer_flags = f, cs_transfer_buffer_length = l, cs_start_frame = s,
         cs_number_of_packets = n, cs_interval = i, cs_setup = st\<rparr>))))))"

definition rd_ret_submit :: "ret_submit rd" where
  "rd_ret_submit =
     rd_bind rd_i32 (\<lambda>st. rd_bind rd_i32 (\<lambda>a. rd_bind rd_i32 (\<lambda>s. rd_bind rd_i32 (\<lambda>n.
     rd_bind rd_i32 (\<lambda>e. rd_bind (rd_skip 8) (\<lambda>_.
       rd_return \<lparr>rs_status = st, rs_actual_length = a, rs_start_frame = s,
         rs_number_of_packets = n, rs_error_count = e\<rparr>))))))"

definition rd_body :: "u32 \<Rightarrow> body rd" where
  "rd_body cmd =
     (if cmd = USBIP_CMD_SUBMIT then rd_bind rd_cmd_submit (\<lambda>c. rd_return (CmdSubmit c))
      else if cmd = USBIP_RET_SUBMIT then rd_bind rd_ret_submit (\<lambda>b. rd_return (RetSubmit b))
      else if cmd = USBIP_CMD_UNLINK then
        rd_bind rd_u32 (\<lambda>s. rd_bind (rd_skip 24) (\<lambda>_.
          rd_return (CmdUnlink \<lparr>cu_unlink_seqnum = s\<rparr>)))
      else if cmd = USBIP_RET_UNLINK then
        rd_bind rd_i32 (\<lambda>s. rd_bind (rd_skip 24) (\<lambda>_. rd_return (RetUnlink \<lparr>ru_status = s\<rparr>)))
      else (\<lambda>r. Inl (BadCommand cmd)))"

definition rd_header :: "header rd" where
  "rd_header =
     rd_bind rd_basic_header (\<lambda>base. rd_bind (rd_body (bh_command base)) (\<lambda>body.
       rd_return \<lparr>h_base = base, h_body = body\<rparr>))"

definition header_decode :: "u8 list \<Rightarrow> proto_error + header" where
  "header_decode buf = rbind (rd_header (reader_new buf)) (\<lambda>(h, r). Inr h)"

definition iso_bytes :: "header \<Rightarrow> nat" where
  "iso_bytes h =
     (case h_body h of
        CmdSubmit c \<Rightarrow> iso_count c * SIZE_ISO_DESC
      | RetSubmit r \<Rightarrow> nat (max (sint (rs_number_of_packets r)) 0) * SIZE_ISO_DESC
      | _ \<Rightarrow> 0)"

record iso_packet_descriptor =
  iso_offset :: u32
  iso_length :: u32
  iso_actual_length :: u32
  iso_status :: u32

definition iso_encode :: "iso_packet_descriptor \<Rightarrow> writer \<Rightarrow> writer" where
  "iso_encode d w =
     wr_u32 (iso_status d) (wr_u32 (iso_actual_length d) (wr_u32 (iso_length d)
       (wr_u32 (iso_offset d) w)))"

definition rd_iso :: "iso_packet_descriptor rd" where
  "rd_iso =
     rd_bind rd_u32 (\<lambda>a. rd_bind rd_u32 (\<lambda>b. rd_bind rd_u32 (\<lambda>c. rd_bind rd_u32 (\<lambda>d.
       rd_return \<lparr>iso_offset = a, iso_length = b, iso_actual_length = c, iso_status = d\<rparr>))))"

section \<open>Round trips\<close>

text \<open>The command number names the body, and the SETUP packet is 8 bytes long.\<close>

definition header_ok :: "header \<Rightarrow> bool" where
  "header_ok h \<longleftrightarrow>
     (case h_body h of
        CmdSubmit c \<Rightarrow> bh_command (h_base h) = USBIP_CMD_SUBMIT \<and> length (cs_setup c) = 8
      | RetSubmit r \<Rightarrow> bh_command (h_base h) = USBIP_RET_SUBMIT
      | CmdUnlink u \<Rightarrow> bh_command (h_base h) = USBIP_CMD_UNLINK
      | RetUnlink u \<Rightarrow> bh_command (h_base h) = USBIP_RET_UNLINK)"

lemma body_encode_append: "body_encode b w = w @ body_encode b []"
  by (cases b) (simp_all add: wire_simps)

lemma header_encode_append [wire_simps]: "header_encode h w = w @ header_to_bytes h"
  unfolding header_encode_def header_to_bytes_def Let_def writer_new_def
  by (subst (1 2) body_encode_append) (simp add: wire_simps)

lemma length_header_to_bytes [simp]: "header_ok h \<Longrightarrow> length (header_to_bytes h) = 48"
  by (cases "h_body h")
    (auto simp: header_to_bytes_def header_encode_def header_ok_def wire_simps writer_new_def Let_def)

lemma reads_basic_header:
  "reads rd_basic_header b (be32 (bh_command b) @ be32 (bh_seqnum b) @ be32 (bh_devid b)
     @ be32 (bh_direction b) @ be32 (bh_ep b))"
  unfolding rd_basic_header_def by (cases b) (auto intro!: reads_seq reads_intros)

lemma takes_basic_header: "takes rd_basic_header 20"
  unfolding rd_basic_header_def by (rule takes_intros | simp)+

lemma reads_cmd_submit:
  "length (cs_setup c) = 8 \<Longrightarrow> reads rd_cmd_submit c (body_encode (CmdSubmit c) [])"
  unfolding rd_cmd_submit_def by (cases c) (auto simp: wire_simps intro!: reads_seq reads_intros)

lemma reads_ret_submit: "reads rd_ret_submit r (body_encode (RetSubmit r) [])"
  unfolding rd_ret_submit_def by (cases r) (auto simp: wire_simps intro!: reads_seq reads_intros)

lemma reads_body:
  assumes "header_ok h"
  shows "reads (rd_body (bh_command (h_base h))) (h_body h) (body_encode (h_body h) [])"
proof (cases "h_body h")
  case (CmdSubmit c)
  with assms show ?thesis
    by (simp add: header_ok_def rd_body_def reads_last [OF reads_cmd_submit reads_return]
        del: body_encode.simps)
next
  case (RetSubmit r)
  with assms show ?thesis
    by (simp add: header_ok_def rd_body_def reads_last [OF reads_ret_submit reads_return]
        del: body_encode.simps)
next
  case (CmdUnlink u)
  with assms show ?thesis
    by (cases u) (auto simp: header_ok_def rd_body_def wire_simps intro!: reads_seq reads_intros)
next
  case (RetUnlink u)
  with assms show ?thesis
    by (cases u) (auto simp: header_ok_def rd_body_def wire_simps intro!: reads_seq reads_intros)
qed

lemma takes_body: "takes (rd_body cmd) 28"
proof -
  have "takes (\<lambda>r. Inl (BadCommand cmd)) 28" by (simp add: takes_def)
  moreover have "takes rd_cmd_submit 28" "takes rd_ret_submit 28"
    unfolding rd_cmd_submit_def rd_ret_submit_def by (rule takes_intros | simp)+
  ultimately show ?thesis
    unfolding rd_body_def by (auto intro!: takes_intros)
qed

lemma header_to_bytes_split:
  "header_to_bytes h =
     (be32 (bh_command (h_base h)) @ be32 (bh_seqnum (h_base h)) @ be32 (bh_devid (h_base h))
     @ be32 (bh_direction (h_base h)) @ be32 (bh_ep (h_base h))) @ body_encode (h_body h) []"
  unfolding header_to_bytes_def header_encode_def Let_def writer_new_def
  by (subst body_encode_append) (simp add: wire_simps)

lemma reads_header: "header_ok h \<Longrightarrow> reads rd_header h (header_to_bytes h)"
  unfolding rd_header_def header_to_bytes_split
  by (rule reads_append [OF reads_basic_header]) (auto intro!: reads_last reads_body reads_return)

lemma takes_header: "takes rd_header 48"
  unfolding rd_header_def
  by (rule takes_bind [OF takes_basic_header takes_bind [OF takes_body takes_return]]) auto

interpretation header_codec: fixed_codec header_to_bytes rd_header header_ok 48
  by unfold_locales (auto intro: reads_header takes_header)

definition iso_to_bytes :: "iso_packet_descriptor \<Rightarrow> u8 list" where
  "iso_to_bytes d = iso_encode d []"

lemma iso_encode_append [wire_simps]: "iso_encode d w = w @ iso_to_bytes d"
  by (simp add: iso_to_bytes_def iso_encode_def wire_simps)

lemma reads_iso: "reads rd_iso d (iso_to_bytes d)"
  unfolding rd_iso_def iso_to_bytes_def iso_encode_def
  by (cases d) (auto simp: wire_simps intro!: reads_seq reads_intros)

lemma takes_iso: "takes rd_iso 16"
  unfolding rd_iso_def by (rule takes_intros | simp)+

interpretation iso_codec: fixed_codec iso_to_bytes rd_iso "\<lambda>_. True" 16
  by unfold_locales
    (simp_all add: reads_iso takes_iso, simp add: iso_to_bytes_def iso_encode_def wire_simps)

lemma header_decode_bytes: "header_ok h \<Longrightarrow> header_decode (header_to_bytes h @ bs) = Inr h"
  by (simp add: header_decode_def header_codec.roundtrip)

lemma header_decode_short: "length buf < 48 \<Longrightarrow> \<not> is_ok (header_decode buf)"
  using header_codec.short_fails [of "reader_new buf"]
  by (cases "rd_header (reader_new buf)") (auto simp: header_decode_def remaining_rest)

lemma header_decode_kind:
  assumes "header_decode buf = Inr h"
  shows "header_ok h"
  using assms
  by (auto simp: header_decode_def rd_header_def rd_body_def header_ok_def rd_bind_def
      rbind_Inr_iff rd_return_def rd_cmd_submit_def rd_array_def rd_bytes_rest split: if_splits)

end
