(* ===== verification/Device.thy ===== *)
theory Device
  imports Wire Rust_Str
begin

text \<open>
  \<^verbatim>\<open>usbip-proto/src/device.rs\<close>: the device and interface records of
  \<open>OP_REP_DEVLIST\<close> and \<open>OP_REP_IMPORT\<close>. The record is 312 bytes wide whatever it
  holds, and the interface array that may follow has as many entries as the last
  byte of the record says, however many the vector holds.
\<close>

datatype speed = Unknown | Low | Full | High | Wireless | Super | SuperPlus

fun speed_as_raw :: "speed \<Rightarrow> u32" where
  "speed_as_raw Unknown = 0"
| "speed_as_raw Low = 1"
| "speed_as_raw Full = 2"
| "speed_as_raw High = 3"
| "speed_as_raw Wireless = 4"
| "speed_as_raw Super = 5"
| "speed_as_raw SuperPlus = 6"

definition speed_from_raw :: "u32 \<Rightarrow> speed" where
  "speed_from_raw v =
     (if v = 1 then Low else if v = 2 then Full else if v = 3 then High
      else if v = 4 then Wireless else if v = 5 then Super else if v = 6 then SuperPlus
      else Unknown)"

definition speed_from_sysfs :: "string \<Rightarrow> speed" where
  "speed_from_sysfs s =
     (let t = trim s in
      if t = ''1.5'' then Low else if t = ''12'' then Full else if t = ''480'' then High
      else if t = ''5000'' then Super
      else if t = ''10000'' \<or> t = ''20000'' then SuperPlus else Unknown)"

record usb_interface =
  ui_class :: u8
  ui_subclass :: u8
  ui_protocol :: u8

definition usb_interface_default :: usb_interface where
  "usb_interface_default = \<lparr>ui_class = 0, ui_subclass = 0, ui_protocol = 0\<rparr>"

record usb_device =
  ud_path :: string
  ud_busid :: string
  ud_busnum :: u32
  ud_devnum :: u32
  ud_speed :: u32
  ud_id_vendor :: u16
  ud_id_product :: u16
  ud_bcd_device :: u16
  ud_class :: u8
  ud_sub_class :: u8
  ud_protocol :: u8
  ud_configuration_value :: u8
  ud_num_configurations :: u8
  ud_num_interfaces :: u8
  ud_interfaces :: "usb_interface list"

definition devid :: "usb_device \<Rightarrow> u32" where
  "devid d = push_bit 16 (ud_busnum d) OR (ud_devnum d AND 0xffff)"

section \<open>Encoding\<close>

definition interface_encode :: "usb_interface \<Rightarrow> writer \<Rightarrow> writer" where
  "interface_encode i w = wr_u8 0 (wr_u8 (ui_protocol i) (wr_u8 (ui_subclass i) (wr_u8 (ui_class i) w)))"

text \<open>\<open>self.interfaces.get(i).copied().unwrap_or_default()\<close>\<close>

definition interface_at :: "usb_device \<Rightarrow> nat \<Rightarrow> usb_interface" where
  "interface_at d i =
     (if i < length (ud_interfaces d) then ud_interfaces d ! i else usb_interface_default)"

definition device_fixed_encode :: "usb_device \<Rightarrow> writer \<Rightarrow> writer" where
  "device_fixed_encode d w =
     wr_u8 (ud_num_interfaces d) (wr_u8 (ud_num_configurations d) (wr_u8 (ud_configuration_value d)
     (wr_u8 (ud_protocol d) (wr_u8 (ud_sub_class d) (wr_u8 (ud_class d)
     (wr_u16 (ud_bcd_device d) (wr_u16 (ud_id_product d) (wr_u16 (ud_id_vendor d)
     (wr_u32 (ud_speed d) (wr_u32 (ud_devnum d) (wr_u32 (ud_busnum d)
     (wr_text_field (ud_busid d) BUSID_LEN (wr_text_field (ud_path d) PATH_LEN w)))))))))))))"

definition device_encode :: "usb_device \<Rightarrow> bool \<Rightarrow> writer \<Rightarrow> writer" where
  "device_encode d with_interfaces w =
     (let w' = device_fixed_encode d w in
      if with_interfaces
      then fold (\<lambda>i. interface_encode (interface_at d i)) [0..<unat (ud_num_interfaces d)] w'
      else w')"

definition encoded_len :: "usb_device \<Rightarrow> bool \<Rightarrow> nat" where
  "encoded_len d with_interfaces =
     SIZE_USB_DEVICE + (if with_interfaces then unat (ud_num_interfaces d) * SIZE_USB_INTERFACE else 0)"

section \<open>Decoding\<close>

definition rd_interface :: "usb_interface rd" where
  "rd_interface =
     rd_bind rd_u8 (\<lambda>c. rd_bind rd_u8 (\<lambda>s. rd_bind rd_u8 (\<lambda>p. rd_bind (rd_skip 1) (\<lambda>_.
       rd_return \<lparr>ui_class = c, ui_subclass = s, ui_protocol = p\<rparr>))))"

definition rd_device_fixed :: "usb_device rd" where
  "rd_device_fixed =
     rd_bind (rd_text_field PATH_LEN) (\<lambda>pa. rd_bind (rd_text_field BUSID_LEN) (\<lambda>bi.
     rd_bind rd_u32 (\<lambda>bn. rd_bind rd_u32 (\<lambda>dn. rd_bind rd_u32 (\<lambda>sp.
     rd_bind rd_u16 (\<lambda>v. rd_bind rd_u16 (\<lambda>pr. rd_bind rd_u16 (\<lambda>bcd.
     rd_bind rd_u8 (\<lambda>c. rd_bind rd_u8 (\<lambda>sc. rd_bind rd_u8 (\<lambda>pt.
     rd_bind rd_u8 (\<lambda>cv. rd_bind rd_u8 (\<lambda>nc. rd_bind rd_u8 (\<lambda>ni.
       rd_return \<lparr>ud_path = pa, ud_busid = bi, ud_busnum = bn, ud_devnum = dn, ud_speed = sp,
         ud_id_vendor = v, ud_id_product = pr, ud_bcd_device = bcd, ud_class = c,
         ud_sub_class = sc, ud_protocol = pt, ud_configuration_value = cv,
         ud_num_configurations = nc, ud_num_interfaces = ni, ud_interfaces = []\<rparr>))))))))))))))"

definition rd_device :: "bool \<Rightarrow> usb_device rd" where
  "rd_device with_interfaces =
     rd_bind rd_device_fixed (\<lambda>d.
       if with_interfaces
       then rd_bind (rd_many (unat (ud_num_interfaces d)) rd_interface)
         (\<lambda>is. rd_return (d\<lparr>ud_interfaces := is\<rparr>))
       else rd_return d)"

section \<open>Round trips\<close>

text \<open>The strings fit their fields and the interface count is the length of the vector.\<close>

definition device_ok :: "usb_device \<Rightarrow> bool" where
  "device_ok d \<longleftrightarrow> fits_field (ud_path d) PATH_LEN \<and> fits_field (ud_busid d) BUSID_LEN"

definition interfaces_ok :: "usb_device \<Rightarrow> bool" where
  "interfaces_ok d \<longleftrightarrow> length (ud_interfaces d) = unat (ud_num_interfaces d)"

definition interface_to_bytes :: "usb_interface \<Rightarrow> u8 list" where
  "interface_to_bytes i = interface_encode i []"

definition device_fixed_bytes :: "usb_device \<Rightarrow> u8 list" where
  "device_fixed_bytes d = device_fixed_encode d []"

definition device_to_bytes :: "bool \<Rightarrow> usb_device \<Rightarrow> u8 list" where
  "device_to_bytes with_interfaces d = device_encode d with_interfaces []"

text \<open>What the other side sees: without the array, an empty vector.\<close>

definition device_seen :: "bool \<Rightarrow> usb_device \<Rightarrow> usb_device" where
  "device_seen with_interfaces d = (if with_interfaces then d else d\<lparr>ud_interfaces := []\<rparr>)"

lemma interface_encode_append [wire_simps]: "interface_encode i w = w @ interface_to_bytes i"
  by (simp add: interface_to_bytes_def interface_encode_def wire_simps)

lemma device_fixed_encode_append [wire_simps]: "device_fixed_encode d w = w @ device_fixed_bytes d"
  by (simp add: device_fixed_bytes_def device_fixed_encode_def wire_simps)

lemma fold_encode_append:
  assumes "\<And>a w. f a w = w @ g a"
  shows "fold f xs w = w @ concat (map g xs)"
  by (induction xs arbitrary: w) (simp_all add: assms)

lemma device_to_bytes_split:
  "device_to_bytes wi d = device_fixed_bytes d @
     (if wi then concat (map interface_to_bytes (map (interface_at d) [0..<unat (ud_num_interfaces d)])) else [])"
  by (simp add: device_to_bytes_def device_encode_def wire_simps comp_def
      fold_encode_append [where g = "\<lambda>i. interface_to_bytes (interface_at d i)"])

lemma device_encode_append [wire_simps]: "device_encode d wi w = w @ device_to_bytes wi d"
  by (simp add: device_to_bytes_def device_encode_def wire_simps Let_def
      fold_encode_append [where g = "\<lambda>i. interface_to_bytes (interface_at d i)"])

lemma length_interface_to_bytes [simp]: "length (interface_to_bytes i) = 4"
  by (simp add: interface_to_bytes_def interface_encode_def wire_simps)

lemma length_device_fixed [simp]: "length (device_fixed_bytes d) = 312"
  by (simp add: device_fixed_bytes_def device_fixed_encode_def wire_simps)

lemma interfaces_listed:
  "interfaces_ok d \<Longrightarrow> map (interface_at d) [0..<unat (ud_num_interfaces d)] = ud_interfaces d"
  by (auto simp: interfaces_ok_def interface_at_def intro: nth_equalityI)

interpretation interface_codec: fixed_codec interface_to_bytes rd_interface "\<lambda>_. True" 4
proof unfold_locales
  show "reads rd_interface i (interface_to_bytes i)" for i
    unfolding rd_interface_def interface_to_bytes_def interface_encode_def
    by (cases i) (auto simp: wire_simps intro!: reads_seq reads_intros)
  show "takes rd_interface 4"
    unfolding rd_interface_def by (rule takes_intros | simp)+
qed simp_all

lemma reads_device_fixed:
  "device_ok d \<Longrightarrow> reads rd_device_fixed (d\<lparr>ud_interfaces := []\<rparr>) (device_fixed_bytes d)"
  unfolding rd_device_fixed_def device_fixed_bytes_def device_fixed_encode_def device_ok_def
  by (cases d) (auto simp: wire_simps simp del: proto_sizes intro!: reads_seq reads_intros)

lemma takes_device_fixed: "takes rd_device_fixed 312"
  unfolding rd_device_fixed_def by (rule takes_intros | simp)+

lemma reads_device_with:
  assumes "device_ok d" "interfaces_ok d"
  shows "reads (rd_device True) d (device_to_bytes True d)"
proof -
  have "reads (rd_many (unat (ud_num_interfaces d)) rd_interface) (ud_interfaces d)
      (concat (map interface_to_bytes (ud_interfaces d)))"
    using interface_codec.reads_many [of "ud_interfaces d"] assms(2)
    by (simp add: interfaces_ok_def list_all_iff)
  then show ?thesis
    unfolding rd_device_def device_to_bytes_split
    by (auto simp: interfaces_listed assms intro!: reads_seq reads_device_fixed)
qed

lemma reads_device:
  assumes "device_ok d" "wi \<longrightarrow> interfaces_ok d"
  shows "reads (rd_device wi) (device_seen wi d) (device_to_bytes wi d)"
proof (cases wi)
  case True
  with assms show ?thesis by (simp add: device_seen_def reads_device_with)
next
  case False
  with assms show ?thesis
    by (simp add: rd_device_def device_seen_def device_to_bytes_split
        reads_last [OF reads_device_fixed reads_return])
qed

lemma length_device_to_bytes [simp]: "length (device_to_bytes wi d) = encoded_len d wi"
proof -
  have "length (concat (map interface_to_bytes xs)) = length xs * 4" for xs
    by (induction xs) auto
  then show ?thesis
    by (simp add: device_to_bytes_split encoded_len_def del: map_map)
qed

text \<open>The two uses of the record, each as a codec.\<close>

interpretation import_record: fixed_codec "device_to_bytes False" "rd_device False"
    "\<lambda>d. device_ok d \<and> ud_interfaces d = []" 312
proof unfold_locales
  show "reads (rd_device False) d (device_to_bytes False d)"
    if "device_ok d \<and> ud_interfaces d = []" for d
    using reads_device [of d False] that by (cases d) (simp add: device_seen_def)
  show "takes (rd_device False) 312"
    unfolding rd_device_def by (auto intro!: takes_intros takes_device_fixed)
qed (simp add: encoded_len_def)

interpretation devlist_record: codec "device_to_bytes True" "rd_device True"
    "\<lambda>d. device_ok d \<and> interfaces_ok d"
  by unfold_locales (simp add: reads_device_with)

lemma speed_roundtrip: "speed_from_raw (speed_as_raw s) = s"
  by (cases s) (simp_all add: speed_from_raw_def)

lemma devid_unpack:
  assumes "ud_busnum d < 0x10000"
  shows "drop_bit 16 (devid d) = ud_busnum d" "devid d AND 0xffff = ud_devnum d AND 0xffff"
proof -
  have "take_bit 16 (unat (ud_busnum d)) = unat (ud_busnum d)"
    using assms by (intro take_bit_nat_eq_self) (simp add: word_less_nat_alt)
  then have "\<not> bit (unat (ud_busnum d)) n" if "16 \<le> n" for n
    using that by (metis bit_take_bit_iff not_less)
  then have "\<not> bit (ud_busnum d) n" if "16 \<le> n" for n
    using that by (simp add: bit_unsigned_iff)
  then have busnum: "n < 16" if "bit (ud_busnum d) n" for n
    using that by (meson not_less)
  have m: "(0xffff :: u32) = mask 16" by (simp add: mask_eq_exp_minus_1)
  show "drop_bit 16 (devid d) = ud_busnum d"
    unfolding devid_def m by (rule bit_word_eqI) (auto simp: bit_simps dest: busnum)
  show "devid d AND 0xffff = ud_devnum d AND 0xffff"
    unfolding devid_def m by (rule bit_word_eqI) (auto simp: bit_simps)
qed

end
