(* ===== verification/Op.thy ===== *)
theory Op
  imports Device
begin

text \<open>
  \<^verbatim>\<open>usbip-proto/src/op.rs\<close>: the connection-setup messages, an 8-byte header
  followed by a body that depends on the code.
\<close>

definition OP_REQ_DEVLIST :: u16 where "OP_REQ_DEVLIST = 0x8005"
definition OP_REP_DEVLIST :: u16 where "OP_REP_DEVLIST = 0x0005"
definition OP_REQ_IMPORT :: u16 where "OP_REQ_IMPORT = 0x8003"
definition OP_REP_IMPORT :: u16 where "OP_REP_IMPORT = 0x0003"

definition ST_OK :: u32 where "ST_OK = 0"
definition ST_NA :: u32 where "ST_NA = 1"

lemmas op_codes [simp] =
  OP_REQ_DEVLIST_def OP_REP_DEVLIST_def OP_REQ_IMPORT_def OP_REP_IMPORT_def ST_OK_def ST_NA_def

record op_header =
  op_version :: u16
  op_code :: u16
  op_status :: u32

definition op_header_new :: "u16 \<Rightarrow> u32 \<Rightarrow> op_header" where
  "op_header_new code status = \<lparr>op_version = USBIP_VERSION, op_code = code, op_status = status\<rparr>"

definition op_header_encode :: "op_header \<Rightarrow> writer \<Rightarrow> writer" where
  "op_header_encode h w = wr_u32 (op_status h) (wr_u16 (op_code h) (wr_u16 (op_version h) w))"

definition op_header_to_bytes :: "op_header \<Rightarrow> u8 list" where
  "op_header_to_bytes h = op_header_encode h writer_new"

definition rd_op_header :: "op_header rd" where
  "rd_op_header =
     rd_bind rd_u16 (\<lambda>v. rd_bind rd_u16 (\<lambda>c. rd_bind rd_u32 (\<lambda>s.
       rd_return \<lparr>op_version = v, op_code = c, op_status = s\<rparr>)))"

definition op_header_from_bytes :: "u8 list \<Rightarrow> proto_error + op_header" where
  "op_header_from_bytes b = rbind (rd_op_header (reader_new b)) (\<lambda>(h, r). Inr h)"

definition check_version :: "op_header \<Rightarrow> proto_error + unit" where
  "check_version h =
     (if op_version h = USBIP_VERSION then Inr () else Inl (BadVersion (op_version h)))"

section \<open>Requests and replies\<close>

definition encode_import_request :: "string \<Rightarrow> u8 list" where
  "encode_import_request busid =
     wr_text_field busid BUSID_LEN (op_header_encode (op_header_new OP_REQ_IMPORT 0) writer_new)"

definition decode_import_request_body :: "u8 list \<Rightarrow> proto_error + string" where
  "decode_import_request_body b =
     rbind (rd_text_field BUSID_LEN (reader_new b)) (\<lambda>(s, r). Inr s)"

fun encode_import_reply :: "usb_device option \<Rightarrow> u8 list" where
  "encode_import_reply (Some d) =
     device_encode d False (op_header_encode (op_header_new OP_REP_IMPORT ST_OK) writer_new)"
| "encode_import_reply None = op_header_encode (op_header_new OP_REP_IMPORT ST_NA) writer_new"

definition decode_import_reply_body :: "u8 list \<Rightarrow> proto_error + usb_device" where
  "decode_import_reply_body b = rbind (rd_device False (reader_new b)) (\<lambda>(d, r). Inr d)"

definition encode_devlist_request :: "u8 list" where
  "encode_devlist_request = op_header_to_bytes (op_header_new OP_REQ_DEVLIST 0)"

text \<open>\<open>devs.len() as u32\<close> keeps the low 32 bits.\<close>

definition encode_devlist_reply :: "usb_device list \<Rightarrow> u8 list" where
  "encode_devlist_reply devs =
     fold (\<lambda>d. device_encode d True) devs
       (wr_u32 (of_nat (length devs))
         (op_header_encode (op_header_new OP_REP_DEVLIST ST_OK) writer_new))"

definition decode_devlist_reply_body :: "u8 list \<Rightarrow> proto_error + usb_device list" where
  "decode_devlist_reply_body b =
     rbind (rd_u32 (reader_new b)) (\<lambda>(n, r).
       if 1024 < n then Inl (TooLarge ''devlist count'' (uint n) 1024)
       else rbind (rd_many (unat n) (rd_device True) r) (\<lambda>(ds, r'). Inr ds))"

section \<open>Round trips\<close>

lemma op_header_encode_append [wire_simps]: "op_header_encode h w = w @ op_header_to_bytes h"
  by (simp add: op_header_to_bytes_def op_header_encode_def wire_simps writer_new_def)

interpretation op_codec: fixed_codec op_header_to_bytes rd_op_header "\<lambda>_. True" 8
proof unfold_locales
  show "reads rd_op_header h (op_header_to_bytes h)" for h
    unfolding rd_op_header_def op_header_to_bytes_def op_header_encode_def writer_new_def
    by (cases h) (auto simp: wire_simps intro!: reads_seq reads_intros)
  show "takes rd_op_header 8"
    unfolding rd_op_header_def by (rule takes_intros | simp)+
qed (simp add: op_header_to_bytes_def op_header_encode_def wire_simps writer_new_def)

lemma length_op_header [simp]: "length (op_header_to_bytes h) = 8"
  by (rule op_codec.width) simp

lemma op_header_from_to_bytes [simp]: "op_header_from_bytes (op_header_to_bytes h @ bs) = Inr h"
  by (simp add: op_header_from_bytes_def op_codec.roundtrip)

lemma encode_import_request_split:
  "encode_import_request s =
     op_header_to_bytes (op_header_new OP_REQ_IMPORT 0) @ text_field_bytes s BUSID_LEN"
  by (simp add: encode_import_request_def wire_simps writer_new_def)

lemma encode_import_reply_split:
  "encode_import_reply (Some d) =
     op_header_to_bytes (op_header_new OP_REP_IMPORT ST_OK) @ device_to_bytes False d"
  "encode_import_reply None = op_header_to_bytes (op_header_new OP_REP_IMPORT ST_NA)"
  by (simp_all add: wire_simps writer_new_def)

lemma encode_devlist_reply_split:
  "encode_devlist_reply ds =
     op_header_to_bytes (op_header_new OP_REP_DEVLIST ST_OK) @ be32 (of_nat (length ds))
       @ concat (map (device_to_bytes True) ds)"
  by (simp add: encode_devlist_reply_def wire_simps writer_new_def
      fold_encode_append [where g = "device_to_bytes True"])

lemma decode_devlist_reply_bytes:
  assumes "list_all (\<lambda>d. device_ok d \<and> interfaces_ok d) ds" "length ds \<le> 1024"
  shows "decode_devlist_reply_body (drop 8 (encode_devlist_reply ds)) = Inr ds"
proof -
  let ?bs = "concat (map (device_to_bytes True) ds)"
  have n: "unat (of_nat (length ds) :: u32) = length ds"
    using assms(2) by (simp add: unat_of_nat)
  then have "\<not> 1024 < (of_nat (length ds) :: u32)"
    using assms(2) by (simp add: word_less_nat_alt)
  moreover have "rd_u32 (reader_new (be32 (of_nat (length ds)) @ ?bs)) =
      Inr (of_nat (length ds), advance 4 (reader_new (be32 (of_nat (length ds)) @ ?bs)))"
    using u32_field.roundtrip [of "of_nat (length ds)" ?bs] by simp
  moreover have "rd_many (length ds) (rd_device True)
      (advance 4 (reader_new (be32 (of_nat (length ds)) @ ?bs))) =
      Inr (ds, advance (length ?bs) (advance 4 (reader_new (be32 (of_nat (length ds)) @ ?bs))))"
    by (rule readsD [OF devlist_record.reads_many [OF assms(1)], where bs = "[]"]) simp
  ultimately show ?thesis
    by (simp add: decode_devlist_reply_body_def encode_devlist_reply_split n)
qed

end
