(* ===== verification/Proto_Io.thy ===== *)
theory Proto_Io
  imports Pdu Op
begin

text \<open>
  \<^verbatim>\<open>usbip-proto/src/io.rs\<close>: how many bytes of a stream make up the next message.

  A stream is the bytes that will still arrive and the error a read meets after the last
  of them (end of file, a timeout, a reset). \<open>read_exact\<close> of nothing succeeds even then.
  The locale \<open>framing\<close> is the contract of a message on a stream: the reader takes
  exactly the bytes the writer produced, so messages written back to back are read back
  one by one. Every reader of this file interprets it.
\<close>

section \<open>Streams and errors\<close>

datatype io_kind = UnexpectedEof | TimedOut | ConnectionReset | InvalidData | InvalidInput
  | PermissionDenied | NotFound | AddrNotAvailable | Unsupported | Other | Os int

datatype io_error = Io io_kind string | Proto proto_error

text \<open>\<open>impl From<ProtoError> for io::Error\<close>: \<open>InvalidData\<close>.\<close>

fun io_error_kind :: "io_error \<Rightarrow> io_kind" where
  "io_error_kind (Io k m) = k"
| "io_error_kind (Proto e) = InvalidData"

definition hex4 :: "u16 \<Rightarrow> string" where
  "hex4 v = ''0x'' @ pad_left 4 (show_loop 16 (unat v))"

text \<open>
  The \<open>Display\<close> of the errors. What the operating system says of an error number is not
  modelled: such an error has the empty text.
\<close>

fun proto_error_text :: "proto_error \<Rightarrow> string" where
  "proto_error_text (Truncated need have) =
     ''truncated message: needed '' @ show_nat need @ '' more bytes, had '' @ show_nat have"
| "proto_error_text (BadVersion v) =
     ''peer speaks USB/IP version '' @ hex4 v @ '', expected '' @ hex4 USBIP_VERSION"
| "proto_error_text (BadCommand c) =
     ''unknown USB/IP command 0x'' @ pad_left 8 (show_loop 16 (unat c))"
| "proto_error_text (TooLarge field v limit) =
     field @ '' = '' @ show_int v @ '' exceeds the limit of '' @ show_int limit"
| "proto_error_text Utf8 = ''text field is not valid UTF-8''"

fun io_error_text :: "io_error \<Rightarrow> string" where
  "io_error_text (Io k m) = m"
| "io_error_text (Proto e) = proto_error_text e"

record stream =
  st_bytes :: "u8 list"
  st_end :: io_error

type_synonym 'a sio = "stream \<Rightarrow> io_error + ('a \<times> stream)"

definition read_exact :: "nat \<Rightarrow> u8 list sio" where
  "read_exact n s =
     (if n \<le> length (st_bytes s)
      then Inr (take n (st_bytes s), s\<lparr>st_bytes := drop n (st_bytes s)\<rparr>)
      else Inl (st_end s))"

definition io_bind :: "'a sio \<Rightarrow> ('a \<Rightarrow> 'b sio) \<Rightarrow> 'b sio" where
  "io_bind m f s = rbind (m s) (\<lambda>(a, s'). f a s')"

definition io_return :: "'a \<Rightarrow> 'a sio" where
  "io_return a s = Inr (a, s)"

definition io_fail :: "io_error \<Rightarrow> 'a sio" where
  "io_fail e s = Inl e"

text \<open>\<open>?\<close> on a protocol result inside a function that returns \<open>io::Result\<close>.\<close>

fun io_proto :: "proto_error + 'a \<Rightarrow> 'a sio" where
  "io_proto (Inl e) = io_fail (Proto e)"
| "io_proto (Inr a) = io_return a"

section \<open>Connection setup\<close>

datatype op_request = DevList | Import string

definition read_op_header :: "op_header sio" where
  "read_op_header = io_bind (read_exact SIZE_OP_HEADER) (\<lambda>buf. io_proto (op_header_from_bytes buf))"

definition read_op_request :: "op_request option sio" where
  "read_op_request =
     io_bind read_op_header (\<lambda>h. io_bind (io_proto (check_version h)) (\<lambda>_.
       if op_code h = OP_REQ_DEVLIST then io_return (Some DevList)
       else if op_code h = OP_REQ_IMPORT then
         io_bind (read_exact BUSID_LEN) (\<lambda>buf.
         io_bind (io_proto (rbind (rd_text_field BUSID_LEN (reader_new buf)) (\<lambda>(s, r). Inr s))) (\<lambda>busid.
           io_return (Some (Import busid))))
       else io_return None))"

definition MAX_DEVLIST :: u32 where "MAX_DEVLIST = 1024"

definition expect_reply :: "op_header \<Rightarrow> u16 \<Rightarrow> unit sio" where
  "expect_reply h code =
     io_bind (io_proto (check_version h)) (\<lambda>_.
       if op_code h \<noteq> code then
         io_fail (Io InvalidData (''expected reply '' @ hex4 code @ '', got '' @ hex4 (op_code h)))
       else if op_status h \<noteq> ST_OK then
         io_fail (Io Other (''peer refused the request (status '' @ show_nat (unat (op_status h)) @ '')''))
       else io_return ())"

definition read_devlist_entry :: "usb_device sio" where
  "read_devlist_entry =
     io_bind (read_exact SIZE_USB_DEVICE) (\<lambda>buf.
       let ifs = unat (buf ! (SIZE_USB_DEVICE - 1)) in
       io_bind (read_exact (ifs * SIZE_USB_INTERFACE)) (\<lambda>more.
         io_proto (rbind (rd_device True (reader_new (buf @ more))) (\<lambda>(d, r). Inr d))))"

fun io_many :: "nat \<Rightarrow> 'a sio \<Rightarrow> 'a list sio" where
  "io_many 0 m = io_return []"
| "io_many (Suc n) m = io_bind m (\<lambda>a. io_bind (io_many n m) (\<lambda>as. io_return (a # as)))"

definition read_devlist_reply :: "usb_device list sio" where
  "read_devlist_reply =
     io_bind read_op_header (\<lambda>h. io_bind (expect_reply h OP_REP_DEVLIST) (\<lambda>_.
     io_bind (read_exact 4) (\<lambda>count.
       let n = of_be32 (count ! 0) (count ! 1) (count ! 2) (count ! 3) in
       if MAX_DEVLIST < n
       then io_fail (Proto (TooLarge ''devlist count'' (uint n) (uint MAX_DEVLIST)))
       else io_many (unat n) read_devlist_entry)))"

definition read_import_reply :: "usb_device sio" where
  "read_import_reply =
     io_bind read_op_header (\<lambda>h. io_bind (expect_reply h OP_REP_IMPORT) (\<lambda>_.
     io_bind (read_exact SIZE_USB_DEVICE) (\<lambda>buf.
       io_proto (rbind (rd_device False (reader_new buf)) (\<lambda>(d, r). Inr d)))))"

section \<open>Commands\<close>

record pdu =
  p_header :: header
  p_data :: "u8 list"
  p_iso :: "iso_packet_descriptor list"

definition MAX_ISO_PACKETS :: nat where "MAX_ISO_PACKETS = 1024"

text \<open>The lengths the header announces, or why it is refused.\<close>

definition pdu_lengths :: "header \<Rightarrow> nat \<Rightarrow> io_error + (nat \<times> nat)" where
  "pdu_lengths h max_transfer =
     (case h_body h of
        CmdSubmit c \<Rightarrow>
          if sint (cs_transfer_buffer_length c) < 0
             \<or> int max_transfer < sint (cs_transfer_buffer_length c)
          then Inl (Proto (TooLarge ''transfer_buffer_length''
                 (sint (cs_transfer_buffer_length c)) (int max_transfer)))
          else if MAX_ISO_PACKETS < iso_count c
          then Inl (Proto (TooLarge ''number_of_packets''
                 (sint (cs_number_of_packets c)) (int MAX_ISO_PACKETS)))
          else Inr (cmd_payload_len c (bh_dir (h_base h)), iso_count c)
      | CmdUnlink u \<Rightarrow> Inr (0, 0)
      | _ \<Rightarrow> Inl (Io InvalidData (''expected a USBIP_CMD_* message, got command ''
               @ show_nat (unat (bh_command (h_base h))))))"

definition read_iso :: "nat \<Rightarrow> iso_packet_descriptor list sio" where
  "read_iso n =
     (if 0 < n then
        io_bind (read_exact (n * SIZE_ISO_DESC)) (\<lambda>ibuf.
          io_proto (rbind (rd_many n rd_iso (reader_new ibuf)) (\<lambda>(is, r). Inr is)))
      else io_return [])"

definition read_pdu :: "nat \<Rightarrow> pdu sio" where
  "read_pdu max_transfer =
     io_bind (read_exact SIZE_CMD_HEADER) (\<lambda>hbuf.
     io_bind (io_proto (header_decode hbuf)) (\<lambda>h.
       case pdu_lengths h max_transfer of
         Inl e \<Rightarrow> io_fail e
       | Inr (data_len, iso_n) \<Rightarrow>
           io_bind (read_exact data_len) (\<lambda>data.
           io_bind (read_iso iso_n) (\<lambda>iso.
             io_return \<lparr>p_header = h, p_data = data, p_iso = iso\<rparr>))))"

text \<open>The bytes handed to the one \<open>write_all\<close>.\<close>

definition ret_submit_bytes :: "u32 \<Rightarrow> ret_submit \<Rightarrow> u8 list \<Rightarrow> u8 list" where
  "ret_submit_bytes seqnum ret data = header_to_bytes (header_ret_submit seqnum ret) @ data"

definition header_written :: "header \<Rightarrow> u8 list" where
  [simp]: "header_written h = header_to_bytes h"

definition ret_unlink_bytes :: "u32 \<Rightarrow> i32 \<Rightarrow> u8 list" where
  "ret_unlink_bytes seqnum status = header_written (header_ret_unlink seqnum status)"

definition read_ret_submit :: "(u32 \<Rightarrow> direction option) \<Rightarrow> nat \<Rightarrow> (header \<times> u8 list) sio" where
  "read_ret_submit dir_for max_transfer =
     io_bind (read_exact SIZE_CMD_HEADER) (\<lambda>hbuf.
     io_bind (io_proto (header_decode hbuf)) (\<lambda>h.
       case h_body h of
         RetSubmit ret \<Rightarrow>
           (case dir_for (bh_seqnum (h_base h)) of
              None \<Rightarrow> io_fail (Io InvalidData
                (''reply for unknown seqnum '' @ show_nat (unat (bh_seqnum (h_base h)))))
            | Some dir \<Rightarrow>
                let n = ret_payload_len ret dir in
                if max_transfer < n
                then io_fail (Proto (TooLarge ''actual_length'' (int n) (int max_transfer)))
                else io_bind (read_exact n) (\<lambda>data. io_return (h, data)))
       | _ \<Rightarrow> io_fail (Io InvalidData ''expected USBIP_RET_SUBMIT'')))"

section \<open>Framing\<close>

text \<open>\<open>frames m a xs\<close>: whatever follows, \<open>m\<close> reads \<open>a\<close> from \<open>xs\<close> and leaves the rest.\<close>

definition frames :: "'a sio \<Rightarrow> 'a \<Rightarrow> u8 list \<Rightarrow> bool" where
  "frames m a xs \<longleftrightarrow>
     (\<forall>s bs. st_bytes s = xs @ bs \<longrightarrow> m s = Inr (a, s\<lparr>st_bytes := bs\<rparr>))"

named_theorems frames_intros \<open>syntax-directed rules for frames\<close>

lemma framesD: "frames m a xs \<Longrightarrow> st_bytes s = xs @ bs \<Longrightarrow> m s = Inr (a, s\<lparr>st_bytes := bs\<rparr>)"
  by (simp add: frames_def)

lemma frames_bind:
  assumes "frames m a xs" "frames (f a) b ys" "zs = xs @ ys"
  shows "frames (io_bind m f) b zs"
  unfolding frames_def
proof (intro allI impI)
  fix s :: stream and bs assume s: "st_bytes s = zs @ bs"
  then have "m s = Inr (a, s\<lparr>st_bytes := ys @ bs\<rparr>)"
    using assms(1,3) by (auto intro: framesD)
  then show "io_bind m f s = Inr (b, s\<lparr>st_bytes := bs\<rparr>)"
    using framesD [OF assms(2), of "s\<lparr>st_bytes := ys @ bs\<rparr>" bs] by (simp add: io_bind_def)
qed

lemma frames_append: "frames m a xs \<Longrightarrow> frames (f a) b ys \<Longrightarrow> frames (io_bind m f) b (xs @ ys)"
  by (rule frames_bind) auto

lemma frames_last: "frames m a xs \<Longrightarrow> frames (f a) b [] \<Longrightarrow> frames (io_bind m f) b xs"
  by (rule frames_bind) auto

lemma frames_first: "frames m a [] \<Longrightarrow> frames (f a) b xs \<Longrightarrow> frames (io_bind m f) b xs"
  by (rule frames_bind) auto

lemma frames_return [frames_intros]: "a = b \<Longrightarrow> frames (io_return a) b []"
  by (simp add: frames_def io_return_def)

lemma frames_proto [frames_intros]: "r = Inr a \<Longrightarrow> frames (io_proto r) a []"
  by (simp add: frames_def io_return_def)

lemma frames_exact [frames_intros]: "length xs = n \<Longrightarrow> frames (read_exact n) xs xs"
  by (auto simp: frames_def read_exact_def)

text \<open>Reading exactly a frame and decoding the buffer.\<close>

lemma frames_decode:
  "length xs = n \<Longrightarrow> dec xs = Inr a \<Longrightarrow> frames (io_bind (read_exact n) (\<lambda>b. io_proto (dec b))) a xs"
  by (rule frames_last [OF frames_exact frames_proto]) auto

locale framing =
  fixes enc :: "'a \<Rightarrow> u8 list" and receive :: "'a sio" and ok :: "'a \<Rightarrow> bool"
  assumes receive_enc: "ok a \<Longrightarrow> frames receive a (enc a)"
begin

text \<open>Messages written back to back are read back one by one, and nothing beyond them.\<close>

lemma frames_many: "list_all ok as \<Longrightarrow> frames (io_many (length as) receive) as (concat (map enc as))"
proof (induction as)
  case Nil
  then show ?case by (simp add: frames_intros)
next
  case (Cons a as)
  then have "frames receive a (enc a)" "frames (io_many (length as) receive) as (concat (map enc as))"
    by (auto intro: receive_enc)
  then show ?case
    by (auto intro!: frames_append frames_last [OF _ frames_return])
qed

lemma receive_all:
  "list_all ok as \<Longrightarrow>
   io_many (length as) receive \<lparr>st_bytes = concat (map enc as) @ bs, st_end = e\<rparr>
     = Inr (as, \<lparr>st_bytes = bs, st_end = e\<rparr>)"
  using framesD [OF frames_many, of as "\<lparr>st_bytes = concat (map enc as) @ bs, st_end = e\<rparr>" bs] by simp

end

subsection \<open>Connection setup\<close>

lemma frames_op_header: "frames read_op_header h (op_header_to_bytes h)"
  unfolding read_op_header_def
  using op_header_from_to_bytes [of h "[]"] by (intro frames_decode) auto

lemma frames_expect_reply:
  "frames (expect_reply (op_header_new code ST_OK) code) () []"
  unfolding expect_reply_def
  by (auto intro!: frames_first frames_intros simp: check_version_def op_header_new_def)

text \<open>The messages a client writes, and the requests the server makes of them.\<close>

fun op_request_bytes :: "op_request option \<Rightarrow> u8 list" where
  "op_request_bytes (Some DevList) = encode_devlist_request"
| "op_request_bytes (Some (Import s)) = encode_import_request s"
| "op_request_bytes None = []"

fun op_request_ok :: "op_request option \<Rightarrow> bool" where
  "op_request_ok (Some DevList) = True"
| "op_request_ok (Some (Import s)) = fits_field s BUSID_LEN"
| "op_request_ok None = False"

lemma rd_text_field_bytes:
  "fits_field s n \<Longrightarrow> rbind (rd_text_field n (reader_new (text_field_bytes s n))) (\<lambda>(s, r). Inr s) = Inr s"
  using text_field.roundtrip [of s n "[]"] by simp

interpretation op_requests: framing op_request_bytes read_op_request op_request_ok
proof
  fix q assume q: "op_request_ok q"
  have v: "frames (io_proto (check_version (op_header_new c 0))) () []" for c
    by (rule frames_proto) (simp add: check_version_def op_header_new_def)
  show "frames read_op_request q (op_request_bytes q)"
  proof (cases q rule: op_request_bytes.cases)
    case 1
    then show ?thesis
      unfolding read_op_request_def
      by (auto simp: encode_devlist_request_def op_header_new_def [where code = "0x8005"]
          intro!: frames_last [OF frames_op_header] frames_first [OF v [unfolded op_header_new_def]]
            frames_return)
  next
    case (2 s)
    have "frames (io_bind (read_exact BUSID_LEN) (\<lambda>buf.
         io_bind (io_proto (rbind (rd_text_field BUSID_LEN (reader_new buf)) (\<lambda>(s, r). Inr s))) (\<lambda>busid.
           io_return (Some (Import busid))))) q (text_field_bytes s BUSID_LEN)"
      using q 2
      by (intro frames_last [OF frames_exact] frames_first [OF frames_proto [OF rd_text_field_bytes]])
        (auto intro: frames_return)
    then show ?thesis
      unfolding read_op_request_def 2 op_request_bytes.simps encode_import_request_split
      by (intro frames_append [OF frames_op_header] frames_first [OF v])
        (simp add: op_header_new_def)
  qed (use q in auto)
qed

lemma device_fixed_last: "device_fixed_bytes d ! 311 = ud_num_interfaces d"
proof -
  have "device_fixed_bytes d = butlast (device_fixed_bytes d) @ [ud_num_interfaces d]"
    unfolding device_fixed_bytes_def device_fixed_encode_def
    by (simp add: wire_simps butlast_append)
  moreover have "length (butlast (device_fixed_bytes d)) = 311" by simp
  ultimately show ?thesis by (metis nth_append_length)
qed

interpretation devlist_entries: framing "device_to_bytes True" read_devlist_entry
    "\<lambda>d. device_ok d \<and> interfaces_ok d"
proof
  fix d assume d: "device_ok d \<and> interfaces_ok d"
  let ?is = "concat (map interface_to_bytes (ud_interfaces d))"
  have len: "length ?is = unat (ud_num_interfaces d) * 4"
    using interface_codec.length_many [of "ud_interfaces d"] d
    by (simp add: interfaces_ok_def list_all_iff)
  have "rd_device True (reader_new (device_fixed_bytes d @ ?is)) =
      Inr (d, advance (length (device_to_bytes True d)) (reader_new (device_to_bytes True d)))"
    using devlist_record.roundtrip [of d "[]"] d
    by (simp add: device_to_bytes_split interfaces_listed del: length_device_to_bytes)
  with len show "frames read_devlist_entry d (device_to_bytes True d)"
    unfolding read_devlist_entry_def device_to_bytes_split Let_def
    by (auto simp: interfaces_listed d device_fixed_last intro!: frames_append frames_decode frames_exact)
qed

interpretation devlist_replies: framing encode_devlist_reply read_devlist_reply
    "\<lambda>ds. list_all (\<lambda>d. device_ok d \<and> interfaces_ok d) ds \<and> length ds \<le> 1024"
proof
  fix ds :: "usb_device list"
  assume ds: "list_all (\<lambda>d. device_ok d \<and> interfaces_ok d) ds \<and> length ds \<le> 1024"
  let ?n = "of_nat (length ds) :: u32"
  have n: "unat ?n = length ds" "\<not> MAX_DEVLIST < ?n"
    using ds by (auto simp: unat_of_nat MAX_DEVLIST_def word_less_nat_alt)
  have b: "of_be32 (be32 ?n ! 0) (be32 ?n ! Suc 0) (be32 ?n ! 2) (be32 ?n ! 3) = ?n"
    by (simp add: be32_def del: of_nat_Suc)
  show "frames read_devlist_reply ds (encode_devlist_reply ds)"
    unfolding read_devlist_reply_def encode_devlist_reply_split
    by (intro frames_append [OF frames_op_header] frames_first [OF frames_expect_reply]
        frames_append [OF frames_exact])
      (use ds n in \<open>simp_all add: b Let_def devlist_entries.frames_many\<close>)
qed

interpretation import_replies: framing "\<lambda>d. encode_import_reply (Some d)" read_import_reply
    "\<lambda>d. device_ok d \<and> ud_interfaces d = []"
proof
  fix d assume d: "device_ok d \<and> ud_interfaces d = []"
  show "frames read_import_reply d (encode_import_reply (Some d))"
    unfolding read_import_reply_def encode_import_reply_split
    by (intro frames_append [OF frames_op_header] frames_first [OF frames_expect_reply] frames_decode)
      (use import_record.roundtrip [of d "[]"] d in \<open>simp_all add: encoded_len_def\<close>)
qed

lemma read_import_reply_refused:
  "read_import_reply \<lparr>st_bytes = encode_import_reply None @ bs, st_end = e\<rparr> =
     Inl (Io Other ''peer refused the request (status 1)'')"
proof -
  have h: "read_op_header \<lparr>st_bytes = encode_import_reply None @ bs, st_end = e\<rparr> =
      Inr (op_header_new OP_REP_IMPORT ST_NA, \<lparr>st_bytes = bs, st_end = e\<rparr>)"
    unfolding encode_import_reply_split
    by (subst framesD [OF frames_op_header, where bs = bs]) simp_all
  have "show_nat 1 = ''1''" by code_simp
  with h show ?thesis
    by (simp add: read_import_reply_def io_bind_def expect_reply_def check_version_def
        op_header_new_def io_return_def io_fail_def)
qed

subsection \<open>Commands\<close>

definition pdu_to_bytes :: "pdu \<Rightarrow> u8 list" where
  "pdu_to_bytes p =
     header_to_bytes (p_header p) @ p_data p @ concat (map iso_to_bytes (p_iso p))"

definition pdu_ok :: "nat \<Rightarrow> pdu \<Rightarrow> bool" where
  "pdu_ok max_transfer p \<longleftrightarrow>
     header_ok (p_header p)
     \<and> (case h_body (p_header p) of
           CmdSubmit c \<Rightarrow>
             0 \<le> sint (cs_transfer_buffer_length c)
             \<and> sint (cs_transfer_buffer_length c) \<le> int max_transfer
             \<and> length (p_iso p) = iso_count c \<and> iso_count c \<le> MAX_ISO_PACKETS
             \<and> length (p_data p) = cmd_payload_len c (bh_dir (h_base (p_header p)))
         | CmdUnlink u \<Rightarrow> p_data p = [] \<and> p_iso p = []
         | _ \<Rightarrow> False)"

lemma pdu_lengths_ok:
  "pdu_ok m p \<Longrightarrow> pdu_lengths (p_header p) m = Inr (length (p_data p), length (p_iso p))"
  by (auto simp: pdu_ok_def pdu_lengths_def split: body.splits)

lemma frames_iso: "n = length ds \<Longrightarrow> frames (read_iso n) ds (concat (map iso_to_bytes ds))"
proof (cases "0 < n")
  case True
  assume n: "n = length ds"
  have "list_all (\<lambda>_. True) ds" by (simp add: list_all_iff)
  note many = reads_new [OF iso_codec.reads_many [OF this], of "[]"]
    iso_codec.length_many [OF this]
  from True show ?thesis
    unfolding read_iso_def n by (auto simp: many [simplified] intro!: frames_decode)
qed (simp add: read_iso_def frames_return)

interpretation pdus: framing pdu_to_bytes "read_pdu m" "pdu_ok m" for m
proof
  fix p assume p: "pdu_ok m p"
  then have "header_ok (p_header p)" by (simp add: pdu_ok_def)
  with header_decode_bytes [OF this, of "[]"] show "frames (read_pdu m) p (pdu_to_bytes p)"
    unfolding read_pdu_def pdu_to_bytes_def
    by (intro frames_append [OF frames_exact] frames_first [OF frames_proto])
      (auto simp: pdu_lengths_ok [OF p]
        intro!: frames_append [OF frames_exact] frames_last [OF frames_iso] frames_return)
qed

text \<open>Conversely, a PDU that was read is well formed, and the reader took its bytes and no more.\<close>

lemma read_exact_Inr:
  "read_exact n s = Inr (b, s') \<longleftrightarrow>
     n \<le> length (st_bytes s) \<and> b = take n (st_bytes s) \<and> s' = s\<lparr>st_bytes := drop n (st_bytes s)\<rparr>"
  by (auto simp: read_exact_def)

lemma io_proto_Inr: "io_proto r s = Inr (a, s') \<longleftrightarrow> r = Inr a \<and> s' = s"
  by (cases r) (auto simp: io_fail_def io_return_def)

lemma rd_many_length: "rd_many n m r = Inr (as, r') \<Longrightarrow> length as = n"
  by (induction n arbitrary: r as r')
    (auto simp: rd_return_def rd_bind_def rbind_Inr_iff)

lemma read_iso_Inr:
  "read_iso n s = Inr (ds, s') \<Longrightarrow>
     length ds = n \<and> n * 16 \<le> length (st_bytes s) \<and> s' = s\<lparr>st_bytes := drop (n * 16) (st_bytes s)\<rparr>"
  by (auto simp: read_iso_def io_bind_def rbind_Inr_iff read_exact_Inr io_proto_Inr io_return_def
      rd_many_length split: if_splits)

lemma read_pdu_sound:
  assumes "read_pdu m s = Inr (p, s')"
  shows "pdu_ok m p \<and> (\<exists>xs. st_bytes s = xs @ st_bytes s'
      \<and> length xs = 48 + length (p_data p) + 16 * length (p_iso p))"
proof -
  let ?s = "s\<lparr>st_bytes := drop 48 (st_bytes s)\<rparr>"
  obtain h where h: "48 \<le> length (st_bytes s)" "header_decode (take 48 (st_bytes s)) = Inr h"
    and body: "(case pdu_lengths h m of Inl e \<Rightarrow> io_fail e
       | Inr (n, k) \<Rightarrow> io_bind (read_exact n) (\<lambda>data. io_bind (read_iso k) (\<lambda>iso.
             io_return \<lparr>p_header = h, p_data = data, p_iso = iso\<rparr>))) ?s = Inr (p, s')"
    using assms by (auto simp: read_pdu_def io_bind_def rbind_Inr_iff read_exact_Inr io_proto_Inr)
  then obtain n k where l: "pdu_lengths h m = Inr (n, k)"
    by (cases "pdu_lengths h m") (auto simp: io_fail_def)
  with body have n: "n \<le> length (st_bytes s) - 48" "length (p_iso p) = k"
      "p_header p = h" "p_data p = take n (drop 48 (st_bytes s))"
      "k * 16 \<le> length (st_bytes s) - 48 - n" "st_bytes s' = drop (k * 16) (drop n (drop 48 (st_bytes s)))"
    by (auto simp: io_bind_def rbind_Inr_iff read_exact_Inr io_return_def dest!: read_iso_Inr)
  have ok: "pdu_ok m p"
    using header_decode_kind [OF h(2)] l n
    by (auto simp: pdu_ok_def pdu_lengths_def split: body.splits if_splits)
  have "st_bytes s = take (48 + n + k * 16) (st_bytes s) @ st_bytes s'"
    by (simp add: n add.commute add.assoc)
  then show ?thesis
    using ok n h by (intro conjI exI [of _ "take (48 + n + k * 16) (st_bytes s)"]) auto
qed

lemma frames_ret_submit:
  assumes "dir_for seqnum = Some dir" "length data = ret_payload_len ret dir" "length data \<le> m"
  shows "frames (read_ret_submit dir_for m) (header_ret_submit seqnum ret, data)
    (ret_submit_bytes seqnum ret data)"
proof -
  have ok: "header_ok (header_ret_submit seqnum ret)"
    by (simp add: header_ok_def header_ret_submit_def)
  show ?thesis
    unfolding read_ret_submit_def ret_submit_bytes_def
    using header_decode_bytes [OF ok, of "[]"] ok assms
    by (intro frames_append [OF frames_exact] frames_first [OF frames_proto])
      (auto simp: header_ret_submit_def Let_def intro!: frames_last [OF frames_exact frames_return])
qed

interpretation replies: framing
    "\<lambda>(h, data). case h_body h of RetSubmit r \<Rightarrow> ret_submit_bytes (bh_seqnum (h_base h)) r data | _ \<Rightarrow> []"
    "read_ret_submit dir_for m"
    "\<lambda>(h, data). \<exists>q r d. h = header_ret_submit q r \<and> dir_for q = Some d
       \<and> length data = ret_payload_len r d \<and> length data \<le> m" for dir_for m
proof
  fix a :: "header \<times> u8 list"
  assume "case a of (h, data) \<Rightarrow> \<exists>q r d. h = header_ret_submit q r \<and> dir_for q = Some d
       \<and> length data = ret_payload_len r d \<and> length data \<le> m"
  then obtain q r d where "fst a = header_ret_submit q r" "dir_for q = Some d"
    "length (snd a) = ret_payload_len r d" "length (snd a) \<le> m"
    by (cases a) auto
  then show "frames (read_ret_submit dir_for m) a
      (case a of (h, data) \<Rightarrow>
        case h_body h of RetSubmit r \<Rightarrow> ret_submit_bytes (bh_seqnum (h_base h)) r data | _ \<Rightarrow> [])"
    using frames_ret_submit [of dir_for q d "snd a" r m]
    by (cases a) (simp add: header_ret_submit_def)
qed

subsection \<open>Interrupted messages\<close>

text \<open>
  \<open>cuts m xs\<close>: from any proper prefix of \<open>xs\<close>, \<open>m\<close> reports what ended the stream.
\<close>

definition cuts :: "'a sio \<Rightarrow> u8 list \<Rightarrow> bool" where
  "cuts m xs \<longleftrightarrow> (\<forall>e n. n < length xs \<longrightarrow> m \<lparr>st_bytes = take n xs, st_end = e\<rparr> = Inl e)"

lemma cuts_exact: "n = length xs \<Longrightarrow> cuts (read_exact n) xs"
  by (simp add: cuts_def read_exact_def)

lemma cuts_bind:
  assumes "cuts m xs" "frames m a xs" "cuts (f a) ys"
  shows "cuts (io_bind m f) (xs @ ys)"
  unfolding cuts_def
proof (intro allI impI)
  fix e n assume n: "n < length (xs @ ys)"
  show "io_bind m f \<lparr>st_bytes = take n (xs @ ys), st_end = e\<rparr> = Inl e"
  proof (cases "n < length xs")
    case True
    with assms(1) show ?thesis by (simp add: cuts_def io_bind_def)
  next
    case False
    with n have "n - length xs < length ys" by auto
    with assms(3) have "f a \<lparr>st_bytes = take (n - length xs) ys, st_end = e\<rparr> = Inl e"
      by (simp add: cuts_def)
    moreover have "m \<lparr>st_bytes = take n (xs @ ys), st_end = e\<rparr> =
        Inr (a, \<lparr>st_bytes = take (n - length xs) ys, st_end = e\<rparr>)"
      using framesD [OF assms(2), of "\<lparr>st_bytes = take n (xs @ ys), st_end = e\<rparr>"] False by simp
    ultimately show ?thesis by (simp add: io_bind_def)
  qed
qed

lemma cuts_then: "cuts m xs \<Longrightarrow> cuts (io_bind m f) xs"
  by (simp add: cuts_def io_bind_def)

lemma cuts_after: "frames m a [] \<Longrightarrow> cuts (f a) ys \<Longrightarrow> cuts (io_bind m f) ys"
  using cuts_bind [of m "[]" a f ys] by (simp add: cuts_def)

lemma cuts_iso: "n = length ds \<Longrightarrow> cuts (read_iso n) (concat (map iso_to_bytes ds))"
proof (cases "0 < n")
  case True
  assume n: "n = length ds"
  have "length (concat (map iso_to_bytes ds)) = n * 16"
    using iso_codec.length_many [of ds] by (simp add: n list_all_iff)
  with True show ?thesis
    unfolding read_iso_def by (auto intro!: cuts_then cuts_exact)
qed (simp add: cuts_def)

lemma cuts_pdu:
  assumes "pdu_ok m p"
  shows "cuts (read_pdu m) (pdu_to_bytes p)"
proof -
  have h: "header_ok (p_header p)" using assms by (simp add: pdu_ok_def)
  from header_decode_bytes [OF this, of "[]"] h show ?thesis
    unfolding read_pdu_def pdu_to_bytes_def
    by (intro cuts_bind [OF cuts_exact frames_exact] cuts_after [OF frames_proto])
      (auto simp: pdu_lengths_ok [OF assms]
        intro!: cuts_bind [OF cuts_exact frames_exact] cuts_then [OF cuts_iso])
qed

section \<open>Properties\<close>

text \<open>
  C7. Command PDUs that a client writes back to back on a connection are read back one by
  one, each with its payload and its isochronous descriptors, and the reader stops at the
  first byte after the last of them: an IN submit, whose length field is not followed by a
  payload, and isochronous descriptors, which the server will not service, leave the stream
  in frame.
\<close>

theorem pdu_stream_in_frame:
  assumes "list_all (pdu_ok m) ps"
  shows "io_many (length ps) (read_pdu m)
      \<lparr>st_bytes = concat (map pdu_to_bytes ps) @ bs, st_end = e\<rparr>
    = Inr (ps, \<lparr>st_bytes = bs, st_end = e\<rparr>)"
  using assms by (rule pdus.receive_all)

definition sample_submit :: "u32 \<Rightarrow> u32 \<Rightarrow> i32 \<Rightarrow> i32 \<Rightarrow> header" where
  "sample_submit sq dir len npkt = header_cmd_submit
     \<lparr>bh_command = 0, bh_seqnum = sq, bh_devid = 1, bh_direction = dir, bh_ep = 2\<rparr>
     \<lparr>cs_transfer_flags = 0, cs_transfer_buffer_length = len, cs_start_frame = 0,
      cs_number_of_packets = npkt, cs_interval = 0, cs_setup = replicate 8 0\<rparr>"

definition sample_pdus :: "pdu list" where
  "sample_pdus =
     [\<lparr>p_header = sample_submit 5 DIR_OUT 2 (-1), p_data = [0xaa, 0xbb], p_iso = []\<rparr>,
      \<lparr>p_header = sample_submit 6 DIR_IN 64 0, p_data = [], p_iso = []\<rparr>,
      \<lparr>p_header = sample_submit 7 DIR_OUT 0 1, p_data = [],
       p_iso = [\<lparr>iso_offset = 0, iso_length = 8, iso_actual_length = 0, iso_status = 0\<rparr>]\<rparr>]"

lemma sample_pdus_ok: "list_all (pdu_ok 65536) sample_pdus"
  by (simp add: sample_pdus_def sample_submit_def header_cmd_submit_def pdu_ok_def header_ok_def
      iso_count_def is_iso_def cmd_payload_len_def bh_dir_def direction_from_raw_def is_in_def
      DIR_IN_def DIR_OUT_def MAX_ISO_PACKETS_def)

theorem pdu_stream_in_frame_witness:
  "io_many 3 (read_pdu 65536)
      \<lparr>st_bytes = concat (map pdu_to_bytes sample_pdus) @ [7], st_end = Io UnexpectedEof []\<rparr>
    = Inr (sample_pdus, \<lparr>st_bytes = [7], st_end = Io UnexpectedEof []\<rparr>)"
proof -
  have "length sample_pdus = 3" by (simp add: sample_pdus_def)
  with pdu_stream_in_frame [OF sample_pdus_ok, of "[7]" "Io UnexpectedEof []"] show ?thesis
    by simp
qed

text \<open>
  C6. Whatever the bytes on the connection are, a PDU that \<open>read_pdu\<close> returns is a
  \<open>CMD_SUBMIT\<close> or \<open>CMD_UNLINK\<close> whose length field lies between 0 and the bound, with at most
  1024 isochronous packets, a payload and a descriptor array of exactly the announced sizes
  (so never more than the bound), and the reader consumed exactly the 48 header bytes and these.
\<close>

theorem read_pdu_bounded:
  assumes "read_pdu m s = Inr (p, s')"
  shows "pdu_ok m p \<and> length (p_data p) \<le> m \<and> length (p_iso p) \<le> 1024
    \<and> (\<exists>xs. st_bytes s = xs @ st_bytes s'
        \<and> length xs = 48 + length (p_data p) + 16 * length (p_iso p))"
proof -
  have ok: "pdu_ok m p" using read_pdu_sound [OF assms] by simp
  then have "length (p_data p) \<le> m \<and> length (p_iso p) \<le> 1024"
    by (auto simp: pdu_ok_def cmd_payload_len_def MAX_ISO_PACKETS_def split: body.splits)
  with read_pdu_sound [OF assms] show ?thesis by simp
qed

theorem read_pdu_bounded_witness:
  "let p = hd sample_pdus in
   pdu_ok 65536 p \<and> length (p_data p) \<le> 65536 \<and> length (p_iso p) \<le> 1024
    \<and> (\<exists>xs. pdu_to_bytes p @ [1, 2] = xs @ [1, 2]
        \<and> length xs = 48 + length (p_data p) + 16 * length (p_iso p))"
proof -
  let ?p = "hd sample_pdus" and ?e = "Io UnexpectedEof []"
  have "pdu_ok 65536 ?p" using sample_pdus_ok by (simp add: sample_pdus_def)
  then have "read_pdu 65536 \<lparr>st_bytes = pdu_to_bytes ?p @ [1, 2], st_end = ?e\<rparr> =
      Inr (?p, \<lparr>st_bytes = [1, 2], st_end = ?e\<rparr>)"
    by (subst framesD [OF pdus.receive_enc]) auto
  from read_pdu_bounded [OF this] show ?thesis by (simp add: Let_def)
qed

text \<open>
  C22. A connection that breaks in the middle of a PDU, in its header, its payload or its
  descriptors, is reported with the error that ended the stream; a partial PDU never passes
  for a complete one.
\<close>

theorem read_pdu_interrupted:
  assumes "pdu_ok m p" "n < length (pdu_to_bytes p)"
  shows "read_pdu m \<lparr>st_bytes = take n (pdu_to_bytes p), st_end = e\<rparr> = Inl e"
  using cuts_pdu [OF assms(1)] assms(2) by (simp add: cuts_def)

theorem read_pdu_interrupted_witness:
  "read_pdu 65536 \<lparr>st_bytes = take 49 (pdu_to_bytes (hd sample_pdus)), st_end = Io TimedOut []\<rparr>
     = Inl (Io TimedOut [])"
proof -
  have "pdu_ok 65536 (hd sample_pdus)" using sample_pdus_ok by (simp add: sample_pdus_def)
  moreover from this have "49 < length (pdu_to_bytes (hd sample_pdus))"
    by (simp add: pdu_to_bytes_def pdu_ok_def) (simp add: sample_pdus_def)
  ultimately show ?thesis by (rule read_pdu_interrupted)
qed

text \<open>
  C23. A device list of any mix of interface counts, and the reply to an import, read back as
  they were sent, up to the first byte after them; a refused import is an error, never a device.
\<close>

theorem op_replies_roundtrip:
  assumes "list_all (\<lambda>d. device_ok d \<and> interfaces_ok d) ds" "length ds \<le> 1024" "device_ok d"
  shows "read_devlist_reply \<lparr>st_bytes = encode_devlist_reply ds @ bs, st_end = e\<rparr>
      = Inr (ds, \<lparr>st_bytes = bs, st_end = e\<rparr>)
    \<and> read_import_reply \<lparr>st_bytes = encode_import_reply (Some d) @ bs, st_end = e\<rparr>
      = Inr (d\<lparr>ud_interfaces := []\<rparr>, \<lparr>st_bytes = bs, st_end = e\<rparr>)
    \<and> read_import_reply \<lparr>st_bytes = encode_import_reply None @ bs, st_end = e\<rparr>
      = Inl (Io Other ''peer refused the request (status 1)'')"
proof (intro conjI)
  show "read_devlist_reply \<lparr>st_bytes = encode_devlist_reply ds @ bs, st_end = e\<rparr>
      = Inr (ds, \<lparr>st_bytes = bs, st_end = e\<rparr>)"
    using assms by (subst framesD [OF devlist_replies.receive_enc]) auto
  have "encode_import_reply (Some d) = encode_import_reply (Some (d\<lparr>ud_interfaces := []\<rparr>))"
    by (simp add: device_encode_def device_fixed_encode_def)
  then show "read_import_reply \<lparr>st_bytes = encode_import_reply (Some d) @ bs, st_end = e\<rparr>
      = Inr (d\<lparr>ud_interfaces := []\<rparr>, \<lparr>st_bytes = bs, st_end = e\<rparr>)"
    using assms(3) by (subst framesD [OF import_replies.receive_enc]) (auto simp: device_ok_def)
qed (rule read_import_reply_refused)

definition sample_device :: usb_device where
  "sample_device =
     \<lparr>ud_path = ''/sys/bus/usb/devices/3-12'', ud_busid = ''3-12'', ud_busnum = 3, ud_devnum = 14,
      ud_speed = speed_as_raw Full, ud_id_vendor = 0x28de, ud_id_product = 0x1304,
      ud_bcd_device = 0x0100, ud_class = 0, ud_sub_class = 0, ud_protocol = 0,
      ud_configuration_value = 1, ud_num_configurations = 1, ud_num_interfaces = 2,
      ud_interfaces = replicate 2 \<lparr>ui_class = 3, ui_subclass = 0, ui_protocol = 0\<rparr>\<rparr>"

lemma sample_device_ok: "device_ok sample_device" "interfaces_ok sample_device"
proof -
  show "interfaces_ok sample_device" by (simp add: sample_device_def interfaces_ok_def)
  have "ascii (as_bytes (ud_path sample_device))" "ascii (as_bytes (ud_busid sample_device))"
    "0 \<notin> set (as_bytes (ud_path sample_device))" "0 \<notin> set (as_bytes (ud_busid sample_device))"
    by code_simp+
  then show "device_ok sample_device"
    by (simp add: device_ok_def fits_field_def utf8_valid_ascii) (simp add: sample_device_def)
qed

theorem op_replies_roundtrip_witness:
  "let e = Io UnexpectedEof [] in
   read_devlist_reply \<lparr>st_bytes = encode_devlist_reply [sample_device, sample_device] @ [9], st_end = e\<rparr>
      = Inr ([sample_device, sample_device], \<lparr>st_bytes = [9], st_end = e\<rparr>)
    \<and> read_import_reply \<lparr>st_bytes = encode_import_reply (Some sample_device) @ [9], st_end = e\<rparr>
      = Inr (sample_device\<lparr>ud_interfaces := []\<rparr>, \<lparr>st_bytes = [9], st_end = e\<rparr>)"
  unfolding Let_def
  using op_replies_roundtrip [of "[sample_device, sample_device]" sample_device "[9]" "Io UnexpectedEof []"]
    sample_device_ok
  by simp

text \<open>
  C24. Requests written back to back are read back as the same requests, also the import
  request with its bus id; a header that carries another protocol version is an error, and a
  well-formed header with an unknown code is reported as such and not confused with either.
\<close>

theorem op_requests_roundtrip:
  assumes "list_all op_request_ok qs"
  shows "io_many (length qs) read_op_request
      \<lparr>st_bytes = concat (map op_request_bytes qs) @ bs, st_end = e\<rparr>
      = Inr (qs, \<lparr>st_bytes = bs, st_end = e\<rparr>)
    \<and> read_op_request \<lparr>st_bytes = op_header_to_bytes h @ bs, st_end = e\<rparr> =
       (if op_version h \<noteq> USBIP_VERSION then Inl (Proto (BadVersion (op_version h)))
        else if op_code h = OP_REQ_DEVLIST then Inr (Some DevList, \<lparr>st_bytes = bs, st_end = e\<rparr>)
        else if op_code h \<noteq> OP_REQ_IMPORT then Inr (None, \<lparr>st_bytes = bs, st_end = e\<rparr>)
        else read_op_request \<lparr>st_bytes = op_header_to_bytes (op_header_new OP_REQ_IMPORT 0) @ bs, st_end = e\<rparr>)"
proof
  show "io_many (length qs) read_op_request
      \<lparr>st_bytes = concat (map op_request_bytes qs) @ bs, st_end = e\<rparr>
      = Inr (qs, \<lparr>st_bytes = bs, st_end = e\<rparr>)"
    using assms by (rule op_requests.receive_all)
  have h: "read_op_header \<lparr>st_bytes = op_header_to_bytes h @ bs, st_end = e\<rparr> =
      Inr (h, \<lparr>st_bytes = bs, st_end = e\<rparr>)" for h
    by (subst framesD [OF frames_op_header]) auto
  show "read_op_request \<lparr>st_bytes = op_header_to_bytes h @ bs, st_end = e\<rparr> =
       (if op_version h \<noteq> USBIP_VERSION then Inl (Proto (BadVersion (op_version h)))
        else if op_code h = OP_REQ_DEVLIST then Inr (Some DevList, \<lparr>st_bytes = bs, st_end = e\<rparr>)
        else if op_code h \<noteq> OP_REQ_IMPORT then Inr (None, \<lparr>st_bytes = bs, st_end = e\<rparr>)
        else read_op_request \<lparr>st_bytes = op_header_to_bytes (op_header_new OP_REQ_IMPORT 0) @ bs, st_end = e\<rparr>)"
    by (simp add: read_op_request_def io_bind_def h check_version_def io_return_def io_fail_def
        op_header_new_def)
qed

theorem op_requests_roundtrip_witness:
  "io_many 2 read_op_request
     \<lparr>st_bytes = encode_devlist_request @ encode_import_request ''1-4'', st_end = Io UnexpectedEof []\<rparr>
   = Inr ([Some DevList, Some (Import ''1-4'')], \<lparr>st_bytes = [], st_end = Io UnexpectedEof []\<rparr>)"
proof -
  have "fits_field ''1-4'' BUSID_LEN" by code_simp
  then have "list_all op_request_ok [Some DevList, Some (Import ''1-4'')]" by simp
  from op_requests_roundtrip [OF this, of "[]" "Io UnexpectedEof []"] show ?thesis
    by (simp add: numeral_2_eq_2)
qed

text \<open>
  A \<open>RET_SUBMIT\<close> written by the server reads back with its payload when the reader knows
  the direction of the transfer and the payload has the announced length; a reply for a
  sequence number it does not know, or one whose length exceeds the bound, is refused.
\<close>

theorem ret_submit_roundtrip:
  assumes "dir_for q = Some d" "length data = ret_payload_len r d"
  shows "read_ret_submit dir_for m \<lparr>st_bytes = ret_submit_bytes q r data @ bs, st_end = e\<rparr> =
    (if length data \<le> m then Inr ((header_ret_submit q r, data), \<lparr>st_bytes = bs, st_end = e\<rparr>)
     else Inl (Proto (TooLarge ''actual_length'' (int (length data)) (int m))))"
proof (cases "length data \<le> m")
  case True
  then show ?thesis
    using framesD [OF frames_ret_submit [of dir_for q d data r m]] assms by simp
next
  case False
  have ok: "header_ok (header_ret_submit q r)" by (simp add: header_ok_def header_ret_submit_def)
  have "read_exact 48 \<lparr>st_bytes = header_to_bytes (header_ret_submit q r) @ data @ bs, st_end = e\<rparr> =
      Inr (header_to_bytes (header_ret_submit q r), \<lparr>st_bytes = data @ bs, st_end = e\<rparr>)"
    using ok by (simp add: read_exact_def)
  with False assms header_decode_bytes [OF ok, of "[]"] show ?thesis
    by (simp add: read_ret_submit_def ret_submit_bytes_def io_bind_def io_return_def io_fail_def)
      (simp add: header_ret_submit_def Let_def io_fail_def)
qed

theorem ret_submit_roundtrip_witness:
  "let r = ret_submit_default\<lparr>rs_actual_length := 3\<rparr>; s = \<lparr>st_bytes = ret_submit_bytes 7 r [9, 8, 7], st_end = Io TimedOut []\<rparr>
   in read_ret_submit (\<lambda>q. Some In) 64 s = Inr ((header_ret_submit 7 r, [9, 8, 7]), s\<lparr>st_bytes := []\<rparr>)
    \<and> read_ret_submit (\<lambda>q. Some In) 2 s = Inl (Proto (TooLarge ''actual_length'' 3 2))"
  unfolding Let_def
  using ret_submit_roundtrip [of "\<lambda>q. Some In" 7 In "[9, 8, 7]" "ret_submit_default\<lparr>rs_actual_length := 3\<rparr>"
      64 "[]" "Io TimedOut []"]
    ret_submit_roundtrip [of "\<lambda>q. Some In" 7 In "[9, 8, 7]" "ret_submit_default\<lparr>rs_actual_length := 3\<rparr>"
      2 "[]" "Io TimedOut []"]
  by (simp add: ret_payload_len_def is_in_def)

end
