(* ===== verification/Netif.thy ===== *)
theory Netif
  imports Rust_Str Proto_Io
begin

text \<open>
  Local addresses, \<open>usbfwd-common/src/netif.rs\<close>: which interface addresses belong to the
  tailnet. The list that \<open>getifaddrs\<close> builds is a parameter, one entry per node of the C
  list; an IPv4 address is its 32-bit number, an IPv6 address its sixteen octets.
\<close>

datatype ip_addr = V4 u32 | V6 "u8 list"

record interface =
  if_name :: string
  if_addr :: ip_addr

definition ipv4 :: "u8 \<Rightarrow> u8 \<Rightarrow> u8 \<Rightarrow> u8 \<Rightarrow> u32" where
  "ipv4 = of_be32"

definition TAILSCALE_V4_NET :: "u32 \<times> nat" where
  "TAILSCALE_V4_NET = (ipv4 100 64 0 0, 10)"

definition TAILSCALE_V6_PREFIX :: "u8 list" where
  "TAILSCALE_V6_PREFIX = [0xfd, 0x7a, 0x11, 0x5c, 0xa1, 0xe0]"

definition is_tailscale_v4 :: "u32 \<Rightarrow> bool" where
  "is_tailscale_v4 a =
     (let (net, bits) = TAILSCALE_V4_NET; prefix = push_bit (32 - bits) (- 1)
      in a AND prefix = net AND prefix)"

definition is_tailscale_v6 :: "u8 list \<Rightarrow> bool" where
  "is_tailscale_v6 a \<longleftrightarrow> take 6 a = TAILSCALE_V6_PREFIX"

fun is_tailscale_addr :: "ip_addr \<Rightarrow> bool" where
  "is_tailscale_addr (V4 a) = is_tailscale_v4 a"
| "is_tailscale_addr (V6 a) = is_tailscale_v6 a"

text \<open>A node of the C list: its name and address may be null, and families other than the two are skipped.\<close>

datatype sockaddr = AfInet u8 u8 u8 u8 | AfInet6 "u8 list" | AfOther

record ifaddrs =
  ifa_name :: "string option"
  ifa_addr :: "sockaddr option"

fun if_list :: "ifaddrs list \<Rightarrow> interface list" where
  "if_list [] = []"
| "if_list (ifa # cur) =
     (case (ifa_addr ifa, ifa_name ifa) of
        (Some (AfInet a b c d), Some name) \<Rightarrow> \<lparr>if_name = name, if_addr = V4 (of_be32 a b c d)\<rparr> # if_list cur
      | (Some (AfInet6 bs), Some name) \<Rightarrow> \<lparr>if_name = name, if_addr = V6 bs\<rparr> # if_list cur
      | _ \<Rightarrow> if_list cur)"

text \<open>\<open>Ipv4Addr::is_loopback\<close>, \<open>is_link_local\<close> and \<open>Ipv6Addr::is_loopback\<close>.\<close>

definition v4_loopback :: "u32 \<Rightarrow> bool" where
  "v4_loopback a \<longleftrightarrow> drop_bit 24 a = 127"

definition v4_link_local :: "u32 \<Rightarrow> bool" where
  "v4_link_local a \<longleftrightarrow> drop_bit 16 a = 0xa9fe"

definition v6_loopback :: "u8 list \<Rightarrow> bool" where
  "v6_loopback a \<longleftrightarrow> a = replicate 15 0 @ [1]"

definition v6_link_local :: "u8 list \<Rightarrow> bool" where
  "v6_link_local a \<longleftrightarrow> of_be16 (a ! 0) (a ! 1) AND 0xffc0 = 0xfe80"

fun bindable :: "ip_addr \<Rightarrow> bool" where
  "bindable (V4 a) = (\<not> v4_loopback a)"
| "bindable (V6 a) = (\<not> v6_loopback a \<and> \<not> v6_link_local a)"

fun family_key :: "ip_addr \<Rightarrow> nat" where
  "family_key (V4 a) = 0"
| "family_key (V6 a) = 1"

definition tailscale_addrs :: "io_error + ifaddrs list \<Rightarrow> io_error + ip_addr list" where
  "tailscale_addrs ifs = rbind ifs (\<lambda>l.
     Inr (remdups_adj (sort_key family_key (filter bindable (map if_addr
       (filter (\<lambda>i. is_tailscale_addr (if_addr i) \<or> starts_with (if_name i) ''tailscale'') (if_list l)))))))"

definition lan_v4_addrs :: "io_error + ifaddrs list \<Rightarrow> io_error + u32 list" where
  "lan_v4_addrs ifs = rbind ifs (\<lambda>l. Inr (List.map_filter
     (\<lambda>i. case if_addr i of
        V4 a \<Rightarrow> if \<not> v4_loopback a \<and> \<not> v4_link_local a then Some a else None
      | V6 a \<Rightarrow> None) (if_list l)))"

definition hostname :: "string option \<Rightarrow> string" where
  "hostname r = (case r of None \<Rightarrow> ''usbfwd'' | Some s \<Rightarrow> takeWhile (\<lambda>c. c \<noteq> CHR ''.'') s)"

section \<open>The tailnet range\<close>

lemma prefix_eq_drop_bit:
  "(a AND push_bit 22 (- 1)) = (b AND push_bit 22 (- 1)) \<longleftrightarrow> drop_bit 22 a = drop_bit 22 (b :: u32)"
proof
  assume eq: "(a AND push_bit 22 (- 1)) = (b AND push_bit 22 (- 1))"
  show "drop_bit 22 a = drop_bit 22 b"
  proof (rule bit_word_eqI)
    fix n assume "n < LENGTH(32)"
    show "bit (drop_bit 22 a) n = bit (drop_bit 22 b) n"
    proof (cases "22 + n < 32")
      case True
      then have "bit (a AND push_bit 22 (- 1)) (22 + n) = bit a (22 + n)"
        "bit (b AND push_bit 22 (- 1)) (22 + n) = bit b (22 + n)"
        by (simp_all add: bit_simps)
      then have "bit a (22 + n) = bit b (22 + n)" using eq by (simp only:)
      then show ?thesis by (simp add: bit_simps)
    qed (auto simp: bit_simps dest: bit_imp_le_length)
  qed
next
  assume eq: "drop_bit 22 a = drop_bit 22 b"
  show "(a AND push_bit 22 (- 1)) = (b AND push_bit 22 (- 1))"
  proof (rule bit_word_eqI)
    fix n assume "n < LENGTH(32)"
    have "22 \<le> n \<Longrightarrow> bit a n = bit b n"
      using arg_cong [OF eq, of "\<lambda>w. bit w (n - 22)"] by (simp add: bit_simps)
    then show "bit (a AND push_bit 22 (- 1)) n = bit (b AND push_bit 22 (- 1)) n"
      by (auto simp: bit_simps)
  qed
qed

lemma tailscale_v4_range: "is_tailscale_v4 a \<longleftrightarrow> 0x64400000 \<le> a \<and> a \<le> 0x647fffff"
proof -
  have bits: "(32 :: nat) - 10 = 22" by simp
  have "is_tailscale_v4 a \<longleftrightarrow> drop_bit 22 a = drop_bit 22 (ipv4 100 64 0 0)"
    by (simp only: is_tailscale_v4_def TAILSCALE_V4_NET_def Let_def prod.case bits prefix_eq_drop_bit)
  also have "\<dots> \<longleftrightarrow> drop_bit 22 a = 0x191" by (simp add: ipv4_def of_be32_def)
  also have "\<dots> \<longleftrightarrow> unat a div 2 ^ 22 = 0x191"
  proof -
    have "unat (drop_bit 22 a) = unat a div 2 ^ 22" unfolding unat_drop_bit_eq by (rule drop_bit_eq_div)
    then show ?thesis by (simp only: word_unat_eq_iff) simp
  qed
  also have "\<dots> \<longleftrightarrow> 0x64400000 \<le> unat a \<and> unat a \<le> 0x647fffff" by (auto simp: div_nat_eqI)
  finally show ?thesis by (simp add: word_le_nat_alt)
qed

lemma tailscale_addrs_sound:
  assumes "tailscale_addrs ifs = Inr as" "a \<in> set as"
  shows "bindable a \<and> (\<exists>l i. ifs = Inr l \<and> i \<in> set (if_list l) \<and> if_addr i = a
    \<and> (is_tailscale_addr a \<or> starts_with (if_name i) ''tailscale''))"
  using assms by (cases ifs) (auto simp: tailscale_addrs_def)

end
