(* ===== verification/Registry.thy ===== *)
theory Registry
  imports Prelude
begin

text \<open>
  \<^verbatim>\<open>usbfwd-server/src/registry.rs\<close>: at most one importer per device. A lease is a value
  that its holder drops exactly once; the transition system keeps the set of bus ids the
  registry calls busy beside the multiset (as a list) of leases that are alive.
\<close>

type_synonym registry = "string set"

definition registry_new :: registry where
  "registry_new = {}"

text \<open>\<open>HashSet::insert\<close> says whether the element was new; \<open>True\<close> is \<open>Some(Lease)\<close>.\<close>

definition acquire :: "string \<Rightarrow> registry \<Rightarrow> bool \<times> registry" where
  "acquire busid busy = (if busid \<in> busy then (False, busy) else (True, insert busid busy))"

definition drop_lease :: "string \<Rightarrow> registry \<Rightarrow> registry" where
  "drop_lease busid busy = busy - {busid}"

inductive registry_step :: "registry \<times> string list \<Rightarrow> registry \<times> string list \<Rightarrow> bool" where
  Granted: "acquire b busy = (True, busy') \<Longrightarrow> registry_step (busy, ls) (busy', b # ls)"
| Refused: "acquire b busy = (False, busy') \<Longrightarrow> registry_step (busy, ls) (busy', ls)"
| Dropped: "b \<in> set ls \<Longrightarrow> registry_step (busy, ls) (drop_lease b busy, remove1 b ls)"

inductive_cases registry_stepE: "registry_step (busy, ls) s'"

definition registry_inv :: "registry \<times> string list \<Rightarrow> bool" where
  "registry_inv s \<longleftrightarrow> fst s = set (snd s) \<and> distinct (snd s)"

lemma registry_step_inv: "registry_step s s' \<Longrightarrow> registry_inv s \<Longrightarrow> registry_inv s'"
  by (induction rule: registry_step.induct)
    (auto simp: registry_inv_def acquire_def drop_lease_def split: if_splits)

text \<open>The contract the server relies on when it imports a device.\<close>

locale exclusive_leases =
  fixes held :: "'r \<Rightarrow> string set"
    and take_lease :: "string \<Rightarrow> 'r \<Rightarrow> bool \<times> 'r" and give_back :: "string \<Rightarrow> 'r \<Rightarrow> 'r"
  assumes take_fresh: "b \<notin> held r \<Longrightarrow> \<exists>r'. take_lease b r = (True, r') \<and> held r' = insert b (held r)"
    and take_busy: "b \<in> held r \<Longrightarrow> \<exists>r'. take_lease b r = (False, r') \<and> held r' = held r"
    and give: "held (give_back b r) = held r - {b}"
begin

lemma take_fst: "fst (take_lease b r) = (b \<notin> held r)"
proof (cases "b \<in> held r")
  case True
  from take_busy [OF this] obtain r' where "take_lease b r = (False, r')" by blast
  with True show ?thesis by simp
next
  case False
  from take_fresh [OF this] obtain r' where "take_lease b r = (True, r')" by blast
  with False show ?thesis by simp
qed

lemma take_held: "held (snd (take_lease b r)) = insert b (held r)"
proof (cases "b \<in> held r")
  case True
  from take_busy [OF this] obtain r' where "take_lease b r = (False, r')" "held r' = held r" by blast
  with True show ?thesis by (simp add: insert_absorb)
next
  case False
  from take_fresh [OF this] obtain r' where "take_lease b r = (True, r')" "held r' = insert b (held r)" by blast
  then show ?thesis by simp
qed

lemma take_again: "fst (take_lease b (give_back b r))"
  by (simp add: take_fst give)

end

interpretation leases: exclusive_leases "\<lambda>r. r" acquire drop_lease
  by unfold_locales (auto simp: acquire_def drop_lease_def)

section \<open>Properties\<close>

text \<open>
  However acquisitions and drops of leases interleave, no device has two leases at a
  time, a device is busy exactly while its lease lives, and after a lease is dropped the
  device can be acquired again.
\<close>

theorem at_most_one_lease:
  assumes "registry_step\<^sup>*\<^sup>* (registry_new, []) (busy, ls)"
  shows "distinct ls \<and> busy = set ls \<and> fst (acquire b busy) = (b \<notin> set ls)
    \<and> fst (acquire b (drop_lease b busy))"
proof -
  have "registry_inv (busy, ls)"
    using assms
  proof (induction rule: rtranclp_induct)
    case base
    show ?case by (simp add: registry_inv_def registry_new_def)
  next
    case (step s s')
    from step(2,3) show ?case by (rule registry_step_inv)
  qed
  then show ?thesis
    using leases.take_fst [of b busy] leases.take_again [of b busy]
    by (simp add: registry_inv_def)
qed

theorem at_most_one_lease_witness:
  "distinct [''1-3'', ''1-2''] \<and> fst (acquire ''1-2'' (set [''1-3'', ''1-2''])) = False"
proof -
  have "registry_step (registry_new, []) ({''1-2''}, [''1-2''])"
    by (rule Granted) (simp add: acquire_def registry_new_def)
  moreover have "registry_step ({''1-2''}, [''1-2'']) (set [''1-3'', ''1-2''], [''1-3'', ''1-2''])"
    by (rule Granted) (simp add: acquire_def)
  ultimately have "registry_step\<^sup>*\<^sup>* (registry_new, []) (set [''1-3'', ''1-2''], [''1-3'', ''1-2''])"
    by (rule converse_rtranclp_into_rtranclp [OF _ r_into_rtranclp])
  from at_most_one_lease [OF this, of "''1-2''"] show ?thesis by simp
qed

end
