(* ===== verification/Descriptors.thy ===== *)
theory Descriptors
  imports Proto_Io
begin

text \<open>
  \<^verbatim>\<open>usb-backend/src/descriptors.rs\<close>: the walk over the raw descriptor blob. Indexing a
  slice out of range panics in Rust; here it is the error value \<open>Panic\<close>, so that a
  theorem can say where the parser cannot panic.
\<close>

section \<open>Data\<close>

definition DT_DEVICE :: u8 where "DT_DEVICE = 1"
definition DT_CONFIG :: u8 where "DT_CONFIG = 2"
definition DT_INTERFACE :: u8 where "DT_INTERFACE = 4"
definition DT_ENDPOINT :: u8 where "DT_ENDPOINT = 5"
definition DEVICE_DESC_LEN :: nat where "DEVICE_DESC_LEN = 18"

lemmas descriptor_types [simp] =
  DT_DEVICE_def DT_CONFIG_def DT_INTERFACE_def DT_ENDPOINT_def DEVICE_DESC_LEN_def

datatype transfer_type = Control | Isochronous | Bulk | Interrupt

definition from_attributes :: "u8 \<Rightarrow> transfer_type" where
  "from_attributes attrs =
     (let a = attrs AND 0x03 in
      if a = 0 then Control else if a = 1 then Isochronous else if a = 2 then Bulk else Interrupt)"

record device_descriptor =
  dd_bcd_usb :: u16
  dd_class :: u8
  dd_sub_class :: u8
  dd_protocol :: u8
  dd_max_packet_size0 :: u8
  dd_id_vendor :: u16
  dd_id_product :: u16
  dd_bcd_device :: u16
  dd_num_configurations :: u8

record endpoint_descriptor =
  ep_address :: u8
  ep_attributes :: u8
  ep_max_packet_size :: u16
  ep_interval :: u8

definition ep_transfer_type :: "endpoint_descriptor \<Rightarrow> transfer_type" where
  "ep_transfer_type e = from_attributes (ep_attributes e)"

definition ep_number :: "endpoint_descriptor \<Rightarrow> u8" where
  "ep_number e = ep_address e AND 0x0f"

definition ep_is_in :: "endpoint_descriptor \<Rightarrow> bool" where
  "ep_is_in e \<longleftrightarrow> ep_address e AND 0x80 \<noteq> 0"

record alt_setting =
  as_interface_number :: u8
  as_alternate_setting :: u8
  as_class :: u8
  as_sub_class :: u8
  as_protocol :: u8
  as_endpoints :: "endpoint_descriptor list"

record config_descriptor =
  cd_configuration_value :: u8
  cd_num_interfaces :: u8
  cd_alt_settings :: "alt_setting list"

text \<open>\<open>sort_unstable\<close> and \<open>dedup\<close>, which drops repetitions of the element before.\<close>

definition interface_numbers :: "config_descriptor \<Rightarrow> u8 list" where
  "interface_numbers c = remdups_adj (sort (map as_interface_number (cd_alt_settings c)))"

definition primary_alt :: "config_descriptor \<Rightarrow> u8 \<Rightarrow> alt_setting option" where
  "primary_alt c n =
     (case find (\<lambda>a. as_interface_number a = n \<and> as_alternate_setting a = 0) (cd_alt_settings c) of
        Some a \<Rightarrow> Some a
      | None \<Rightarrow> find (\<lambda>a. as_interface_number a = n) (cd_alt_settings c))"

definition primary_alt_settings :: "config_descriptor \<Rightarrow> alt_setting list" where
  "primary_alt_settings c = List.map_filter (primary_alt c) (interface_numbers c)"

record descriptors =
  ds_device :: device_descriptor
  ds_configs :: "config_descriptor list"

definition config :: "descriptors \<Rightarrow> u8 \<Rightarrow> config_descriptor option" where
  "config d v = find (\<lambda>c. cd_configuration_value c = v) (ds_configs d)"

section \<open>Parsing\<close>

datatype parse_error = Bad string | Panic

definition idx :: "u8 list \<Rightarrow> nat \<Rightarrow> parse_error + u8" where
  "idx b i = (if i < length b then Inr (b ! i) else Inl Panic)"

definition u16le :: "u8 list \<Rightarrow> nat \<Rightarrow> parse_error + u16" where
  "u16le b off = rbind (idx b off) (\<lambda>lo. rbind (idx b (off + 1)) (\<lambda>hi. Inr (of_le16 lo hi)))"

lemma idx_in [simp]: "i < length b \<Longrightarrow> idx b i = Inr (b ! i)"
  by (simp add: idx_def)

lemma u16le_in [simp]: "off + 1 < length b \<Longrightarrow> u16le b off = Inr (of_le16 (b ! off) (b ! (off + 1)))"
  by (simp add: u16le_def)

definition parse_interface :: "u8 list \<Rightarrow> nat \<Rightarrow> parse_error + alt_setting" where
  "parse_interface buf pos =
     rbind (idx buf (pos + 2)) (\<lambda>n. rbind (idx buf (pos + 3)) (\<lambda>a. rbind (idx buf (pos + 5)) (\<lambda>c.
     rbind (idx buf (pos + 6)) (\<lambda>s. rbind (idx buf (pos + 7)) (\<lambda>p.
       Inr \<lparr>as_interface_number = n, as_alternate_setting = a, as_class = c, as_sub_class = s,
         as_protocol = p, as_endpoints = []\<rparr>)))))"

definition parse_endpoint :: "u8 list \<Rightarrow> nat \<Rightarrow> parse_error + endpoint_descriptor" where
  "parse_endpoint buf pos =
     rbind (idx buf (pos + 2)) (\<lambda>a. rbind (idx buf (pos + 3)) (\<lambda>t. rbind (u16le buf (pos + 4)) (\<lambda>m.
     rbind (idx buf (pos + 6)) (\<lambda>i.
       Inr \<lparr>ep_address = a, ep_attributes = t, ep_max_packet_size = m, ep_interval = i\<rparr>))))"

text \<open>\<open>alt_settings.last_mut()\<close>: the endpoint goes to the interface seen last.\<close>

definition push_endpoint :: "endpoint_descriptor \<Rightarrow> alt_setting list \<Rightarrow> parse_error + alt_setting list" where
  "push_endpoint ep alts =
     (if alts = [] then Inl (Bad ''endpoint descriptor outside any interface'')
      else Inr (butlast alts @ [(last alts)\<lparr>as_endpoints := as_endpoints (last alts) @ [ep]\<rparr>]))"

definition config_item :: "u8 list \<Rightarrow> nat \<Rightarrow> nat \<Rightarrow> u8 \<Rightarrow> alt_setting list \<Rightarrow> parse_error + alt_setting list" where
  "config_item buf pos len dtype alts =
     (if dtype = DT_INTERFACE \<and> 9 \<le> len then rbind (parse_interface buf pos) (\<lambda>a. Inr (alts @ [a]))
      else if dtype = DT_ENDPOINT \<and> 7 \<le> len then rbind (parse_endpoint buf pos) (\<lambda>ep. push_endpoint ep alts)
      else Inr alts)"

function parse_config_loop :: "u8 list \<Rightarrow> nat \<Rightarrow> alt_setting list \<Rightarrow> parse_error + alt_setting list" where
  "parse_config_loop buf pos alts =
     (if pos + 2 \<le> length buf then
        let len = unat (buf ! pos); dtype = buf ! (pos + 1) in
        if len < 2 \<or> length buf < pos + len then Inr alts
        else (case config_item buf pos len dtype alts of
                Inl e \<Rightarrow> Inl e
              | Inr alts' \<Rightarrow> parse_config_loop buf (pos + len) alts')
      else Inr alts)"
  by pat_completeness auto
termination
  by (relation "measure (\<lambda>(buf, pos, alts). length buf - pos)") auto

declare parse_config_loop.simps [simp del]

definition parse_config :: "u8 list \<Rightarrow> parse_error + config_descriptor" where
  "parse_config buf =
     rbind (idx buf 4) (\<lambda>n. rbind (idx buf 5) (\<lambda>v. rbind (idx buf 0) (\<lambda>p.
     rbind (parse_config_loop buf (unat p) []) (\<lambda>alts.
       Inr \<lparr>cd_configuration_value = v, cd_num_interfaces = n, cd_alt_settings = alts\<rparr>))))"

text \<open>\<open>&blob[pos..end]\<close> with \<open>pos \<le> end \<le> blob.len()\<close>.\<close>

definition slice :: "'a list \<Rightarrow> nat \<Rightarrow> nat \<Rightarrow> 'a list" where
  "slice b from to = drop from (take to b)"

function parse_loop :: "u8 list \<Rightarrow> nat \<Rightarrow> config_descriptor list \<Rightarrow> parse_error + config_descriptor list" where
  "parse_loop blob pos configs =
     (if pos + 2 \<le> length blob then
        let len = unat (blob ! pos); dtype = blob ! (pos + 1) in
        if len < 2 \<or> length blob < pos + len then Inr configs
        else if dtype \<noteq> DT_CONFIG then parse_loop blob (pos + len) configs
        else if len < 9 then Inl (Bad ''configuration descriptor shorter than 9 bytes'')
        else (case u16le blob (pos + 2) of
                Inl e \<Rightarrow> Inl e
              | Inr t \<Rightarrow>
                  let total = unat t in
                  (case parse_config (slice blob pos (min (pos + total) (length blob))) of
                     Inl e \<Rightarrow> Inl e
                   | Inr c \<Rightarrow>
                       if total < len then Inr (configs @ [c])
                       else parse_loop blob (pos + total) (configs @ [c])))
      else Inr configs)"
  by pat_completeness auto
termination
  by (relation "measure (\<lambda>(blob, pos, configs). length blob - pos)") auto

declare parse_loop.simps [simp del]

definition parse_device :: "u8 list \<Rightarrow> parse_error + device_descriptor" where
  "parse_device blob =
     rbind (u16le blob 2) (\<lambda>usb. rbind (idx blob 4) (\<lambda>c. rbind (idx blob 5) (\<lambda>s.
     rbind (idx blob 6) (\<lambda>p. rbind (idx blob 7) (\<lambda>m. rbind (u16le blob 8) (\<lambda>v.
     rbind (u16le blob 10) (\<lambda>pr. rbind (u16le blob 12) (\<lambda>bcd. rbind (idx blob 17) (\<lambda>n.
       Inr \<lparr>dd_bcd_usb = usb, dd_class = c, dd_sub_class = s, dd_protocol = p,
         dd_max_packet_size0 = m, dd_id_vendor = v, dd_id_product = pr, dd_bcd_device = bcd,
         dd_num_configurations = n\<rparr>)))))))))"

definition parse :: "u8 list \<Rightarrow> parse_error + descriptors" where
  "parse blob =
     (if length blob < DEVICE_DESC_LEN then
        Inl (Bad (''descriptor blob is '' @ show_nat (length blob) @ '' bytes, need at least 18''))
      else if blob ! 1 \<noteq> DT_DEVICE then
        Inl (Bad (''blob does not start with a device descriptor (bDescriptorType = ''
          @ show_nat (unat (blob ! 1)) @ '')''))
      else rbind (parse_device blob) (\<lambda>d.
           rbind (parse_loop blob (max (unat (blob ! 0)) DEVICE_DESC_LEN) []) (\<lambda>cs.
             Inr \<lparr>ds_device = d, ds_configs = cs\<rparr>)))"

section \<open>The parser panics only on a configuration that announces fewer than six bytes\<close>

lemma length_slice [simp]: "to \<le> length b \<Longrightarrow> length (slice b from to) = to - from"
  by (simp add: slice_def)

lemma config_item_safe: "pos + len \<le> length buf \<Longrightarrow> config_item buf pos len dtype alts \<noteq> Inl Panic"
  by (auto simp: config_item_def parse_interface_def parse_endpoint_def push_endpoint_def)

lemma parse_config_loop_safe: "parse_config_loop buf pos alts \<noteq> Inl Panic"
proof (induction buf pos alts rule: parse_config_loop.induct)
  case (1 buf pos alts)
  then show ?case
    by (subst parse_config_loop.simps)
      (auto simp: Let_def not_less config_item_safe split: sum.split)
qed

lemma parse_config_panic: "parse_config buf = Inl Panic \<longleftrightarrow> length buf < 6"
  using parse_config_loop_safe [of buf _ "[]"]
  by (auto simp: parse_config_def rbind_Inl_iff idx_def split: if_splits)

text \<open>The positions the walk visits at a configuration descriptor.\<close>

definition totals_ok :: "u8 list \<Rightarrow> bool" where
  "totals_ok blob \<longleftrightarrow> list_all (\<lambda>pos.
     9 \<le> unat (blob ! pos) \<and> blob ! (pos + 1) = DT_CONFIG
       \<longrightarrow> 6 \<le> unat (of_le16 (blob ! (pos + 2)) (blob ! (pos + 3)))) [18..<length blob - 8]"

lemma parse_loop_safe:
  "totals_ok blob \<Longrightarrow> 18 \<le> pos \<Longrightarrow> parse_loop blob pos configs \<noteq> Inl Panic"
proof (induction blob pos configs rule: parse_loop.induct)
  case (1 blob pos configs)
  let ?len = "unat (blob ! pos)"
  show ?case
  proof (cases "pos + 2 \<le> length blob \<and> \<not> ?len < 2 \<and> \<not> length blob < pos + ?len
      \<and> blob ! (pos + 1) = DT_CONFIG \<and> 9 \<le> ?len")
    case True
    then have t: "6 \<le> unat (of_le16 (blob ! (pos + 2)) (blob ! (pos + 3)))"
      using 1(3,4) by (auto simp: totals_ok_def list_all_iff)
    let ?t = "unat (of_le16 (blob ! (pos + 2)) (blob ! (pos + 3)))"
    have "parse_config (slice blob pos (min (pos + ?t) (length blob))) \<noteq> Inl Panic"
      using True t by (auto simp: parse_config_panic)
    then show ?thesis
      using True 1 t
      by (subst parse_loop.simps) (auto simp: Let_def numeral_eq_Suc split: sum.split)
  next
    case False
    then show ?thesis
      using 1 by (subst parse_loop.simps) (auto simp: Let_def)
  qed
qed

lemma parse_device_ok: "18 \<le> length blob \<Longrightarrow> \<exists>d. parse_device blob = Inr d"
  by (simp add: parse_device_def)

section \<open>Writing descriptors, and reading them back\<close>

text \<open>
  The layout of chapter 9 of the USB specification, as a reference encoder: each interface
  descriptor may be followed by class-specific descriptors (as HID devices have them) before
  its endpoints.
\<close>

definition le16 :: "u16 \<Rightarrow> u8 list" where
  "le16 v = [ucast v, ucast (drop_bit 8 v)]"

lemma of_le16_le16 [simp]: "of_le16 (ucast v) (ucast (drop_bit 8 v)) = v"
  by (simp add: of_le16_def)

datatype item = Intf alt_setting | Endp endpoint_descriptor | Extra u8 "u8 list"

fun item_bytes :: "item \<Rightarrow> u8 list" where
  "item_bytes (Intf a) =
     [9, DT_INTERFACE, as_interface_number a, as_alternate_setting a, of_nat (length (as_endpoints a)),
      as_class a, as_sub_class a, as_protocol a, 0]"
| "item_bytes (Endp e) =
     [7, DT_ENDPOINT, ep_address e, ep_attributes e, ucast (ep_max_packet_size e),
      ucast (drop_bit 8 (ep_max_packet_size e)), ep_interval e]"
| "item_bytes (Extra t p) = of_nat (length p + 2) # t # p"

fun item_ok :: "item \<Rightarrow> bool" where
  "item_ok (Extra t p) \<longleftrightarrow> t \<noteq> DT_INTERFACE \<and> t \<noteq> DT_ENDPOINT \<and> length p \<le> 253"
| "item_ok _ \<longleftrightarrow> True"

fun item_effect :: "item \<Rightarrow> alt_setting list \<Rightarrow> parse_error + alt_setting list" where
  "item_effect (Intf a) alts = Inr (alts @ [a\<lparr>as_endpoints := []\<rparr>])"
| "item_effect (Endp e) alts = push_endpoint e alts"
| "item_effect (Extra t p) alts = Inr alts"

fun items_effect :: "item list \<Rightarrow> alt_setting list \<Rightarrow> parse_error + alt_setting list" where
  "items_effect [] alts = Inr alts"
| "items_effect (i # is) alts = rbind (item_effect i alts) (items_effect is)"

lemma item_bytes_head:
  "item_ok i \<Longrightarrow> unat (item_bytes i ! 0) = length (item_bytes i) \<and> 2 \<le> length (item_bytes i)"
  by (cases i) (auto simp: unat_of_nat unat_word_ariths)

lemma nth_append_offset:
  "(xs @ ys) ! (n + length xs) = ys ! n" "(xs @ ys) ! Suc (Suc (length xs)) = ys ! 2"
  using nth_append_length_plus [of xs ys 2] nth_append_length_plus [of xs ys n]
  by (simp_all add: add.commute)

lemma config_item_bytes:
  "item_ok i \<Longrightarrow> config_item (pre @ item_bytes i @ post) (length pre) (length (item_bytes i))
    (item_bytes i ! Suc 0) alts = item_effect i alts"
  by (cases i; simp; cases "case i of Endp e \<Rightarrow> e | _ \<Rightarrow> undefined")
    (simp_all add: config_item_def parse_interface_def parse_endpoint_def u16le_def
      idx_def nth_append_offset add.commute [of "length pre"])

lemma parse_config_loop_items:
  "list_all item_ok is \<Longrightarrow>
   parse_config_loop (pre @ concat (map item_bytes is)) (length pre) alts = items_effect is alts"
proof (induction "is" arbitrary: pre alts)
  case Nil
  then show ?case by (subst parse_config_loop.simps) simp
next
  case (Cons i "is")
  let ?b = "item_bytes i" and ?post = "concat (map item_bytes is)"
  have i: "item_ok i" using Cons.prems by simp
  note h = item_bytes_head [OF i]
  have "parse_config_loop (pre @ ?b @ ?post) (length pre) alts =
      (case config_item (pre @ ?b @ ?post) (length pre) (length ?b) (?b ! 1) alts of
         Inl e \<Rightarrow> Inl e
       | Inr alts' \<Rightarrow> parse_config_loop (pre @ ?b @ ?post) (length pre + length ?b) alts')"
    using h by (subst parse_config_loop.simps) (auto simp: nth_append Let_def cong: sum.case_cong)
  also have "\<dots> = rbind (item_effect i alts) (items_effect is)"
    using Cons.IH [of "pre @ ?b"] Cons.prems
    by (cases "item_effect i alts") (simp_all add: config_item_bytes [OF i])
  finally show ?case by simp
qed

subsection \<open>Whole configurations\<close>

definition alt_items :: "(alt_setting \<Rightarrow> (u8 \<times> u8 list) list) \<Rightarrow> alt_setting \<Rightarrow> item list" where
  "alt_items x a = Intf a # map (\<lambda>(t, p). Extra t p) (x a) @ map Endp (as_endpoints a)"

definition config_body :: "(alt_setting \<Rightarrow> (u8 \<times> u8 list) list) \<Rightarrow> config_descriptor \<Rightarrow> u8 list" where
  "config_body x c = concat (map item_bytes (concat (map (alt_items x) (cd_alt_settings c))))"

definition config_bytes :: "(alt_setting \<Rightarrow> (u8 \<times> u8 list) list) \<Rightarrow> config_descriptor \<Rightarrow> u8 list" where
  "config_bytes x c =
     [9, DT_CONFIG] @ le16 (of_nat (9 + length (config_body x c)))
       @ [cd_num_interfaces c, cd_configuration_value c, 0, 0xa0, 250] @ config_body x c"

definition device_bytes :: "device_descriptor \<Rightarrow> u8 list" where
  "device_bytes d =
     [18, DT_DEVICE] @ le16 (dd_bcd_usb d) @ [dd_class d, dd_sub_class d, dd_protocol d, dd_max_packet_size0 d]
       @ le16 (dd_id_vendor d) @ le16 (dd_id_product d) @ le16 (dd_bcd_device d)
       @ [1, 2, 0, dd_num_configurations d]"

definition descriptors_bytes :: "(alt_setting \<Rightarrow> (u8 \<times> u8 list) list) \<Rightarrow> descriptors \<Rightarrow> u8 list" where
  "descriptors_bytes x d = device_bytes (ds_device d) @ concat (map (config_bytes x) (ds_configs d))"

definition config_ok :: "(alt_setting \<Rightarrow> (u8 \<times> u8 list) list) \<Rightarrow> config_descriptor \<Rightarrow> bool" where
  "config_ok x c \<longleftrightarrow>
     list_all item_ok (concat (map (alt_items x) (cd_alt_settings c))) \<and> length (config_bytes x c) < 65536"

lemma items_effect_append:
  "items_effect (is @ js) alts = rbind (items_effect is alts) (items_effect js)"
proof (induction "is" arbitrary: alts)
  case (Cons i "is")
  then show ?case by (cases "item_effect i alts") auto
qed simp

lemma items_effect_extras: "items_effect (map (\<lambda>(t, p). Extra t p) xs) alts = Inr alts"
  by (induction xs) auto

lemma items_effect_endpoints:
  "items_effect (map Endp es) (alts @ [a]) = Inr (alts @ [a\<lparr>as_endpoints := as_endpoints a @ es\<rparr>])"
  by (induction es arbitrary: a) (simp_all add: push_endpoint_def)

lemma items_effect_alts:
  "items_effect (concat (map (alt_items x) as)) alts = Inr (alts @ as)"
proof (induction as arbitrary: alts)
  case (Cons a as)
  have "items_effect (alt_items x a) alts = Inr (alts @ [a])"
    by (simp add: alt_items_def items_effect_append items_effect_extras items_effect_endpoints)
  with Cons show ?case by (simp add: items_effect_append)
qed simp

lemma parse_config_bytes:
  assumes "config_ok x c"
  shows "parse_config (config_bytes x c) = Inr c"
proof -
  let ?h = "[9, DT_CONFIG] @ le16 (of_nat (9 + length (config_body x c)))
       @ [cd_num_interfaces c, cd_configuration_value c, 0, 0xa0, 250]"
  have "length ?h = 9" by (simp add: le16_def)
  with parse_config_loop_items [of _ ?h "[]"] assms
  have "parse_config_loop (config_bytes x c) 9 [] = Inr (cd_alt_settings c)"
    by (simp add: config_ok_def config_body_def config_bytes_def items_effect_alts)
  moreover have "6 \<le> length (config_bytes x c)" "config_bytes x c ! 4 = cd_num_interfaces c"
    "config_bytes x c ! 5 = cd_configuration_value c" "config_bytes x c ! 0 = 9"
    by (simp_all add: config_bytes_def le16_def)
  ultimately show ?thesis
    by (cases "config_bytes x c") (simp_all add: parse_config_def idx_def)
qed

lemma parse_loop_configs:
  "list_all (config_ok x) cs \<Longrightarrow>
   parse_loop (pre @ concat (map (config_bytes x) cs)) (length pre) acc = Inr (acc @ cs)"
proof (induction cs arbitrary: pre acc)
  case Nil
  then show ?case by (subst parse_loop.simps) simp
next
  case (Cons c cs)
  let ?b = "config_bytes x c" and ?post = "concat (map (config_bytes x) cs)"
  let ?w = "of_nat (length ?b) :: u16"
  have ok: "config_ok x c" using Cons.prems by simp
  have len: "unat ?w = length ?b"
    using ok by (simp add: config_ok_def unat_of_nat del: of_nat_Suc)
  have l9: "9 \<le> length ?b" "length ?b = 9 + length (config_body x c)"
    by (simp_all add: config_bytes_def le16_def)
  have b: "?b ! 0 = 9" "?b ! 1 = DT_CONFIG" "of_le16 (?b ! 2) (?b ! 3) = ?w"
    unfolding l9(2) by (simp_all add: config_bytes_def le16_def)
  have at: "(pre @ ?b @ ?post) ! (length pre + k) = ?b ! k" if "k < length ?b" for k
    using that by (simp add: nth_append)
  have s: "slice (pre @ ?b @ ?post) (length pre) (length pre + length ?b) = ?b"
    by (simp add: slice_def)
  have hd: "(pre @ ?b @ ?post) ! length pre = 9" "(pre @ ?b @ ?post) ! Suc (length pre) = DT_CONFIG"
    using at [of 0] at [of 1] b order.strict_trans2 [OF _ l9(1), of 0] l9(1) by simp_all
  have t: "u16le (pre @ ?b @ ?post) (length pre + 2) = Inr ?w"
    using at [of 2] at [of 3] b(3) l9(1) by (simp add: numeral_eq_Suc)
  have "parse_loop (pre @ ?b @ ?post) (length pre) acc =
      parse_loop (pre @ ?b @ ?post) (length pre + length ?b) (acc @ [c])"
    using len l9(1) t
    by (subst parse_loop.simps) (simp add: Let_def s parse_config_bytes [OF ok] hd [simplified])
  also have "\<dots> = Inr (acc @ c # cs)"
    using Cons.IH [of "pre @ ?b" "acc @ [c]"] Cons.prems by simp
  finally show ?case by simp
qed

lemma parse_device_bytes: "parse_device (device_bytes d @ bs) = Inr d"
  by (simp add: parse_device_def device_bytes_def le16_def idx_def u16le_def nth_append)

lemma parse_descriptors_bytes:
  assumes "list_all (config_ok x) (ds_configs d)"
  shows "parse (descriptors_bytes x d) = Inr d"
proof -
  let ?b = "descriptors_bytes x d"
  have len: "length (device_bytes (ds_device d)) = 18" by (simp add: device_bytes_def le16_def)
  have hd: "?b ! 0 = 18" "?b ! 1 = DT_DEVICE" "18 \<le> length ?b"
    by (simp_all add: descriptors_bytes_def device_bytes_def le16_def)
  have "parse_loop ?b 18 [] = Inr (ds_configs d)"
    using parse_loop_configs [OF assms, of "device_bytes (ds_device d)" "[]"]
    by (simp add: descriptors_bytes_def len)
  moreover have "parse_device ?b = Inr (ds_device d)"
    by (simp add: descriptors_bytes_def parse_device_bytes)
  ultimately show ?thesis
    using hd by (simp add: parse_def)
qed

section \<open>Interfaces\<close>

lemma set_interface_numbers: "set (interface_numbers c) = as_interface_number ` set (cd_alt_settings c)"
  by (simp add: interface_numbers_def)

lemma sorted_distinct_adj: "sorted xs \<Longrightarrow> distinct_adj xs \<Longrightarrow> sorted_wrt (<) xs"
proof (induction xs)
  case (Cons x xs)
  then have xs: "sorted_wrt (<) xs" by (cases xs) auto
  show ?case
  proof (cases xs)
    case (Cons y ys)
    with Cons.prems have "x < y" by auto
    with xs Cons show ?thesis by (auto intro: less_trans)
  qed simp
qed simp

lemma strict_interface_numbers: "sorted_wrt (<) (interface_numbers c)"
  unfolding interface_numbers_def by (rule sorted_distinct_adj) auto

lemma find_Some_iff_ex: "(\<exists>a. find P xs = Some a) \<longleftrightarrow> (\<exists>x\<in>set xs. P x)"
  by (metis find_None_iff not_Some_eq)

lemma primary_alt_some:
  assumes "n \<in> set (interface_numbers c)"
  obtains a where "primary_alt c n = Some a" "a \<in> set (cd_alt_settings c)" "as_interface_number a = n"
    "(\<exists>b\<in>set (cd_alt_settings c). as_interface_number b = n \<and> as_alternate_setting b = 0)
       \<longrightarrow> as_alternate_setting a = 0"
proof (cases "find (\<lambda>a. as_interface_number a = n \<and> as_alternate_setting a = 0) (cd_alt_settings c)")
  case (Some a)
  with that show ?thesis
    by (auto simp: primary_alt_def find_Some_iff)
next
  case None
  obtain a where "find (\<lambda>a. as_interface_number a = n) (cd_alt_settings c) = Some a"
    using assms find_Some_iff_ex [of "\<lambda>a. as_interface_number a = n" "cd_alt_settings c"]
    by (auto simp: set_interface_numbers)
  moreover from this have "a \<in> set (cd_alt_settings c)" "as_interface_number a = n"
    by (auto simp: find_Some_iff)
  moreover have "as_interface_number b = n \<longrightarrow> as_alternate_setting b \<noteq> 0"
    if "b \<in> set (cd_alt_settings c)" for b
    using None that by (auto simp: find_None_iff)
  ultimately show ?thesis
    using None by (intro that [of a]) (auto simp: primary_alt_def)
qed

lemma primary_alt_numbers:
  assumes "set ns \<subseteq> set (interface_numbers c)"
  shows "map as_interface_number (List.map_filter (primary_alt c) ns) = ns"
  using assms
proof (induction ns)
  case (Cons n ns)
  then obtain a where "primary_alt c n = Some a" "as_interface_number a = n"
    by (auto elim: primary_alt_some)
  with Cons show ?case by (simp add: List.map_filter_def)
qed (simp add: List.map_filter_def)

section \<open>Properties\<close>

text \<open>
  C17. Reading the descriptors of a device from the layout the USB specification gives them
  returns them: every configuration, every alternate setting with its endpoints in order,
  whatever class-specific descriptors stand between an interface and its endpoints.
\<close>

theorem descriptors_roundtrip:
  assumes "list_all (config_ok x) (ds_configs d)"
  shows "parse (descriptors_bytes x d) = Inr d"
  using assms by (rule parse_descriptors_bytes)

definition sample_config :: config_descriptor where
  "sample_config = \<lparr>cd_configuration_value = 1, cd_num_interfaces = 2, cd_alt_settings =
     map (\<lambda>n. \<lparr>as_interface_number = n, as_alternate_setting = 0, as_class = 3, as_sub_class = 0,
        as_protocol = 0, as_endpoints =
          [\<lparr>ep_address = 0x81 + n, ep_attributes = 3, ep_max_packet_size = 64, ep_interval = 1\<rparr>,
           \<lparr>ep_address = 0x01 + n, ep_attributes = 3, ep_max_packet_size = 64, ep_interval = 1\<rparr>]\<rparr>) [0, 1]\<rparr>"

definition sample_descriptors :: descriptors where
  "sample_descriptors = \<lparr>ds_device = \<lparr>dd_bcd_usb = 0x0200, dd_class = 0, dd_sub_class = 0, dd_protocol = 0,
     dd_max_packet_size0 = 64, dd_id_vendor = 0x28de, dd_id_product = 0x1304, dd_bcd_device = 0x0100,
     dd_num_configurations = 1\<rparr>, ds_configs = [sample_config]\<rparr>"

definition hid_extra :: "alt_setting \<Rightarrow> (u8 \<times> u8 list) list" where
  "hid_extra a = [(0x21, [0x11, 1, 0, 1, 0x22, 0x40, 0])]"

lemma sample_configs_ok: "list_all (config_ok hid_extra) (ds_configs sample_descriptors)"
  by (simp add: sample_descriptors_def sample_config_def config_ok_def config_bytes_def
      config_body_def alt_items_def le16_def hid_extra_def)

theorem descriptors_roundtrip_witness:
  "parse (descriptors_bytes hid_extra sample_descriptors) = Inr sample_descriptors"
  using sample_configs_ok by (rule descriptors_roundtrip)


definition truncated_blob :: "u8 list" where
  "truncated_blob = [18, 1, 0, 2, 0, 0, 0, 64, 0xde, 0x28, 4, 0x13, 0, 1, 1, 2, 0, 1,
     9, 2, 34, 0, 1, 1, 0, 0xa0, 250, 7, 5, 0x81]"


text \<open>
  Without that condition it does panic: a configuration descriptor of the full nine bytes
  whose \<open>wTotalLength\<close> is below six is cut to that length before the length is checked, and
  the read of \<open>bNumInterfaces\<close> or \<open>bConfigurationValue\<close> is out of range.
\<close>

theorem parse_short_total_panics:
  assumes "lo < 6"
  shows "parse (device_bytes d @ [9, DT_CONFIG, lo, 0, n, v, 0, 0xa0, 250] @ bs) = Inl Panic"
proof -
  let ?c = "[9, DT_CONFIG, lo, 0, n, v, 0, 0xa0, 250]"
  have len: "length (device_bytes d) = 18" by (simp add: device_bytes_def le16_def)
  have "of_le16 lo 0 = ucast lo" by (simp add: of_le16_def of_be16_def)
  then have "unat (of_le16 lo 0) = unat lo"
    by (simp add: unsigned_ucast_eq take_bit_eq_mod mod_less order.strict_trans [OF u8_bounds(1)])
  then have lo: "unat (of_le16 lo 0) < 6"
    using assms by (simp add: word_less_nat_alt)
  have "u16le (device_bytes d @ ?c @ bs) 20 = Inr (of_le16 lo 0)"
    using len by (simp add: u16le_def idx_def nth_append)
  moreover have "parse_config (slice (device_bytes d @ ?c @ bs) 18 (min (18 + unat (of_le16 lo 0)) k)) = Inl Panic"
    for k
    using lo by (simp add: parse_config_panic slice_def len)
  ultimately have "parse_loop (device_bytes d @ ?c @ bs) 18 [] = Inl Panic"
    using len by (subst parse_loop.simps) (simp add: nth_append Let_def)
  then show ?thesis
    using parse_device_bytes [of d "?c @ bs"]
    by (simp add: parse_def) (simp add: device_bytes_def le16_def)
qed

theorem parse_short_total_panics_witness:
  "parse (device_bytes (ds_device sample_descriptors) @ [9, DT_CONFIG, 0, 0, 1, 1, 0, 0xa0, 250] @ []) = Inl Panic"
  by (rule parse_short_total_panics) simp

text \<open>
  The interfaces that are claimed are exactly the interface numbers of the configuration,
  ascending and without repetition; the list that is advertised has one alternate setting
  for each of them in that order, and it is setting 0 wherever the interface has one.
\<close>

theorem interfaces_complete:
  "sorted_wrt (<) (interface_numbers c)
   \<and> set (interface_numbers c) = as_interface_number ` set (cd_alt_settings c)
   \<and> map as_interface_number (primary_alt_settings c) = interface_numbers c
   \<and> set (primary_alt_settings c) \<subseteq> {a \<in> set (cd_alt_settings c).
       as_alternate_setting a = 0 \<or> {b \<in> set (cd_alt_settings c).
         as_interface_number b = as_interface_number a \<and> as_alternate_setting b = 0} = {}}"
proof (intro conjI)
  show "map as_interface_number (primary_alt_settings c) = interface_numbers c"
    by (simp add: primary_alt_settings_def primary_alt_numbers)
  show "set (primary_alt_settings c) \<subseteq> {a \<in> set (cd_alt_settings c).
       as_alternate_setting a = 0 \<or> {b \<in> set (cd_alt_settings c).
         as_interface_number b = as_interface_number a \<and> as_alternate_setting b = 0} = {}}"
  proof
    fix a assume "a \<in> set (primary_alt_settings c)"
    then obtain n where n: "n \<in> set (interface_numbers c)" "primary_alt c n = Some a"
      by (auto simp: primary_alt_settings_def List.map_filter_def)
    from n(1) obtain a' where "primary_alt c n = Some a'" "a' \<in> set (cd_alt_settings c)"
      "as_interface_number a' = n"
      "(\<exists>b\<in>set (cd_alt_settings c). as_interface_number b = n \<and> as_alternate_setting b = 0)
         \<longrightarrow> as_alternate_setting a' = 0"
      by (rule primary_alt_some)
    with n(2) show "a \<in> {a \<in> set (cd_alt_settings c).
       as_alternate_setting a = 0 \<or> {b \<in> set (cd_alt_settings c).
         as_interface_number b = as_interface_number a \<and> as_alternate_setting b = 0} = {}}"
      by auto
  qed
qed (simp_all add: strict_interface_numbers set_interface_numbers)

end
