(* ===== verification/Device_Filter.thy ===== *)
theory Device_Filter
  imports Rust_Str
begin

text \<open>
  \<^verbatim>\<open>usb-backend/src/filter.rs\<close>: the allow-list of vendor and product patterns that
  decides which devices are exported, its parser and its printer.
\<close>

record pattern =
  pat_vendor :: "u16 option"
  pat_product :: "u16 option"

definition pattern_matches :: "pattern \<Rightarrow> u16 \<Rightarrow> u16 \<Rightarrow> bool" where
  "pattern_matches p vid pid \<longleftrightarrow>
     (case pat_vendor p of None \<Rightarrow> True | Some v \<Rightarrow> v = vid)
     \<and> (case pat_product p of None \<Rightarrow> True | Some q \<Rightarrow> q = pid)"

definition show_part :: "u16 option \<Rightarrow> string" where
  "show_part o' = (case o' of Some v \<Rightarrow> pad_left 4 (show_loop 16 (unat v)) | None \<Rightarrow> ''*'')"

definition pattern_to_string :: "pattern \<Rightarrow> string" where
  "pattern_to_string p = show_part (pat_vendor p) @ '':'' @ show_part (pat_product p)"

definition parse_part :: "string \<Rightarrow> string \<Rightarrow> string + u16 option" where
  "parse_part part whole =
     (let t = trim part in
      if t = ''*'' \<or> t = [] then Inr None
      else case from_str_radix 0xffff 16 t of
             Some v \<Rightarrow> Inr (Some (of_nat v))
           | None \<Rightarrow> Inl (quoted t @ '' in '' @ quoted whole @ '' is not a 16-bit hex value''))"

definition pattern_from_str :: "string \<Rightarrow> string + pattern" where
  "pattern_from_str s0 =
     (let s = trim s0 in
      case split_once (CHR '':'') s of
        None \<Rightarrow> Inl (quoted s @ '' is not a vid:pid pattern'')
      | Some (v, p) \<Rightarrow>
          rbind (parse_part v s) (\<lambda>vendor. rbind (parse_part p s) (\<lambda>product.
            Inr \<lparr>pat_vendor = vendor, pat_product = product\<rparr>)))"

definition VALVE_VID :: u16 where "VALVE_VID = 0x28de"

record device_filter =
  df_patterns :: "pattern list"

definition filter_default :: device_filter where
  "filter_default = \<lparr>df_patterns = [\<lparr>pat_vendor = Some VALVE_VID, pat_product = None\<rparr>]\<rparr>"

definition filter_new :: "pattern list \<Rightarrow> device_filter" where
  "filter_new ps = \<lparr>df_patterns = ps\<rparr>"

definition filter_matches :: "device_filter \<Rightarrow> u16 \<Rightarrow> u16 \<Rightarrow> bool" where
  "filter_matches f vid pid \<longleftrightarrow> list_ex (\<lambda>p. pattern_matches p vid pid) (df_patterns f)"

definition filter_is_empty :: "device_filter \<Rightarrow> bool" where
  "filter_is_empty f \<longleftrightarrow> df_patterns f = []"

text \<open>\<open>collect::<Result<Vec<_>, _>>()\<close>: the first error, or all values.\<close>

fun collect_results :: "('e + 'a) list \<Rightarrow> 'e + 'a list" where
  "collect_results [] = Inr []"
| "collect_results (r # rs) = rbind r (\<lambda>a. rbind (collect_results rs) (\<lambda>as. Inr (a # as)))"

definition filter_from_str :: "string \<Rightarrow> string + device_filter" where
  "filter_from_str s =
     rbind (collect_results (map pattern_from_str
       (filter (\<lambda>p. p \<noteq> []) (map trim (split_on (\<lambda>c. c = CHR '','') s)))))
       (\<lambda>ps. Inr \<lparr>df_patterns = ps\<rparr>)"

fun join :: "string \<Rightarrow> string list \<Rightarrow> string" where
  "join sep [] = []"
| "join sep [s] = s"
| "join sep (s # ss) = s @ sep @ join sep ss"

definition filter_to_string :: "device_filter \<Rightarrow> string" where
  "filter_to_string f = join '','' (map pattern_to_string (df_patterns f))"

section \<open>Printing and parsing\<close>

definition plain :: "char \<Rightarrow> bool" where
  "plain c \<longleftrightarrow> graphic c \<and> c \<noteq> CHR '','' \<and> c \<noteq> CHR '':''"

lemma of_digit_char: "d < 16 \<Longrightarrow> (of_char (digit_char d) :: nat) = (if d < 10 then d + 48 else d + 87)"
  unfolding digit_char_def by auto

lemma digit_char_plain:
  assumes "d < 16"
  shows "plain (digit_char d) \<and> digit_char d \<noteq> CHR ''*''"
proof -
  have "digit_char d \<noteq> c" if "(of_char c :: nat) < 48 \<or> 57 < (of_char c :: nat) \<and> (of_char c :: nat) < 97" for c
    using of_digit_char [OF assms] that by (auto split: if_splits)
  then show ?thesis
    using digit_char_graphic [OF assms] by (simp add: plain_def)
qed

lemma show_loop_plain: "list_all (\<lambda>c. plain c \<and> c \<noteq> CHR ''*'') (show_loop 16 n)"
proof (induction n rule: less_induct)
  case (less n)
  show ?case
  proof (cases "n < 16")
    case True
    then show ?thesis by (subst show_loop.simps) (simp add: digit_char_plain)
  next
    case False
    then have "n div 16 < n" by simp
    from less [OF this] False show ?thesis
      by (subst show_loop.simps) (simp add: digit_char_plain)
  qed
qed

lemma pad_left_plain: "list_all (\<lambda>c. plain c \<and> c \<noteq> CHR ''*'') (pad_left w (show_loop 16 n))"
proof -
  have "plain (CHR ''0'')" by (simp add: plain_def graphic_def)
  then have "list_all (\<lambda>c. plain c \<and> c \<noteq> CHR ''*'') (replicate k (CHR ''0''))" for k
    by (induction k) simp_all
  then show ?thesis
    using show_loop_plain [of n] by (simp add: pad_left_def)
qed

lemma show_part_plain: "list_all plain (show_part v)" "show_part v \<noteq> []"
proof -
  have "plain (CHR ''*'')" by (simp add: plain_def graphic_def)
  then show "list_all plain (show_part v)"
    using pad_left_plain [of 4] by (auto simp: show_part_def list_all_iff split: option.split)
  show "show_part v \<noteq> []" by (auto simp: show_part_def pad_left_def split: option.split)
qed

lemma plain_trim: "list_all plain s \<Longrightarrow> trim s = s"
  by (rule trim_graphic) (auto simp: list_all_iff plain_def)

lemma u16_bound: "unat (v :: u16) \<le> 0xffff"
  using unsigned_less [of v, where 'a = nat] by simp

lemma parse_part_show: "parse_part (show_part v) w = Inr v"
proof (cases v)
  case None
  then show ?thesis
    using plain_trim [OF show_part_plain(1), of None] by (simp add: parse_part_def show_part_def)
next
  case (Some x)
  let ?s = "pad_left 4 (show_loop 16 (unat x))"
  have "?s \<noteq> ''*''" using pad_left_plain [of 4 "unat x"] by auto
  moreover have "trim ?s = ?s" "?s \<noteq> []"
    using plain_trim [OF show_part_plain(1), of v] show_part_plain(2) [of v]
    by (simp_all add: Some show_part_def)
  moreover have "from_str_radix 0xffff 16 ?s = Some (unat x)"
    by (rule from_str_radix_show) (simp_all add: u16_bound)
  ultimately show ?thesis
    by (simp add: parse_part_def Some show_part_def)
qed

lemma pattern_string_chars:
  "list_all (\<lambda>c. graphic c \<and> c \<noteq> CHR '','') (pattern_to_string p)" "pattern_to_string p \<noteq> []"
proof -
  have "graphic (CHR '':'')" by (simp add: graphic_def)
  then show "list_all (\<lambda>c. graphic c \<and> c \<noteq> CHR '','') (pattern_to_string p)"
    using show_part_plain(1) by (auto simp: pattern_to_string_def list_all_iff plain_def)
  show "pattern_to_string p \<noteq> []" by (simp add: pattern_to_string_def)
qed

lemma trim_pattern_string: "trim (pattern_to_string p) = pattern_to_string p"
  by (rule trim_graphic) (use pattern_string_chars(1) in \<open>auto simp: list_all_iff\<close>)

lemma pattern_from_to: "pattern_from_str (pattern_to_string p) = Inr p"
proof -
  have "CHR '':'' \<notin> set (show_part (pat_vendor p))"
    using show_part_plain(1) [of "pat_vendor p"] by (auto simp: list_all_iff plain_def)
  then show ?thesis
    using split_once_append [of "CHR '':''" "show_part (pat_vendor p)" "show_part (pat_product p)"]
    by (simp add: pattern_from_str_def trim_pattern_string)
      (simp add: pattern_to_string_def parse_part_show)
qed

lemma split_on_none: "list_all (\<lambda>c. \<not> p c) s \<Longrightarrow> split_on p s = [s]"
  by (induction s) auto

lemma split_on_append: "list_all (\<lambda>c. \<not> p c) s \<Longrightarrow> p c \<Longrightarrow> split_on p (s @ c # t) = s # split_on p t"
  by (induction s) auto

lemma split_on_join:
  assumes "ss \<noteq> []" "list_all (list_all (\<lambda>c. c \<noteq> x)) ss"
  shows "split_on (\<lambda>c. c = x) (join [x] ss) = ss"
  using assms
proof (induction "[x]" ss rule: join.induct)
  case (2 s)
  then show ?case by (simp add: split_on_none)
next
  case (3 s s' ss)
  then show ?case by (simp add: split_on_append)
qed simp

lemma collect_results_Inr:
  "collect_results (map (\<lambda>a. Inr (f a) :: 'e + 'b) as) = Inr (map f as)"
  by (induction as) auto

section \<open>Properties\<close>

text \<open>
  Printing an allow-list and parsing the text gives the same allow-list, wildcards and
  leading zeros included, and an empty text gives the list that matches nothing.
\<close>

theorem filter_roundtrip:
  "filter_from_str (filter_to_string f) = Inr f
   \<and> filter_from_str [] = Inr \<lparr>df_patterns = []\<rparr>
   \<and> filter_matches \<lparr>df_patterns = []\<rparr> vid pid = False"
proof (intro conjI)
  let ?ss = "map pattern_to_string (df_patterns f)"
  show empty: "filter_from_str [] = Inr \<lparr>df_patterns = []\<rparr>"
    by (simp add: filter_from_str_def trim_def)
  show "filter_from_str (filter_to_string f) = Inr f"
  proof (cases "df_patterns f = []")
    case True
    then show ?thesis using empty by (cases f) (simp add: filter_to_string_def)
  next
    case False
    then have "split_on (\<lambda>c. c = CHR '','') (filter_to_string f) = ?ss"
      unfolding filter_to_string_def using pattern_string_chars(1)
      by (intro split_on_join) (auto simp: list_all_iff)
    moreover have "filter (\<lambda>p. p \<noteq> []) (map trim ?ss) = ?ss"
      by (simp add: comp_def trim_pattern_string pattern_string_chars(2) filter_map)
    ultimately show ?thesis
      by (cases f) (simp add: filter_from_str_def comp_def pattern_from_to
          collect_results_Inr [where f = "\<lambda>p. p", simplified])
  qed
qed (simp add: filter_matches_def)

end
