(* ===== verification/Backend.thy ===== *)
theory Backend
  imports Descriptors Device_Filter "HOL-Library.Product_Lexorder"
begin

text \<open>
  \<^verbatim>\<open>usb-backend/src/lib.rs\<close> (summaries, requests and completions) and
  \<^verbatim>\<open>usb-backend/src/enumerate.rs\<close> (finding devices in sysfs).

  The file system is not part of the program: it is the record \<open>fs\<close> of answers the
  standard library's calls give, passed to every definition that reads it. Names and
  file contents arrive as the strings the code sees, after its lossy conversions. Where an
  error message prints a name with \<open>{:?}\<close> only the fixed part of the message is modelled.
\<close>

section \<open>Summaries and requests\<close>

record interface_summary =
  is_number :: u8
  is_class :: u8
  is_sub_class :: u8
  is_protocol :: u8

definition list_from :: "config_descriptor \<Rightarrow> interface_summary list" where
  "list_from c = map (\<lambda>a. \<lparr>is_number = as_interface_number a, is_class = as_class a,
     is_sub_class = as_sub_class a, is_protocol = as_protocol a\<rparr>) (primary_alt_settings c)"

record device_summary =
  sm_busnum :: u32
  sm_devnum :: u32
  sm_busid :: string
  sm_sys_path :: string
  sm_node_path :: string
  sm_speed :: speed
  sm_device :: device_descriptor
  sm_config_value :: u8
  sm_interfaces :: "interface_summary list"

definition vid_pid :: "device_summary \<Rightarrow> u16 \<times> u16" where
  "vid_pid s = (dd_id_vendor (sm_device s), dd_id_product (sm_device s))"

text \<open>\<open>self.interfaces.len() as u8\<close> keeps the low 8 bits.\<close>

definition to_usbip :: "device_summary \<Rightarrow> usb_device" where
  "to_usbip s =
     \<lparr>ud_path = sm_sys_path s, ud_busid = sm_busid s, ud_busnum = sm_busnum s,
      ud_devnum = sm_devnum s, ud_speed = speed_as_raw (sm_speed s),
      ud_id_vendor = dd_id_vendor (sm_device s), ud_id_product = dd_id_product (sm_device s),
      ud_bcd_device = dd_bcd_device (sm_device s), ud_class = dd_class (sm_device s),
      ud_sub_class = dd_sub_class (sm_device s), ud_protocol = dd_protocol (sm_device s),
      ud_configuration_value = sm_config_value s,
      ud_num_configurations = dd_num_configurations (sm_device s),
      ud_num_interfaces = of_nat (length (sm_interfaces s)),
      ud_interfaces = map (\<lambda>i. \<lparr>ui_class = is_class i, ui_subclass = is_sub_class i,
        ui_protocol = is_protocol i\<rparr>) (sm_interfaces s)\<rparr>"

record urb_request =
  rq_seqnum :: u32
  rq_ep :: u8
  rq_dir :: direction
  rq_transfer_flags :: u32
  rq_setup :: "u8 list"
  rq_buffer_length :: nat
  rq_data :: "u8 list"

text \<open>A status is an \<open>i32\<close>; a length a \<open>usize\<close>.\<close>

record urb_completion =
  uc_seqnum :: u32
  uc_status :: int
  uc_actual_length :: nat
  uc_data :: "u8 list"
  uc_unlinked :: bool

datatype submit_error = Urb int | Handled int | Fatal io_error

fun submit_error_text :: "submit_error \<Rightarrow> string" where
  "submit_error_text (Urb e) = ''URB rejected with errno '' @ show_int (- e)"
| "submit_error_text (Handled e) =
     (if e = 0 then ''handled directly'' else ''handled directly, errno '' @ show_int (- e))"
| "submit_error_text (Fatal e) = io_error_text e"

record wake =
  wk_ready :: bool
  wk_gone :: bool

section \<open>Names and paths\<close>

definition USB_DEV_DIR :: string where "USB_DEV_DIR = ''/dev/bus/usb''"
definition SYSFS_USB_DEVICES :: string where "SYSFS_USB_DEVICES = ''/sys/bus/usb/devices''"

definition node_path :: "u32 \<Rightarrow> u32 \<Rightarrow> string" where
  "node_path busnum devnum =
     USB_DEV_DIR @ ''/'' @ pad_left 3 (show_nat (unat busnum)) @ ''/'' @ pad_left 3 (show_nat (unat devnum))"

text \<open>
  \<open>std::path::Path\<close>: the components of a path (the root is the component \<open>/\<close>), its
  \<open>file_name\<close> and its \<open>parent\<close>, on the components.
\<close>

definition components :: "string \<Rightarrow> string list" where
  "components p =
     (let ps = split_on (\<lambda>c. c = CHR ''/'') p;
          keep = filter (\<lambda>c. c \<noteq> [] \<and> c \<noteq> ''.'')
      in if starts_with p ''/'' then ''/'' # keep ps
         else if hd ps = ''.'' then ''.'' # keep (tl ps) else keep ps)"

definition file_name :: "string list \<Rightarrow> string option" where
  "file_name cs = (if cs = [] \<or> last cs \<in> {''/'', ''.'', ''..''} then None else Some (last cs))"

definition parent :: "string list \<Rightarrow> string list option" where
  "parent cs = (if cs = [] \<or> last cs = ''/'' then None else Some (butlast cs))"

definition parse_u32 :: "string \<Rightarrow> u32 option" where
  "parse_u32 s = map_option of_nat (parse_unsigned 0xffffffff s)"

definition split_node_path :: "string \<Rightarrow> (u32 \<times> u32) option" where
  "split_node_path p =
     (let cs = components p in
      Option.bind (Option.bind (file_name cs) parse_u32) (\<lambda>devnum.
      Option.bind (Option.bind (Option.bind (parent cs) file_name) parse_u32) (\<lambda>busnum.
        Some (busnum, devnum))))"

definition ascii_alphanumeric :: "char \<Rightarrow> bool" where
  "ascii_alphanumeric c \<longleftrightarrow>
     (let n = (of_char c :: nat) in
      48 \<le> n \<and> n \<le> 57 \<or> 65 \<le> n \<and> n \<le> 90 \<or> 97 \<le> n \<and> n \<le> 122)"

fun contains_dotdot :: "string \<Rightarrow> bool" where
  "contains_dotdot (a # b # s) \<longleftrightarrow> a = CHR ''.'' \<and> b = CHR ''.'' \<or> contains_dotdot (b # s)"
| "contains_dotdot _ \<longleftrightarrow> False"

definition is_valid_busid :: "string \<Rightarrow> bool" where
  "is_valid_busid b \<longleftrightarrow>
     b \<noteq> [] \<and> length b \<le> 63
     \<and> list_all (\<lambda>c. ascii_alphanumeric c \<or> c = CHR ''-'' \<or> c = CHR ''.'' \<or> c = CHR '':'') b
     \<and> \<not> contains_dotdot b"

section \<open>sysfs\<close>

record fs =
  fs_read_to_string :: "string \<Rightarrow> string option"
  fs_read :: "string \<Rightarrow> io_error + u8 list"
  fs_exists :: "string \<Rightarrow> bool"
  fs_read_dir :: "string \<Rightarrow> io_error + string option list"
  fs_read_link :: "string \<Rightarrow> string option"

definition sys_path :: "fs \<Rightarrow> string \<Rightarrow> string option" where
  "sys_path f busid =
     (if \<not> is_valid_busid busid then None
      else let p = SYSFS_USB_DEVICES @ ''/'' @ busid in if fs_exists f p then Some p else None)"

definition sysfs_attr :: "fs \<Rightarrow> string \<Rightarrow> string \<Rightarrow> string option" where
  "sysfs_attr f busid attr =
     (if \<not> is_valid_busid busid then None
      else map_option trim (fs_read_to_string f (SYSFS_USB_DEVICES @ ''/'' @ busid @ ''/'' @ attr)))"

definition parse_u8 :: "string \<Rightarrow> u8 option" where
  "parse_u8 s = map_option of_nat (parse_unsigned 0xff s)"

definition sysfs_config_value :: "fs \<Rightarrow> string \<Rightarrow> u8 option" where
  "sysfs_config_value f busid = Option.bind (sysfs_attr f busid ''bConfigurationValue'') parse_u8"

definition sysfs_speed :: "fs \<Rightarrow> string \<Rightarrow> speed option" where
  "sysfs_speed f busid = map_option speed_from_sysfs (sysfs_attr f busid ''speed'')"

fun busid_search :: "fs \<Rightarrow> u32 \<Rightarrow> u32 \<Rightarrow> string option list \<Rightarrow> string option" where
  "busid_search f busnum devnum [] = None"
| "busid_search f busnum devnum (None # es) = None"
| "busid_search f busnum devnum (Some name # es) =
     (if CHR '':'' \<in> set name then busid_search f busnum devnum es
      else if Option.bind (sysfs_attr f name ''busnum'') parse_u32 = Some busnum
              \<and> Option.bind (sysfs_attr f name ''devnum'') parse_u32 = Some devnum
      then Some name
      else busid_search f busnum devnum es)"

definition busid_for :: "fs \<Rightarrow> u32 \<Rightarrow> u32 \<Rightarrow> string option" where
  "busid_for f busnum devnum =
     (case fs_read_dir f SYSFS_USB_DEVICES of
        Inl e \<Rightarrow> None
      | Inr es \<Rightarrow> busid_search f busnum devnum es)"

definition numbers_for_busid :: "fs \<Rightarrow> string \<Rightarrow> (u32 \<times> u32) option" where
  "numbers_for_busid f busid =
     Option.bind (Option.bind (sysfs_attr f busid ''busnum'') parse_u32) (\<lambda>b.
     Option.bind (Option.bind (sysfs_attr f busid ''devnum'') parse_u32) (\<lambda>d. Some (b, d)))"

definition numbers_for_fd :: "fs \<Rightarrow> int \<Rightarrow> (u32 \<times> u32) option" where
  "numbers_for_fd f fd =
     Option.bind (fs_read_link f (''/proc/self/fd/''
       @ (if fd < 0 then ''-'' else []) @ show_nat (nat \<bar>fd\<bar>))) split_node_path"

text \<open>The parser's errors as the callers see them; a panic ends the thread.\<close>

datatype enum_error = Failed io_error | Panicked

fun of_parse :: "parse_error + 'a \<Rightarrow> enum_error + 'a" where
  "of_parse (Inl (Bad m)) = Inl (Failed (Io InvalidData m))"
| "of_parse (Inl Panic) = Inl Panicked"
| "of_parse (Inr a) = Inr a"

definition summarize :: "fs \<Rightarrow> descriptors \<Rightarrow> u8 \<Rightarrow> u32 \<Rightarrow> u32 \<Rightarrow> string \<Rightarrow> enum_error + device_summary" where
  "summarize f desc config_value busnum devnum busid =
     (case config desc config_value of
        None \<Rightarrow> Inl (Failed (Io InvalidData (''active configuration '' @ show_nat (unat config_value)
          @ '' is not among the device's descriptors'')))
      | Some c \<Rightarrow>
          let node = node_path busnum devnum in
          Inr \<lparr>sm_busnum = busnum, sm_devnum = devnum, sm_busid = busid,
            sm_sys_path = (case sys_path f busid of Some p \<Rightarrow> p | None \<Rightarrow> node),
            sm_node_path = node, sm_speed = Unknown, sm_device = ds_device desc,
            sm_config_value = config_value, sm_interfaces = list_from c\<rparr>)"

definition choose_config :: "u8 option \<Rightarrow> descriptors \<Rightarrow> u8" where
  "choose_config v desc =
     (case v of
        Some c \<Rightarrow> if config desc c \<noteq> None then c
          else (case ds_configs desc of [] \<Rightarrow> 1 | k # _ \<Rightarrow> cd_configuration_value k)
      | None \<Rightarrow> (case ds_configs desc of [] \<Rightarrow> 1 | k # _ \<Rightarrow> cd_configuration_value k))"

definition summary_from_sysfs :: "fs \<Rightarrow> string \<Rightarrow> enum_error + device_summary" where
  "summary_from_sysfs f busid =
     (if \<not> is_valid_busid busid then
        Inl (Failed (Io InvalidInput ''is not a usable sysfs bus id''))
      else case fs_read f (SYSFS_USB_DEVICES @ ''/'' @ busid @ ''/descriptors'') of
        Inl e \<Rightarrow> Inl (Failed e)
      | Inr blob \<Rightarrow>
          rbind (of_parse (parse blob)) (\<lambda>desc.
            case numbers_for_busid f busid of
              None \<Rightarrow> Inl (Failed (Io NotFound (busid @ '' has no busnum/devnum in sysfs'')))
            | Some (busnum, devnum) \<Rightarrow>
                rbind (summarize f desc (choose_config (sysfs_config_value f busid) desc) busnum devnum busid)
                  (\<lambda>s. Inr (s\<lparr>sm_speed := (case sysfs_speed f busid of Some v \<Rightarrow> v | None \<Rightarrow> Unknown)\<rparr>))))"

text \<open>\<open>dir.flatten()\<close> skips entries that failed; a device that fails is skipped too.\<close>

fun list_entries :: "fs \<Rightarrow> string option list \<Rightarrow> enum_error + device_summary list" where
  "list_entries f [] = Inr []"
| "list_entries f (None # es) = list_entries f es"
| "list_entries f (Some name # es) =
     (if CHR '':'' \<in> set name \<or> starts_with name ''usb'' then list_entries f es
      else case summary_from_sysfs f name of
             Inl Panicked \<Rightarrow> Inl Panicked
           | Inl (Failed e) \<Rightarrow> list_entries f es
           | Inr s \<Rightarrow> rbind (list_entries f es) (\<lambda>ss. Inr (s # ss)))"

definition list_all_devices :: "fs \<Rightarrow> enum_error + device_summary list" where
  "list_all_devices f =
     (case fs_read_dir f SYSFS_USB_DEVICES of
        Inl e \<Rightarrow> Inl (Failed (if io_error_kind e = NotFound then
            Io NotFound (SYSFS_USB_DEVICES @ '' is missing; is this a Linux host with usbcore loaded?'')
          else e))
      | Inr es \<Rightarrow> rbind (list_entries f es) (\<lambda>ss.
          Inr (sort_key (\<lambda>d. (sm_busnum d, sm_devnum d)) ss)))"

definition list_devices :: "fs \<Rightarrow> device_filter \<Rightarrow> enum_error + device_summary list" where
  "list_devices f flt =
     rbind (list_all_devices f) (\<lambda>ss.
       Inr (filter (\<lambda>d. filter_matches flt (fst (vid_pid d)) (snd (vid_pid d))) ss))"

section \<open>Paths\<close>

lemma show_nat_parse: "n \<le> bound \<Longrightarrow> parse_unsigned bound (pad_left w (show_nat n)) = Some n"
  by (simp add: parse_unsigned_def show_nat_def from_str_radix_show)

lemma u32_bound: "unat (v :: u32) \<le> 0xffffffff"
  using unsigned_less [of v, where 'a = nat] by simp

lemma parse_u32_show: "parse_u32 (pad_left w (show_nat (unat v))) = Some v"
  by (simp add: parse_u32_def show_nat_parse u32_bound)

lemma split_on_component:
  "CHR ''/'' \<notin> set s \<Longrightarrow> split_on (\<lambda>c. c = CHR ''/'') (s @ CHR ''/'' # t) = s # split_on (\<lambda>c. c = CHR ''/'') t"
  by (rule split_on_append) (auto simp: list_all_iff)

lemma split_on_single: "CHR ''/'' \<notin> set s \<Longrightarrow> split_on (\<lambda>c. c = CHR ''/'') s = [s]"
  by (rule split_on_none) (auto simp: list_all_iff)

lemma digit_char_no_sep: "d < 10 \<Longrightarrow> digit_char d \<noteq> CHR ''/'' \<and> digit_char d \<noteq> CHR ''.''"
  using of_digit_char [of d] by auto

lemma show_nat_no_sep: "list_all (\<lambda>c. c \<noteq> CHR ''/'' \<and> c \<noteq> CHR ''.'') (show_nat n)"
  unfolding show_nat_def
proof (induction n rule: less_induct)
  case (less n)
  show ?case
  proof (cases "n < 10")
    case True
    then show ?thesis by (subst show_loop.simps) (simp add: digit_char_no_sep)
  next
    case False
    then have "n div 10 < n" by simp
    from less [OF this] False show ?thesis
      by (subst show_loop.simps) (simp add: digit_char_no_sep)
  qed
qed

lemma plain_component:
  assumes "list_all (\<lambda>c. c \<noteq> CHR ''/'' \<and> c \<noteq> CHR ''.'') s"
  shows "CHR ''/'' \<notin> set s \<and> s \<noteq> ''.'' \<and> s \<noteq> ''..'' \<and> s \<noteq> ''/''"
proof -
  have "CHR ''/'' \<notin> set s" "CHR ''.'' \<notin> set s" using assms by (induction s) (simp_all, metis+)
  then show ?thesis by (cases s) (simp_all, metis)
qed

lemma number_component:
  "CHR ''/'' \<notin> set (pad_left 3 (show_nat n)) \<and> pad_left 3 (show_nat n) \<noteq> ''.''
   \<and> pad_left 3 (show_nat n) \<noteq> ''..'' \<and> pad_left 3 (show_nat n) \<noteq> ''/'' \<and> pad_left 3 (show_nat n) \<noteq> []"
proof -
  let ?s = "pad_left 3 (show_nat n)"
  have "list_all (\<lambda>c. c \<noteq> CHR ''/'' \<and> c \<noteq> CHR ''.'') (replicate k (CHR ''0''))" for k
    by (induction k) simp_all
  then have "list_all (\<lambda>c. c \<noteq> CHR ''/'' \<and> c \<noteq> CHR ''.'') ?s"
    using show_nat_no_sep by (simp add: pad_left_def)
  from plain_component [OF this] show ?thesis
    by (simp add: pad_left_def show_nat_def)
qed

lemma components_node_path:
  "components (node_path b d) =
     [''/'', ''dev'', ''bus'', ''usb'', pad_left 3 (show_nat (unat b)), pad_left 3 (show_nat (unat d))]"
  using number_component [of "unat b"] number_component [of "unat d"]
  by (simp add: components_def node_path_def USB_DEV_DIR_def starts_with_def split_on_component
      split_on_single)

text \<open>The bytes a bus id may have keep it inside one component.\<close>

lemma valid_busid_chars: "is_valid_busid b \<Longrightarrow> CHR ''/'' \<notin> set b \<and> b \<noteq> [] \<and> b \<noteq> ''..''"
  by (auto simp: is_valid_busid_def list_all_iff ascii_alphanumeric_def)

section \<open>Listing\<close>

lemma list_entries_names:
  "list_entries f es = Inr ss \<Longrightarrow> s \<in> set ss \<Longrightarrow>
     \<exists>name. Some name \<in> set es \<and> summary_from_sysfs f name = Inr s
       \<and> CHR '':'' \<notin> set name \<and> \<not> starts_with name ''usb''"
  by (induction f es arbitrary: ss rule: list_entries.induct)
    (fastforce simp: rbind_Inr_iff split: if_splits sum.splits enum_error.splits)+

lemma summarize_fields:
  "summarize f desc v b d busid = Inr s \<Longrightarrow> sm_busid s = busid \<and> (\<exists>c. sm_interfaces s = list_from c)"
  by (auto simp: summarize_def Let_def split: option.split_asm)

lemma summary_fields:
  assumes "summary_from_sysfs f name = Inr s"
  shows "is_valid_busid name \<and> sm_busid s = name \<and> (\<exists>c. sm_interfaces s = list_from c)"
proof -
  have "is_valid_busid name"
    using assms by (cases "is_valid_busid name") (simp_all add: summary_from_sysfs_def)
  with assms obtain desc b d u where "summarize f desc (choose_config (sysfs_config_value f name) desc) b d name = Inr u"
    "s = u\<lparr>sm_speed := (case sysfs_speed f name of Some v \<Rightarrow> v | None \<Rightarrow> Unknown)\<rparr>"
    by (auto simp: summary_from_sysfs_def rbind_Inr_iff split: sum.split_asm option.split_asm prod.split_asm)
  with \<open>is_valid_busid name\<close> show ?thesis by (auto dest: summarize_fields)
qed

lemma length_list_from: "length (list_from c) \<le> 256"
proof -
  have "distinct (interface_numbers c)"
    using strict_interface_numbers by (simp add: strict_sorted_iff)
  then have "length (interface_numbers c) = card (set (interface_numbers c))"
    by (simp add: distinct_card)
  also have "\<dots> \<le> card (UNIV :: u8 set)" by (rule card_mono) simp_all
  finally have "length (interface_numbers c) \<le> 256" by (simp add: card_word)
  moreover have "length (list_from c) = length (interface_numbers c)"
    using primary_alt_numbers [of "interface_numbers c" c]
    by (simp add: list_from_def primary_alt_settings_def flip: length_map [of as_interface_number])
  ultimately show ?thesis by simp
qed

lemma to_usbip_interfaces: "length (sm_interfaces s) < 256 \<Longrightarrow> interfaces_ok (to_usbip s)"
  by (simp add: interfaces_ok_def to_usbip_def unat_of_nat)

section \<open>Properties\<close>

text \<open>
  The bus and device numbers come back out of the path of the device node built from
  them, also beyond three digits.
\<close>

theorem node_path_roundtrip: "split_node_path (node_path b d) = Some (b, d)"
  using number_component [of "unat b"] number_component [of "unat d"]
  by (simp add: split_node_path_def components_node_path file_name_def parent_def parse_u32_show)


text \<open>
  C32. What is exported is what the allow-list admits: the list is exactly the admitted part of
  the devices found, in the order of bus and device number, and every entry has a valid bus
  id that names neither an interface nor a root hub and at most 256 interfaces, so that, unless
  there are exactly 256, the record sent to a client agrees with the interface array behind it.
\<close>

theorem list_devices_exports:
  assumes "list_devices f flt = Inr ss"
  shows "(\<exists>all. list_all_devices f = Inr all
      \<and> ss = filter (\<lambda>d. filter_matches flt (dd_id_vendor (sm_device d)) (dd_id_product (sm_device d))) all)
    \<and> sorted (map (\<lambda>d. (sm_busnum d, sm_devnum d)) ss)
    \<and> list_all (\<lambda>s. is_valid_busid (sm_busid s) \<and> CHR '':'' \<notin> set (sm_busid s)
        \<and> \<not> starts_with (sm_busid s) ''usb'' \<and> length (sm_interfaces s) \<le> 256
        \<and> (length (sm_interfaces s) = 256 \<or> interfaces_ok (to_usbip s))) ss"
proof -
  obtain all where all: "list_all_devices f = Inr all"
    and ss: "ss = filter (\<lambda>d. filter_matches flt (dd_id_vendor (sm_device d)) (dd_id_product (sm_device d))) all"
    using assms by (auto simp: list_devices_def rbind_Inr_iff vid_pid_def)
  then obtain es found where found: "list_entries f es = Inr found"
    and sorted_all: "all = sort_key (\<lambda>d. (sm_busnum d, sm_devnum d)) found"
    by (auto simp: list_all_devices_def rbind_Inr_iff split: sum.splits)
  have "is_valid_busid (sm_busid s) \<and> CHR '':'' \<notin> set (sm_busid s) \<and> \<not> starts_with (sm_busid s) ''usb''
      \<and> length (sm_interfaces s) \<le> 256 \<and> (length (sm_interfaces s) = 256 \<or> interfaces_ok (to_usbip s))"
    if "s \<in> set ss" for s
  proof -
    have "s \<in> set found" using that by (simp add: ss sorted_all)
    then obtain name where name: "summary_from_sysfs f name = Inr s" "CHR '':'' \<notin> set name"
      "\<not> starts_with name ''usb''"
      using list_entries_names [OF found] by blast
    moreover obtain c where "sm_interfaces s = list_from c"
      using summary_fields [OF name(1)] by blast
    ultimately show ?thesis
      using summary_fields [OF name(1)] length_list_from [of c] to_usbip_interfaces [of s]
      by (auto simp: le_eq_less_or_eq)
  qed
  then show ?thesis
    using all ss by (auto simp: list_all_iff sorted_all sorted_filter)
qed

definition sample_fs :: fs where
  "sample_fs = \<lparr>fs_read_to_string = (\<lambda>p. Some ''3''),
     fs_read = (\<lambda>p. Inr (descriptors_bytes hid_extra sample_descriptors)),
     fs_exists = (\<lambda>p. True), fs_read_dir = (\<lambda>p. Inr [Some ''usb1'', None, Some ''3-12:1.0'', Some ''3-12'']),
     fs_read_link = (\<lambda>p. None)\<rparr>"

lemma sample_fs_summary: "\<exists>s. summary_from_sysfs sample_fs ''3-12'' = Inr s \<and> sm_device s = ds_device sample_descriptors
    \<and> sm_busid s = ''3-12'' \<and> sm_sys_path s = SYSFS_USB_DEVICES @ ''/3-12'' \<and> sm_interfaces s = list_from sample_config"
proof -
  have v: "is_valid_busid ''3-12''" by code_simp
  have a: "sysfs_attr sample_fs ''3-12'' x = Some ''3''" for x
  proof -
    have "trim ''3'' = ''3''" by (rule trim_id) (simp add: graphic_def)
    with v show ?thesis by (simp add: sysfs_attr_def sample_fs_def)
  qed
  have "parse_u32 ''3'' = Some 3"
    by (simp add: parse_u32_def parse_unsigned_def from_str_radix_def to_digit_def digit_value_def)
  then have n: "numbers_for_busid sample_fs ''3-12'' = Some (3, 3)" by (simp add: numbers_for_busid_def a)
  have "parse_u8 ''3'' = Some 3"
    by (simp add: parse_u8_def parse_unsigned_def from_str_radix_def to_digit_def digit_value_def)
  then have "sysfs_config_value sample_fs ''3-12'' = Some 3" by (simp add: sysfs_config_value_def a)
  moreover have "config sample_descriptors 3 = None" "config sample_descriptors 1 = Some sample_config"
    "choose_config (Some 3) sample_descriptors = 1"
    by (simp_all add: config_def choose_config_def sample_descriptors_def sample_config_def)
  moreover have "fs_read sample_fs p = Inr (descriptors_bytes hid_extra sample_descriptors)" for p
    by (simp add: sample_fs_def)
  moreover have "sys_path sample_fs ''3-12'' = Some (SYSFS_USB_DEVICES @ ''/3-12'')"
    using v by (simp add: sys_path_def sample_fs_def)
  ultimately show ?thesis
    using v n parse_descriptors_bytes [OF sample_configs_ok]
    by (simp add: summary_from_sysfs_def summarize_def Let_def)
qed

theorem list_devices_exports_witness:
  "\<exists>s. list_devices sample_fs filter_default = Inr [s]
     \<and> is_valid_busid (sm_busid s) \<and> length (sm_interfaces s) \<le> 256"
proof -
  obtain s where s: "summary_from_sysfs sample_fs ''3-12'' = Inr s" "sm_device s = ds_device sample_descriptors"
    using sample_fs_summary by blast
  then have "list_devices sample_fs filter_default = Inr [s]"
    by (simp add: list_devices_def list_all_devices_def sample_fs_def [THEN arg_cong [where f = fs_read_dir]]
        starts_with_def vid_pid_def filter_matches_def filter_default_def pattern_matches_def
        sample_descriptors_def VALVE_VID_def)
  with list_devices_exports [OF this] show ?thesis by simp
qed

end
