(* ===== verification/Sys.thy ===== *)
theory Sys
  imports Prelude
begin

text \<open>
  \<^verbatim>\<open>usb-backend/src/sys.rs\<close>: the request numbers of usbfs, which are computed and not
  copied because the \<open>_IOC\<close> encoding embeds the size of the argument, and the argument structs
  those sizes come from.

  A struct is the list of its fields with their C types. What \<open>#[repr(C)]\<close> makes of it is
  \<open>offsets\<close>, \<open>struct_align\<close> and \<open>struct_size\<close>: every field at the next multiple of its own
  alignment, the whole padded to the largest alignment. The size of a pointer, the one thing
  the supported targets differ in, is an argument.
\<close>

section \<open>The encoding of a request\<close>

definition NRBITS :: nat where "NRBITS = 8"
definition TYPEBITS :: nat where "TYPEBITS = 8"
definition SIZEBITS :: nat where "SIZEBITS = 14"
definition NRSHIFT :: nat where "NRSHIFT = 0"
definition TYPESHIFT :: nat where "TYPESHIFT = NRSHIFT + NRBITS"
definition SIZESHIFT :: nat where "SIZESHIFT = TYPESHIFT + TYPEBITS"
definition DIRSHIFT :: nat where "DIRSHIFT = SIZESHIFT + SIZEBITS"

definition DIR_NONE :: u32 where "DIR_NONE = 0"
definition DIR_WRITE :: u32 where "DIR_WRITE = 1"
definition DIR_READ :: u32 where "DIR_READ = 2"

lemmas ioc_shifts = NRBITS_def TYPEBITS_def SIZEBITS_def NRSHIFT_def TYPESHIFT_def SIZESHIFT_def
  DIRSHIFT_def

lemmas ioc_dirs = DIR_NONE_def DIR_WRITE_def DIR_READ_def

text \<open>The \<open>debug_assert\<close> on the size is \<open>request_sizes_fit\<close> below; \<open>0x55\<close> is the letter U.\<close>

definition ioc :: "u32 \<Rightarrow> u32 \<Rightarrow> nat \<Rightarrow> u32" where
  "ioc dir nr sz =
     push_bit DIRSHIFT dir OR push_bit TYPESHIFT 0x55 OR push_bit NRSHIFT nr
       OR push_bit SIZESHIFT (of_nat sz)"

definition io_none :: "u32 \<Rightarrow> u32" where "io_none nr = ioc DIR_NONE nr 0"
definition ior :: "u32 \<Rightarrow> nat \<Rightarrow> u32" where "ior nr sz = ioc DIR_READ nr sz"
definition iow :: "u32 \<Rightarrow> nat \<Rightarrow> u32" where "iow nr sz = ioc DIR_WRITE nr sz"
definition iowr :: "u32 \<Rightarrow> nat \<Rightarrow> u32" where "iowr nr sz = ioc (DIR_READ OR DIR_WRITE) nr sz"

lemmas ioc_forms = io_none_def ior_def iow_def iowr_def

text \<open>How the kernel reads a request number: direction, type letter, number and size.\<close>

definition ioc_dir :: "u32 \<Rightarrow> u32" where "ioc_dir c = take_bit 2 (drop_bit DIRSHIFT c)"
definition ioc_type :: "u32 \<Rightarrow> u32" where "ioc_type c = take_bit TYPEBITS (drop_bit TYPESHIFT c)"
definition ioc_nr :: "u32 \<Rightarrow> u32" where "ioc_nr c = take_bit NRBITS (drop_bit NRSHIFT c)"
definition ioc_size :: "u32 \<Rightarrow> nat" where "ioc_size c = unat (take_bit SIZEBITS (drop_bit SIZESHIFT c))"

lemmas ioc_reads = ioc_dir_def ioc_type_def ioc_nr_def ioc_size_def

section \<open>Layout of a C struct\<close>

datatype c_type = CChar | CU8 | CU16 | CInt | CUint | CPtr | CArray c_type nat

fun size_of :: "nat \<Rightarrow> c_type \<Rightarrow> nat" where
  "size_of w CChar = 1"
| "size_of w CU8 = 1"
| "size_of w CU16 = 2"
| "size_of w CInt = 4"
| "size_of w CUint = 4"
| "size_of w CPtr = w"
| "size_of w (CArray t n) = n * size_of w t"

fun align_of :: "nat \<Rightarrow> c_type \<Rightarrow> nat" where
  "align_of w (CArray t n) = align_of w t"
| "align_of w t = size_of w t"

definition align_up :: "nat \<Rightarrow> nat \<Rightarrow> nat" where
  "align_up a n = (n + (a - 1)) div a * a"

type_synonym c_struct = "(string \<times> c_type) list"

fun offsets :: "nat \<Rightarrow> nat \<Rightarrow> c_struct \<Rightarrow> nat list" where
  "offsets w n [] = []"
| "offsets w n ((f, t) # fs) =
     (let at = align_up (align_of w t) n in at # offsets w (at + size_of w t) fs)"

fun struct_end :: "nat \<Rightarrow> nat \<Rightarrow> c_struct \<Rightarrow> nat" where
  "struct_end w n [] = n"
| "struct_end w n ((f, t) # fs) = struct_end w (align_up (align_of w t) n + size_of w t) fs"

definition struct_align :: "nat \<Rightarrow> c_struct \<Rightarrow> nat" where
  "struct_align w fs = foldr (\<lambda>(f, t). max (align_of w t)) fs 1"

definition struct_size :: "nat \<Rightarrow> c_struct \<Rightarrow> nat" where
  "struct_size w fs = align_up (struct_align w fs) (struct_end w 0 fs)"

definition offset_of :: "nat \<Rightarrow> c_struct \<Rightarrow> string \<Rightarrow> nat option" where
  "offset_of w fs f = map_of (zip (map fst fs) (offsets w 0 fs)) f"

section \<open>The argument structs\<close>

definition MAXDRIVERNAME :: nat where "MAXDRIVERNAME = 255"

definition UsbdevfsUrb :: c_struct where
  "UsbdevfsUrb =
     [(''typ'', CU8), (''endpoint'', CU8), (''status'', CInt), (''flags'', CUint), (''buffer'', CPtr),
      (''buffer_length'', CInt), (''actual_length'', CInt), (''start_frame'', CInt),
      (''number_of_packets'', CInt), (''error_count'', CInt), (''signr'', CUint),
      (''usercontext'', CPtr)]"

definition UsbdevfsIoctl :: c_struct where
  "UsbdevfsIoctl = [(''ifno'', CInt), (''ioctl_code'', CInt), (''data'', CPtr)]"

definition UsbdevfsDisconnectClaim :: c_struct where
  "UsbdevfsDisconnectClaim =
     [(''interface'', CUint), (''flags'', CUint), (''driver'', CArray CChar (MAXDRIVERNAME + 1))]"

definition UsbdevfsSetinterface :: c_struct where
  "UsbdevfsSetinterface = [(''interface'', CUint), (''altsetting'', CUint)]"

definition UsbdevfsCtrltransfer :: c_struct where
  "UsbdevfsCtrltransfer =
     [(''b_request_type'', CU8), (''b_request'', CU8), (''w_value'', CU16), (''w_index'', CU16),
      (''w_length'', CU16), (''timeout'', CUint), (''data'', CPtr)]"

lemmas c_structs = UsbdevfsUrb_def UsbdevfsIoctl_def UsbdevfsDisconnectClaim_def
  UsbdevfsSetinterface_def UsbdevfsCtrltransfer_def MAXDRIVERNAME_def

section \<open>The requests\<close>

definition USBDEVFS_CONTROL :: "nat \<Rightarrow> u32" where
  "USBDEVFS_CONTROL w = iowr 0 (struct_size w UsbdevfsCtrltransfer)"
definition USBDEVFS_SETINTERFACE :: "nat \<Rightarrow> u32" where
  "USBDEVFS_SETINTERFACE w = ior 4 (struct_size w UsbdevfsSetinterface)"
definition USBDEVFS_SETCONFIGURATION :: u32 where "USBDEVFS_SETCONFIGURATION = ior 5 4"
definition USBDEVFS_SUBMITURB :: "nat \<Rightarrow> u32" where
  "USBDEVFS_SUBMITURB w = ior 10 (struct_size w UsbdevfsUrb)"
definition USBDEVFS_DISCARDURB :: u32 where "USBDEVFS_DISCARDURB = io_none 11"
definition USBDEVFS_REAPURB :: "nat \<Rightarrow> u32" where "USBDEVFS_REAPURB w = iow 12 (size_of w CPtr)"
definition USBDEVFS_REAPURBNDELAY :: "nat \<Rightarrow> u32" where
  "USBDEVFS_REAPURBNDELAY w = iow 13 (size_of w CPtr)"
definition USBDEVFS_CLAIMINTERFACE :: u32 where "USBDEVFS_CLAIMINTERFACE = ior 15 4"
definition USBDEVFS_RELEASEINTERFACE :: u32 where "USBDEVFS_RELEASEINTERFACE = ior 16 4"
definition USBDEVFS_IOCTL :: "nat \<Rightarrow> u32" where
  "USBDEVFS_IOCTL w = iowr 18 (struct_size w UsbdevfsIoctl)"
definition USBDEVFS_RESET :: u32 where "USBDEVFS_RESET = io_none 20"
definition USBDEVFS_CLEAR_HALT :: u32 where "USBDEVFS_CLEAR_HALT = ior 21 4"
definition USBDEVFS_DISCONNECT :: u32 where "USBDEVFS_DISCONNECT = io_none 22"
definition USBDEVFS_CONNECT :: u32 where "USBDEVFS_CONNECT = io_none 23"
definition USBDEVFS_GET_CAPABILITIES :: u32 where "USBDEVFS_GET_CAPABILITIES = ior 26 4"
definition USBDEVFS_DISCONNECT_CLAIM :: "nat \<Rightarrow> u32" where
  "USBDEVFS_DISCONNECT_CLAIM w = ior 27 (struct_size w UsbdevfsDisconnectClaim)"
definition USBDEVFS_GET_SPEED :: u32 where "USBDEVFS_GET_SPEED = io_none 31"

lemmas request_defs =
  USBDEVFS_CONTROL_def USBDEVFS_SETINTERFACE_def USBDEVFS_SETCONFIGURATION_def USBDEVFS_SUBMITURB_def
  USBDEVFS_DISCARDURB_def USBDEVFS_REAPURB_def USBDEVFS_REAPURBNDELAY_def USBDEVFS_CLAIMINTERFACE_def
  USBDEVFS_RELEASEINTERFACE_def USBDEVFS_IOCTL_def USBDEVFS_RESET_def USBDEVFS_CLEAR_HALT_def
  USBDEVFS_DISCONNECT_def USBDEVFS_CONNECT_def USBDEVFS_GET_CAPABILITIES_def
  USBDEVFS_DISCONNECT_CLAIM_def USBDEVFS_GET_SPEED_def

definition requests :: "nat \<Rightarrow> u32 list" where
  "requests w =
     [USBDEVFS_CONTROL w, USBDEVFS_SETINTERFACE w, USBDEVFS_SETCONFIGURATION, USBDEVFS_SUBMITURB w,
      USBDEVFS_DISCARDURB, USBDEVFS_REAPURB w, USBDEVFS_REAPURBNDELAY w, USBDEVFS_CLAIMINTERFACE,
      USBDEVFS_RELEASEINTERFACE, USBDEVFS_IOCTL w, USBDEVFS_RESET, USBDEVFS_CLEAR_HALT,
      USBDEVFS_DISCONNECT, USBDEVFS_CONNECT, USBDEVFS_GET_CAPABILITIES, USBDEVFS_DISCONNECT_CLAIM w,
      USBDEVFS_GET_SPEED]"

section \<open>Constants of a URB\<close>

definition URB_TYPE_ISO :: u8 where "URB_TYPE_ISO = 0"
definition URB_TYPE_INTERRUPT :: u8 where "URB_TYPE_INTERRUPT = 1"
definition URB_TYPE_CONTROL :: u8 where "URB_TYPE_CONTROL = 2"
definition URB_TYPE_BULK :: u8 where "URB_TYPE_BULK = 3"

lemmas urb_types [simp] =
  URB_TYPE_ISO_def URB_TYPE_INTERRUPT_def URB_TYPE_CONTROL_def URB_TYPE_BULK_def

definition URB_SHORT_NOT_OK :: u32 where "URB_SHORT_NOT_OK = 0x01"
definition URB_ISO_ASAP :: u32 where "URB_ISO_ASAP = 0x02"
definition URB_BULK_CONTINUATION :: u32 where "URB_BULK_CONTINUATION = 0x04"
definition URB_ZERO_PACKET :: u32 where "URB_ZERO_PACKET = 0x40"
definition URB_NO_INTERRUPT :: u32 where "URB_NO_INTERRUPT = 0x80"

lemmas urb_flags = URB_SHORT_NOT_OK_def URB_ISO_ASAP_def URB_BULK_CONTINUATION_def URB_ZERO_PACKET_def
  URB_NO_INTERRUPT_def

definition CAP_ZERO_PACKET :: u32 where "CAP_ZERO_PACKET = 0x01"

section \<open>What the layout promises\<close>

lemma align_up_ge: "0 < a \<Longrightarrow> n \<le> align_up a n"
proof -
  assume "0 < a"
  have "(n + (a - 1)) mod a < a" using \<open>0 < a\<close> by simp
  moreover have "n + (a - 1) = align_up a n + (n + (a - 1)) mod a"
    by (simp add: align_up_def)
  ultimately show ?thesis using \<open>0 < a\<close> by linarith
qed

lemma align_up_dvd: "a dvd align_up a n"
  by (simp add: align_up_def)

lemma align_up_tight: "0 < a \<Longrightarrow> align_up a n < n + a"
  using div_times_less_eq_dividend [of "n + (a - 1)" a] unfolding align_up_def by linarith

lemma align_of_pos: "0 < w \<Longrightarrow> 0 < align_of w t"
  by (induction t) auto

lemma struct_end_ge: "0 < w \<Longrightarrow> n \<le> struct_end w n fs"
proof (induction w n fs rule: struct_end.induct)
  case (2 w n f t fs)
  have "n \<le> align_up (align_of w t) n"
    using 2(2) by (simp add: align_up_ge align_of_pos)
  with 2 show ?case by fastforce
qed simp

lemma length_offsets [simp]: "length (offsets w n fs) = length fs"
  by (induction w n fs rule: offsets.induct) (auto simp: Let_def)

text \<open>Fields are aligned, in order, apart from each other and inside the struct.\<close>

lemma offsets_bounds:
  assumes "0 < w" "i < length fs"
  shows "n \<le> offsets w n fs ! i
     \<and> align_of w (snd (fs ! i)) dvd offsets w n fs ! i
     \<and> offsets w n fs ! i + size_of w (snd (fs ! i)) \<le> struct_end w n fs"
  using assms
proof (induction fs arbitrary: n i)
  case (Cons ft fs)
  obtain f t where ft: "ft = (f, t)" by force
  let ?at = "align_up (align_of w t) n"
  have at: "n \<le> ?at" using Cons.prems(1) by (simp add: align_up_ge align_of_pos)
  show ?case
  proof (cases i)
    case 0
    then show ?thesis
      using at Cons.prems(1) by (simp add: ft Let_def align_up_dvd struct_end_ge)
  next
    case (Suc k)
    then show ?thesis
      using Cons.IH [of k "?at + size_of w t"] Cons.prems at by (simp add: ft Let_def)
  qed
qed simp

lemma offsets_apart:
  assumes "0 < w" "i < j" "j < length fs"
  shows "offsets w n fs ! i + size_of w (snd (fs ! i)) \<le> offsets w n fs ! j"
  using assms(2,3)
proof (induction fs arbitrary: n i j)
  case (Cons ft fs)
  obtain f t where ft: "ft = (f, t)" by force
  obtain l where j: "j = Suc l" using Cons.prems(1) by (cases j) auto
  show ?case
  proof (cases i)
    case 0
    then show ?thesis
      using offsets_bounds [OF assms(1), of l fs "align_up (align_of w t) n + size_of w t"] Cons.prems
      by (simp add: ft j Let_def)
  next
    case (Suc k)
    then show ?thesis using Cons.IH Cons.prems by (simp add: ft j Let_def)
  qed
qed simp

lemma struct_align_pos: "0 < struct_align w fs"
  by (induction fs) (auto simp: struct_align_def max_def)

lemma struct_end_le_size: "struct_end w 0 fs \<le> struct_size w fs"
  by (simp add: struct_size_def align_up_ge struct_align_pos)

lemma layout_ok:
  assumes "0 < w" "i < length fs"
  shows "align_of w (snd (fs ! i)) dvd offsets w 0 fs ! i"
    and "offsets w 0 fs ! i + size_of w (snd (fs ! i)) \<le> struct_size w fs"
  using offsets_bounds [OF assms, of 0] struct_end_le_size [of w fs] by auto

lemmas layout_eval = struct_size_def struct_align_def align_up_def c_structs offset_of_def

lemma struct_sizes:
  "struct_size 8 UsbdevfsUrb = 56" "struct_size 4 UsbdevfsUrb = 44"
  "struct_size 8 UsbdevfsIoctl = 16" "struct_size 4 UsbdevfsIoctl = 12"
  "struct_size 8 UsbdevfsCtrltransfer = 24" "struct_size 4 UsbdevfsCtrltransfer = 16"
  "struct_size w UsbdevfsSetinterface = 8" "struct_size w UsbdevfsDisconnectClaim = 264"
  by (simp_all add: layout_eval)

section \<open>What the request numbers promise\<close>

lemma urb_flags_apart:
  "distinct [URB_SHORT_NOT_OK, URB_ISO_ASAP, URB_BULK_CONTINUATION, URB_ZERO_PACKET, URB_NO_INTERRUPT]"
  "URB_SHORT_NOT_OK AND URB_ZERO_PACKET = 0" "URB_SHORT_NOT_OK AND URB_NO_INTERRUPT = 0"
  "URB_ZERO_PACKET AND URB_NO_INTERRUPT = 0"
  by (simp_all add: urb_flags)

text \<open>The kernel reads back what was put in, as long as each part fits its field.\<close>

lemma bit_letter_high: "8 \<le> n \<Longrightarrow> \<not> bit (0x55 :: u32) n"
  using bit_take_bit_iff [of 8 "0x55 :: u32" n] by simp

lemma bit_small: "take_bit k (x :: u32) = x \<Longrightarrow> k \<le> n \<Longrightarrow> \<not> bit x n"
  by (metis bit_take_bit_iff not_le)

lemma ioc_fields:
  assumes dir: "take_bit 2 dir = dir" and nr: "take_bit NRBITS nr = nr" and sz: "sz < 2 ^ SIZEBITS"
  shows "ioc_dir (ioc dir nr sz) = dir" and "ioc_type (ioc dir nr sz) = 0x55"
    and "ioc_nr (ioc dir nr sz) = nr" and "ioc_size (ioc dir nr sz) = sz"
proof -
  let ?sz = "of_nat sz :: u32"
  have "take_bit 14 sz = sz" using sz by (simp add: SIZEBITS_def take_bit_nat_eq_self)
  then have szt: "14 \<le> n \<Longrightarrow> \<not> bit sz n" for n
    by (metis bit_take_bit_iff not_le)
  have high: "2 \<le> n \<Longrightarrow> \<not> bit dir n" "8 \<le> n \<Longrightarrow> \<not> bit nr n" for n
    using bit_small [OF dir] bit_small [OF nr] by (auto simp: NRBITS_def)
  note parts = ioc_def ioc_reads ioc_shifts bit_simps high szt bit_letter_high
  show "ioc_dir (ioc dir nr sz) = dir"
    by (rule bit_eqI) (auto simp: parts not_less intro: ccontr)
  show "ioc_type (ioc dir nr sz) = 0x55"
    by (rule bit_eqI) (auto simp: parts not_less dest: bit_letter_high)
  show "ioc_nr (ioc dir nr sz) = nr"
    by (rule bit_eqI) (auto simp: parts not_less)
  have "take_bit 14 (drop_bit 16 (ioc dir nr sz)) = ?sz"
    by (rule bit_eqI) (auto simp: parts not_less)
  then show "ioc_size (ioc dir nr sz) = sz"
    using sz by (simp add: ioc_size_def ioc_shifts unat_of_nat)
qed

lemma requests_64bit:
  "requests 8 =
     [0xc0185500, 0x80085504, 0x80045505, 0x8038550a, 0x0000550b, 0x4008550c, 0x4008550d, 0x8004550f,
      0x80045510, 0xc0105512, 0x00005514, 0x80045515, 0x00005516, 0x00005517, 0x8004551a, 0x8108551b,
      0x0000551f]"
  by (simp add: requests_def request_defs struct_sizes ioc_forms ioc_def ioc_dirs ioc_shifts)

lemma requests_32bit:
  "requests 4 =
     [0xc0105500, 0x80085504, 0x80045505, 0x802c550a, 0x0000550b, 0x4004550c, 0x4004550d, 0x8004550f,
      0x80045510, 0xc00c5512, 0x00005514, 0x80045515, 0x00005516, 0x00005517, 0x8004551a, 0x8108551b,
      0x0000551f]"
  by (simp add: requests_def request_defs struct_sizes ioc_forms ioc_def ioc_dirs ioc_shifts)

lemma request_sizes_fit:
  assumes "w = 4 \<or> w = 8"
  shows "struct_size w UsbdevfsUrb < 2 ^ SIZEBITS" "struct_size w UsbdevfsIoctl < 2 ^ SIZEBITS"
    "struct_size w UsbdevfsCtrltransfer < 2 ^ SIZEBITS" "struct_size w UsbdevfsSetinterface < 2 ^ SIZEBITS"
    "struct_size w UsbdevfsDisconnectClaim < 2 ^ SIZEBITS" "size_of w CPtr < 2 ^ SIZEBITS"
  using assms by (auto simp: struct_sizes SIZEBITS_def)

lemma requests_distinct: "w = 4 \<or> w = 8 \<Longrightarrow> distinct (requests w)"
  by (elim disjE) (simp_all add: requests_64bit requests_32bit)

definition request_fields :: "u32 \<Rightarrow> u32 \<times> u32 \<times> u32 \<times> nat" where
  "request_fields c = (ioc_dir c, ioc_type c, ioc_nr c, ioc_size c)"

lemma request_fields_ioc:
  "take_bit 2 dir = dir \<Longrightarrow> take_bit NRBITS nr = nr \<Longrightarrow> sz < 2 ^ SIZEBITS
    \<Longrightarrow> request_fields (ioc dir nr sz) = (dir, 0x55, nr, sz)"
  by (simp add: request_fields_def ioc_fields)

text \<open>
  The request numbers, for both pointer sizes the program is built for: no two requests share a
  number, and the kernel reads each as type \<open>U\<close> with the direction, the number and the size of
  the argument that the request was declared with.
\<close>

lemma requests_decode:
  assumes "w = 4 \<or> w = 8"
  shows "distinct (requests w)
    \<and> map request_fields (requests w) =
        [(3, 0x55, 0, struct_size w UsbdevfsCtrltransfer), (2, 0x55, 4, struct_size w UsbdevfsSetinterface),
         (2, 0x55, 5, 4), (2, 0x55, 10, struct_size w UsbdevfsUrb), (0, 0x55, 11, 0),
         (1, 0x55, 12, w), (1, 0x55, 13, w), (2, 0x55, 15, 4), (2, 0x55, 16, 4),
         (3, 0x55, 18, struct_size w UsbdevfsIoctl), (0, 0x55, 20, 0), (2, 0x55, 21, 4), (0, 0x55, 22, 0),
         (0, 0x55, 23, 0), (2, 0x55, 26, 4), (2, 0x55, 27, struct_size w UsbdevfsDisconnectClaim),
         (0, 0x55, 31, 0)]"
  using request_sizes_fit [OF assms]
  by (intro conjI requests_distinct [OF assms])
    (simp add: requests_def request_defs ioc_forms request_fields_ioc ioc_dirs NRBITS_def SIZEBITS_def)

text \<open>The two numbers the code gives as the reason for computing them.\<close>

lemma submit_numbers: "USBDEVFS_SUBMITURB 8 = 0x8038550a" "USBDEVFS_SUBMITURB 4 = 0x802c550a"
  using requests_64bit requests_32bit by (simp_all add: requests_def)

end
