(* ===== verification/Usbfs.thy ===== *)
theory Usbfs
  imports Backend Sys "HOL-Library.AList"
begin

text \<open>
  \<^verbatim>\<open>usb-backend/src/usbfs.rs\<close>: the device
  behind a usbfs file descriptor, with its table of URBs in flight.

  The URBs are heap allocations whose addresses the kernel keeps between submission and
  reaping, so the model has a heap: an association list from addresses to \<open>pending_urb\<close>
  records. Reading or freeing an address that is not in the heap, and slicing a buffer out
  of range, sets \<open>d_fault\<close>. The kernel and the allocator are not part of the program: they are
  the record \<open>env\<close>, whose kernel answers every call as a function of all calls before it.
  Every operation appends its calls, with their answers, to \<open>d_log\<close> (latest first), which
  the real program does not keep; \<open>in_flight\<close> reads off the log which URBs the kernel holds.

  Each operation runs under the state's mutex, so an interleaving of threads is a sequence
  of operations. A poisoned mutex is not modelled. A hash map's order is that of the
  association list; no theorem depends on it.
\<close>

section \<open>Constants\<close>

text \<open>Linux error numbers.\<close>

definition EINTR :: int where "EINTR = 4"
definition EBADF :: int where "EBADF = 9"
definition EAGAIN :: int where "EAGAIN = 11"
definition EBUSY :: int where "EBUSY = 16"
definition ENODEV :: int where "ENODEV = 19"
definition EINVAL :: int where "EINVAL = 22"
definition ENOTTY :: int where "ENOTTY = 25"
definition EPIPE :: int where "EPIPE = 32"
definition ENODATA :: int where "ENODATA = 61"
definition EOPNOTSUPP :: int where "EOPNOTSUPP = 95"
definition ECONNRESET :: int where "ECONNRESET = 104"
definition ESHUTDOWN :: int where "ESHUTDOWN = 108"

lemmas errnos = EINTR_def EBADF_def EAGAIN_def EBUSY_def ENODEV_def EINVAL_def ENOTTY_def
  EPIPE_def ENODATA_def EOPNOTSUPP_def ECONNRESET_def ESHUTDOWN_def

definition DEFAULT_MAX_TRANSFER :: nat where "DEFAULT_MAX_TRANSFER = 2 ^ 20"
definition SETUP_LEN :: nat where "SETUP_LEN = 8"
definition RECONNECT_ATTEMPTS :: nat where "RECONNECT_ATTEMPTS = 4"

section \<open>The kernel\<close>

type_synonym ptr = nat

datatype ioctl =
    SubmitUrb ptr
  | DiscardUrb ptr
  | ReapNdelay
  | DisconnectClaim u8
  | Disconnect u8
  | ClaimInterface u8
  | ReleaseInterface u8
  | Connect u8
  | SetConfigurationIo u32
  | SetInterfaceIo u32 u32
  | ClearHaltIo u32
  | Poll
  | Close

text \<open>
  An answer is a return value, an error number, or a reaped URB: its address (0 for a null
  pointer), its status and actual length, and the bytes written at the start of its buffer.
\<close>

datatype answer = KOk int | KErr int | KReaped ptr int int "u8 list"

type_synonym history = "(ioctl \<times> answer) list"

record env =
  e_kernel :: "history \<Rightarrow> ioctl \<Rightarrow> answer"
  e_alloc :: "ptr list \<Rightarrow> ptr"
  e_ticks :: "history \<Rightarrow> nat"

text \<open>The URBs the kernel holds: accepted and not handed back since.\<close>

fun in_flight :: "history \<Rightarrow> ptr list" where
  "in_flight [] = []"
| "in_flight ((Close, a) # h) = []"
| "in_flight ((SubmitUrb p, KOk r) # h) = p # in_flight h"
| "in_flight ((ReapNdelay, KReaped p s l b) # h) = remove1 p (in_flight h)"
| "in_flight (e # h) = in_flight h"

text \<open>
  What the code relies on: the kernel hands back only the address of a URB it holds (the
  null pointer apart) and answers \<open>REAPURBNDELAY\<close> only with URBs, and the allocator returns
  fresh addresses.
\<close>

definition env_ok :: "env \<Rightarrow> bool" where
  "env_ok v \<longleftrightarrow>
     (\<forall>h p s l b. e_kernel v h ReapNdelay = KReaped p s l b \<longrightarrow> p = 0 \<or> p \<in> set (in_flight h))
     \<and> (\<forall>h r. e_kernel v h ReapNdelay \<noteq> KOk r)
     \<and> (\<forall>h q p s l b. q \<noteq> ReapNdelay \<longrightarrow> e_kernel v h q \<noteq> KReaped p s l b)
     \<and> (\<forall>ps. e_alloc v ps \<noteq> 0 \<and> e_alloc v ps \<notin> set ps)"

section \<open>State\<close>

record pending_urb =
  pu_typ :: u8
  pu_endpoint :: u8
  pu_status :: int
  pu_flags :: u32
  pu_buffer_length :: i32
  pu_actual_length :: int
  pu_usercontext :: ptr
  pu_buffer :: "u8 list"
  pu_seqnum :: u32
  pu_dir :: direction
  pu_data_offset :: nat
  pu_max_reply :: nat

record entry =
  en_ptr :: ptr
  en_unlinked :: bool

record usbfs_device =
  d_open :: bool
  d_summary :: device_summary
  d_descriptors :: descriptors
  d_ep_types :: "(u8 \<times> u8) list"
  d_caps :: u32
  d_max_transfer :: nat
  d_pending :: "(u32 \<times> entry) list"
  d_claimed :: "u8 list"
  d_heap :: "(ptr \<times> pending_urb) list"
  d_fault :: bool
  d_log :: history

text \<open>
  One system call on the descriptor. After closing it the code passes \<open>-1\<close>, which \<open>poll\<close>
  skips, to time out, and which is \<open>EBADF\<close> to every other call, without reaching the device.
\<close>

definition call :: "env \<Rightarrow> ioctl \<Rightarrow> usbfs_device \<Rightarrow> answer \<times> usbfs_device" where
  "call v q d =
     (if d_open d then
        let a = e_kernel v (d_log d) q in (a, d\<lparr>d_log := (q, a) # d_log d\<rparr>)
      else (if q = Poll then KOk 0 else KErr EBADF, d))"

definition errno_error :: "int \<Rightarrow> io_error" where
  "errno_error e = Io (Os e) []"

text \<open>\<open>rc < 0\<close> with \<open>last_os_error\<close>, otherwise the return value.\<close>

fun rc_result :: "answer \<Rightarrow> int + int" where
  "rc_result (KErr e) = Inl e"
| "rc_result (KOk r) = Inr r"
| "rc_result (KReaped p s l b) = Inr 0"

section \<open>Interfaces\<close>

definition dev_interface_numbers :: "usbfs_device \<Rightarrow> u8 list" where
  "dev_interface_numbers d =
     (case config (d_descriptors d) (sm_config_value (d_summary d)) of
        Some c \<Rightarrow> interface_numbers c | None \<Rightarrow> [])"

text \<open>
  The kernel answers \<open>DISCONNECT_CLAIM\<close> with zero or an error, so that the code's test for
  zero is the test for success.
\<close>

definition claim_one :: "env \<Rightarrow> u8 \<Rightarrow> usbfs_device \<Rightarrow> (io_error + unit) \<times> usbfs_device" where
  "claim_one v n d =
     (case call v (DisconnectClaim n) d of (a, d1) \<Rightarrow>
      (case rc_result a of
         Inr r \<Rightarrow> (Inr (), d1)
       | Inl e \<Rightarrow>
           if e \<noteq> ENOTTY \<and> e \<noteq> EINVAL then (Inl (errno_error e), d1)
           else (case call v (Disconnect n) d1 of (b, d2) \<Rightarrow>
             (case rc_result b of
                Inl e2 \<Rightarrow>
                  if e2 \<noteq> ENODATA then (Inl (errno_error e2), d2)
                  else (case call v (ClaimInterface n) d2 of (c, d3) \<Rightarrow>
                    (case rc_result c of Inl e3 \<Rightarrow> (Inl (errno_error e3), d3) | Inr r \<Rightarrow> (Inr (), d3)))
              | Inr r \<Rightarrow>
                  (case call v (ClaimInterface n) d2 of (c, d3) \<Rightarrow>
                    (case rc_result c of Inl e3 \<Rightarrow> (Inl (errno_error e3), d3) | Inr r \<Rightarrow> (Inr (), d3)))))))"

fun claim_loop :: "env \<Rightarrow> u8 list \<Rightarrow> usbfs_device \<Rightarrow> (io_error + unit) \<times> usbfs_device" where
  "claim_loop v [] d = (Inr (), d)"
| "claim_loop v (n # ns) d =
     (if n \<in> set (d_claimed d) then claim_loop v ns d
      else case claim_one v n d of
             (Inl (Io k m), d') \<Rightarrow>
               (Inl (Io k (''claiming interface '' @ show_nat (unat n) @ '' of ''
                  @ sm_busid (d_summary d) @ '': '' @ m)), d')
           | (Inl (Proto e), d') \<Rightarrow> (Inl (Proto e), d')
           | (Inr _, d') \<Rightarrow> claim_loop v ns (d'\<lparr>d_claimed := d_claimed d' @ [n]\<rparr>))"

definition claim_all :: "env \<Rightarrow> usbfs_device \<Rightarrow> (io_error + unit) \<times> usbfs_device" where
  "claim_all v d = claim_loop v (dev_interface_numbers d) d"

definition release_one :: "env \<Rightarrow> u8 \<Rightarrow> usbfs_device \<Rightarrow> usbfs_device" where
  "release_one v n d = snd (call v (ReleaseInterface n) d)"

text \<open>\<open>for attempt in 0..RECONNECT_ATTEMPTS\<close>\<close>

fun reconnect_loop :: "env \<Rightarrow> nat \<Rightarrow> u8 \<Rightarrow> io_error \<Rightarrow> usbfs_device \<Rightarrow> (io_error + int) \<times> usbfs_device" where
  "reconnect_loop v 0 n err d = (Inl err, d)"
| "reconnect_loop v (Suc k) n err d =
     (case call v (Connect n) d of (a, d') \<Rightarrow>
      (case rc_result a of
         Inr r \<Rightarrow> (Inr r, d')
       | Inl e \<Rightarrow> if e = EBUSY then (Inr 0, d') else reconnect_loop v k n (errno_error e) d'))"

definition reconnect_one :: "env \<Rightarrow> u8 \<Rightarrow> usbfs_device \<Rightarrow> (io_error + int) \<times> usbfs_device" where
  "reconnect_one v n d = reconnect_loop v RECONNECT_ATTEMPTS n (errno_error EAGAIN) d"

definition release_all :: "env \<Rightarrow> usbfs_device \<Rightarrow> usbfs_device" where
  "release_all v d =
     (let claimed = d_claimed d; d1 = d\<lparr>d_claimed := []\<rparr> in
      if claimed = [] then d1
      else fold (\<lambda>n d. snd (reconnect_one v n d)) claimed (fold (release_one v) claimed d1))"

section \<open>Special requests\<close>

datatype special =
    SetAddress u16
  | SetConfiguration u16
  | SetInterface u16 u16
  | ClearHalt u16

definition classify :: "u8 list \<Rightarrow> special option" where
  "classify setup =
     (let typ = setup ! 0; request = setup ! 1;
          val = of_le16 (setup ! 2) (setup ! 3); index = of_le16 (setup ! 4) (setup ! 5)
      in if typ AND 0x80 \<noteq> 0 then None
         else if typ = 0 \<and> request = 5 then Some (SetAddress val)
         else if typ = 0 \<and> request = 9 then Some (SetConfiguration val)
         else if typ = 1 \<and> request = 0x0b then Some (SetInterface index val)
         else if typ = 2 \<and> request = 1 \<and> val = 0 then Some (ClearHalt index)
         else None)"

definition ioctl_result :: "env \<Rightarrow> ioctl \<Rightarrow> usbfs_device \<Rightarrow> (int + unit) \<times> usbfs_device" where
  "ioctl_result v q d =
     (case call v q d of (a, d') \<Rightarrow>
      (case rc_result a of Inl e \<Rightarrow> (Inl e, d') | Inr r \<Rightarrow> (Inr (), d')))"

fun special_outcome :: "env \<Rightarrow> special \<Rightarrow> usbfs_device \<Rightarrow> (int + unit) \<times> usbfs_device" where
  "special_outcome v (SetAddress a) d = (Inr (), d)"
| "special_outcome v (SetConfiguration c) d = ioctl_result v (SetConfigurationIo (ucast c)) d"
| "special_outcome v (SetInterface i a) d = ioctl_result v (SetInterfaceIo (ucast i) (ucast a)) d"
| "special_outcome v (ClearHalt e) d = ioctl_result v (ClearHaltIo (ucast e)) d"

definition tweak_special_request ::
    "env \<Rightarrow> urb_request \<Rightarrow> usbfs_device \<Rightarrow> (submit_error \<times> usbfs_device) option" where
  "tweak_special_request v req d =
     (case classify (rq_setup req) of
        None \<Rightarrow> None
      | Some s \<Rightarrow> Some (case special_outcome v s d of
            (Inr _, d') \<Rightarrow> (Handled 0, d')
          | (Inl e, d') \<Rightarrow>
              if e = ENODEV \<or> e = ESHUTDOWN then (Fatal (errno_error e), d') else (Handled 0, d')))"

section \<open>Submission\<close>

definition urb_type_for :: "usbfs_device \<Rightarrow> u8 \<Rightarrow> direction \<Rightarrow> submit_error + u8 \<times> u8" where
  "urb_type_for d ep dir =
     (let addr = (if is_in dir then ep OR 0x80 else ep AND 0x7f) in
      if ep = 0 then Inr (addr, URB_TYPE_CONTROL)
      else case map_of (d_ep_types d) addr of
             Some t \<Rightarrow> if t = URB_TYPE_ISO then Inl (Urb (- EOPNOTSUPP)) else Inr (addr, t)
           | None \<Rightarrow> Inl (Urb (- EPIPE)))"

definition usbfs_flags :: "usbfs_device \<Rightarrow> urb_request \<Rightarrow> u8 \<Rightarrow> u32" where
  "usbfs_flags d req t =
     (let f1 = (if is_in (rq_dir req) \<and> rq_transfer_flags req AND SHORT_NOT_OK \<noteq> 0
                then URB_SHORT_NOT_OK else 0);
          f2 = (if \<not> is_in (rq_dir req) \<and> t = URB_TYPE_BULK
                   \<and> rq_transfer_flags req AND ZERO_PACKET \<noteq> 0 \<and> d_caps d AND CAP_ZERO_PACKET \<noteq> 0
                then f1 OR URB_ZERO_PACKET else f1)
      in if rq_transfer_flags req AND NO_INTERRUPT \<noteq> 0 then f2 OR URB_NO_INTERRUPT else f2)"

text \<open>\<open>buffer[off..off + n].copy_from_slice(xs)\<close> with \<open>n = xs.len()\<close>\<close>

definition overwrite :: "nat \<Rightarrow> u8 list \<Rightarrow> u8 list \<Rightarrow> u8 list" where
  "overwrite off xs b = take off b @ xs @ drop (off + length xs) b"

definition payload_layout :: "urb_request \<Rightarrow> bool \<Rightarrow> nat \<times> nat" where
  "payload_layout req is_control =
     (if is_control
      then (max (rq_buffer_length req) (unat (of_le16 (rq_setup req ! 6) (rq_setup req ! 7))), SETUP_LEN)
      else (rq_buffer_length req, 0))"

definition fill_buffer :: "urb_request \<Rightarrow> bool \<Rightarrow> u8 list" where
  "fill_buffer req is_control =
     (case payload_layout req is_control of (payload_len, off) \<Rightarrow>
      let b0 = replicate (max (off + payload_len) 1) 0;
          b1 = (if is_control then overwrite 0 (rq_setup req) b0 else b0)
      in if \<not> is_in (rq_dir req) \<and> rq_data req \<noteq> []
         then overwrite off (take (min (length (rq_data req)) payload_len) (rq_data req)) b1
         else b1)"

definition new_urb :: "usbfs_device \<Rightarrow> urb_request \<Rightarrow> u8 \<Rightarrow> u8 \<Rightarrow> ptr \<Rightarrow> pending_urb" where
  "new_urb d req addr t p =
     (case payload_layout req (t = URB_TYPE_CONTROL) of (payload_len, off) \<Rightarrow>
      \<lparr>pu_typ = t, pu_endpoint = addr, pu_status = 0, pu_flags = usbfs_flags d req t,
       pu_buffer_length = of_nat (off + payload_len), pu_actual_length = 0, pu_usercontext = p,
       pu_buffer = fill_buffer req (t = URB_TYPE_CONTROL), pu_seqnum = rq_seqnum req,
       pu_dir = rq_dir req, pu_data_offset = off, pu_max_reply = rq_buffer_length req\<rparr>)"

text \<open>\<open>Box::from_raw\<close> and \<open>drop\<close>: freeing what is not allocated is a fault.\<close>

definition free :: "ptr \<Rightarrow> usbfs_device \<Rightarrow> usbfs_device" where
  "free p d = d\<lparr>d_fault := (d_fault d \<or> p \<notin> set (map fst (d_heap d))), d_heap := AList.delete p (d_heap d)\<rparr>"

definition submit_urb :: "env \<Rightarrow> urb_request \<Rightarrow> u8 \<Rightarrow> u8 \<Rightarrow> usbfs_device
    \<Rightarrow> (submit_error + unit) \<times> usbfs_device" where
  "submit_urb v req addr t d =
     (if map_of (d_pending d) (rq_seqnum req) \<noteq> None then (Inl (Urb (- EBUSY)), d)
      else
        let p = e_alloc v (map fst (d_heap d));
            d1 = d\<lparr>d_heap := (p, new_urb d req addr t p) # d_heap d\<rparr>
        in case call v (SubmitUrb p) d1 of (a, d2) \<Rightarrow>
           (case rc_result a of
              Inl e \<Rightarrow>
                (Inl (if e = ENODEV \<or> e = ESHUTDOWN then Fatal (errno_error e) else Urb (- e)), free p d2)
            | Inr r \<Rightarrow>
                (Inr (), d2\<lparr>d_pending := (rq_seqnum req, \<lparr>en_ptr = p, en_unlinked = False\<rparr>) # d_pending d2\<rparr>)))"

definition submit :: "env \<Rightarrow> urb_request \<Rightarrow> usbfs_device \<Rightarrow> (submit_error + unit) \<times> usbfs_device" where
  "submit v req d =
     (case urb_type_for d (rq_ep req) (rq_dir req) of
        Inl e \<Rightarrow> (Inl e, d)
      | Inr (addr, t) \<Rightarrow>
          let is_control = (t = URB_TYPE_CONTROL) in
          case (if is_control then tweak_special_request v req d else None) of
            Some (e, d') \<Rightarrow> (Inl e, d')
          | None \<Rightarrow>
              if d_max_transfer d < fst (payload_layout req is_control) then (Inl (Urb (- EINVAL)), d)
              else submit_urb v req addr t d)"

section \<open>Cancellation and completion\<close>

definition unlink :: "env \<Rightarrow> u32 \<Rightarrow> usbfs_device \<Rightarrow> bool \<times> usbfs_device" where
  "unlink v seqnum d =
     (case map_of (d_pending d) seqnum of
        None \<Rightarrow> (False, d)
      | Some e \<Rightarrow>
          let d1 = d\<lparr>d_pending := AList.update seqnum (e\<lparr>en_unlinked := True\<rparr>) (d_pending d),
                     d_fault := (d_fault d \<or> en_ptr e \<notin> set (map fst (d_heap d)))\<rparr>
          in case call v (DiscardUrb (en_ptr e)) d1 of (a, d2) \<Rightarrow> (rc_result a = Inr 0, d2))"

text \<open>The bytes of an IN transfer that go to the client.\<close>

definition reply_data :: "pending_urb \<Rightarrow> u8 list" where
  "reply_data u =
     (if is_in (pu_dir u) then
        let off = pu_data_offset u;
            n = min (min (nat (max (pu_actual_length u) 0)) (pu_max_reply u)) (length (pu_buffer u) - off)
        in slice (pu_buffer u) off (off + n)
      else [])"

definition completion_of :: "pending_urb \<Rightarrow> bool \<Rightarrow> urb_completion" where
  "completion_of u unlinked =
     \<lparr>uc_seqnum = pu_seqnum u, uc_status = pu_status u,
      uc_actual_length = (if is_in (pu_dir u) then length (reply_data u)
                          else nat (max (pu_actual_length u) 0)),
      uc_data = reply_data u, uc_unlinked = unlinked\<rparr>"

text \<open>What the kernel writes into our memory during the reap.\<close>

definition reaped_urb :: "pending_urb \<Rightarrow> int \<Rightarrow> int \<Rightarrow> u8 list \<Rightarrow> pending_urb" where
  "reaped_urb u s l b = u\<lparr>pu_status := s, pu_actual_length := l,
     pu_buffer := take (length (pu_buffer u)) b @ drop (length b) (pu_buffer u)\<rparr>"

definition reap :: "env \<Rightarrow> usbfs_device \<Rightarrow> (io_error + urb_completion option) \<times> usbfs_device" where
  "reap v d =
     (case call v ReapNdelay d of (a, d1) \<Rightarrow>
      (case a of
         KErr e \<Rightarrow> (if e = EAGAIN then Inr None else Inl (errno_error e), d1)
       | KOk r \<Rightarrow> (Inr None, d1)
       | KReaped p s l b \<Rightarrow>
           if p = 0 then (Inr None, d1)
           else (case map_of (d_heap d1) p of
               None \<Rightarrow> (Inr None, d1\<lparr>d_fault := True\<rparr>)
             | Some u0 \<Rightarrow>
                 let u = reaped_urb u0 s l b; ctx = pu_usercontext u in
                 if ctx = 0 then (Inl (Io InvalidData ''reaped a URB that usbfwd did not submit''), d1)
                 else
                   let d2 = free ctx d1;
                       unlinked = (case map_of (d_pending d2) (pu_seqnum u) of
                                     Some e \<Rightarrow> en_unlinked e | None \<Rightarrow> False);
                       d3 = d2\<lparr>d_pending := AList.delete (pu_seqnum u) (d_pending d2),
                               d_fault := (d_fault d2 \<or> is_in (pu_dir u) \<and> length (pu_buffer u) < pu_data_offset u)\<rparr>
                   in (Inr (Some (completion_of u unlinked)), d3))))"

text \<open>\<open>poll\<close>: 0 is a timeout, otherwise the \<open>revents\<close>; \<open>EINTR\<close> is retried until the deadline.\<close>

fun wait_loop :: "env \<Rightarrow> nat \<Rightarrow> usbfs_device \<Rightarrow> (io_error + wake) \<times> usbfs_device" where
  "wait_loop v ticks d =
     (case call v Poll d of (a, d') \<Rightarrow>
      (case rc_result a of
         Inl e \<Rightarrow>
           if e = EINTR then
             (case ticks of 0 \<Rightarrow> (Inr \<lparr>wk_ready = False, wk_gone = False\<rparr>, d')
              | Suc k \<Rightarrow> wait_loop v k d')
           else (Inl (errno_error e), d')
       | Inr r \<Rightarrow>
           if r = 0 then (Inr \<lparr>wk_ready = False, wk_gone = False\<rparr>, d')
           else (Inr \<lparr>wk_ready = (r AND 4 \<noteq> 0), wk_gone = (r AND 56 \<noteq> 0)\<rparr>, d')))"

declare wait_loop.simps [simp del]

definition wait :: "env \<Rightarrow> usbfs_device \<Rightarrow> (io_error + wake) \<times> usbfs_device" where
  "wait v d = wait_loop v (e_ticks v (d_log d)) d"

text \<open>\<open>while Instant::now() < deadline\<close>, found true \<open>ticks\<close> times.\<close>

fun drain_loop :: "env \<Rightarrow> nat \<Rightarrow> usbfs_device \<Rightarrow> usbfs_device" where
  "drain_loop v 0 d = d"
| "drain_loop v (Suc ticks) d =
     (if d_pending d = [] then d
      else case reap v d of
             (Inr (Some c), d') \<Rightarrow> drain_loop v ticks d'
           | (Inr None, d') \<Rightarrow> drain_loop v ticks (snd (wait v d'))
           | (Inl e, d') \<Rightarrow> d')"

definition cancel_pending :: "env \<Rightarrow> usbfs_device \<Rightarrow> usbfs_device" where
  "cancel_pending v d =
     (let seqnums = map fst (d_pending d) in
      if seqnums = [] then d
      else
        let d1 = fold (\<lambda>s d. snd (unlink v s d)) seqnums d
        in drain_loop v (e_ticks v (d_log d1)) d1)"

definition close_fd :: "env \<Rightarrow> usbfs_device \<Rightarrow> usbfs_device" where
  "close_fd v d = (snd (call v Close d))\<lparr>d_open := False\<rparr>"

definition drop_device :: "env \<Rightarrow> usbfs_device \<Rightarrow> usbfs_device" where
  "drop_device v d =
     (let d1 = close_fd v (release_all v (cancel_pending v d))
      in (fold (\<lambda>e. free (en_ptr (snd e))) (d_pending d1) d1)\<lparr>d_pending := []\<rparr>)"

section \<open>Endpoints\<close>

fun push_endpoints :: "endpoint_descriptor list \<Rightarrow> (u8 \<times> u16) list \<Rightarrow> (u8 \<times> u16) list" where
  "push_endpoints [] out = out"
| "push_endpoints (ep # eps) out =
     (if ep_is_in ep \<and> ep_transfer_type ep = Interrupt \<and> ep_address ep \<notin> set (map fst out)
      then push_endpoints eps (out @ [(ep_address ep, ep_max_packet_size ep)])
      else push_endpoints eps out)"

definition interrupt_in_endpoints :: "usbfs_device \<Rightarrow> (u8 \<times> u16) list" where
  "interrupt_in_endpoints d =
     (case config (d_descriptors d) (sm_config_value (d_summary d)) of
        None \<Rightarrow> []
      | Some c \<Rightarrow> push_endpoints (concat (map as_endpoints (primary_alt_settings c))) [])"

section \<open>Opening\<close>

text \<open>
  What opening asks of the system: the answers to \<open>open\<close>, to the \<open>read\<close>s of the descriptors
  (an error number, or the bytes; nothing is end of file), to \<open>GET_SPEED\<close>, to
  \<open>GET_CAPABILITIES\<close> and to a control transfer (the error number, or how many bytes were
  transferred and which).
\<close>

record ctrltransfer =
  ct_request_type :: u8
  ct_request :: u8
  ct_value :: u16
  ct_index :: u16
  ct_length :: u16
  ct_timeout :: u32

record probe =
  pb_open :: "io_error option"
  pb_seek :: "int option"
  pb_reads :: "(int + u8 list) list"
  pb_speed :: int
  pb_caps :: "u32 option"
  pb_control :: "ctrltransfer \<Rightarrow> int + nat \<times> u8 list"

text \<open>At most 65536 bytes; \<open>EINTR\<close> is retried.\<close>

fun read_blob_loop :: "(int + u8 list) list \<Rightarrow> u8 list \<Rightarrow> io_error + u8 list" where
  "read_blob_loop [] buf = Inr buf"
| "read_blob_loop (Inl e # rs) buf =
     (if 65536 \<le> length buf then Inr buf
      else if e = EINTR then read_blob_loop rs buf else Inl (errno_error e))"
| "read_blob_loop (Inr bs # rs) buf =
     (if 65536 \<le> length buf \<or> bs = [] then Inr buf
      else read_blob_loop rs (buf @ take (65536 - length buf) bs))"

definition read_descriptor_blob :: "probe \<Rightarrow> io_error + u8 list" where
  "read_descriptor_blob pb =
     (case pb_seek pb of Some e \<Rightarrow> Inl (errno_error e) | None \<Rightarrow> read_blob_loop (pb_reads pb) [])"

definition get_speed :: "probe \<Rightarrow> speed option" where
  "get_speed pb = (if pb_speed pb < 0 then None else Some (speed_from_raw (of_int (pb_speed pb))))"

definition get_capabilities :: "probe \<Rightarrow> u32" where
  "get_capabilities pb = (case pb_caps pb of None \<Rightarrow> 0 | Some c \<Rightarrow> c)"

text \<open>A control transfer into \<open>buf\<close>: its result and what the buffer holds afterwards.\<close>

definition control :: "probe \<Rightarrow> u8 \<Rightarrow> u8 \<Rightarrow> u16 \<Rightarrow> u16 \<Rightarrow> u8 list \<Rightarrow> u32 \<Rightarrow> (io_error + nat) \<times> u8 list" where
  "control pb request_type request val index buf timeout_ms =
     (case pb_control pb \<lparr>ct_request_type = request_type, ct_request = request, ct_value = val,
             ct_index = index, ct_length = of_nat (length buf), ct_timeout = timeout_ms\<rparr> of
        Inl e \<Rightarrow> (Inl (errno_error e), buf)
      | Inr (rc, bs) \<Rightarrow> (Inr rc, take (length buf) bs @ drop (length bs) buf))"

definition first_config :: "descriptors \<Rightarrow> u8" where
  "first_config desc = (case ds_configs desc of [] \<Rightarrow> 1 | c # _ \<Rightarrow> cd_configuration_value c)"

definition active_config :: "fs \<Rightarrow> probe \<Rightarrow> string \<Rightarrow> descriptors \<Rightarrow> u8" where
  "active_config f pb busid desc =
     (let ask = (case control pb 0x80 0x08 0 0 [0] 1000 of (r, buf) \<Rightarrow>
            if is_ok r \<and> config desc (buf ! 0) \<noteq> None then buf ! 0 else first_config desc)
      in case sysfs_config_value f busid of
           Some v \<Rightarrow> if config desc v \<noteq> None then v else ask
         | None \<Rightarrow> ask)"

fun usbfs_type :: "transfer_type \<Rightarrow> u8" where
  "usbfs_type Control = URB_TYPE_CONTROL"
| "usbfs_type Isochronous = URB_TYPE_ISO"
| "usbfs_type Bulk = URB_TYPE_BULK"
| "usbfs_type Interrupt = URB_TYPE_INTERRUPT"

definition endpoint_types :: "config_descriptor \<Rightarrow> (u8 \<times> u8) list" where
  "endpoint_types c =
     fold (\<lambda>ep m. AList.update (ep_address ep) (usbfs_type (ep_transfer_type ep)) m)
       (concat (map as_endpoints (cd_alt_settings c)))
       (AList.update 0x80 URB_TYPE_CONTROL (AList.update 0 URB_TYPE_CONTROL []))"

definition build :: "fs \<Rightarrow> probe \<Rightarrow> u32 \<Rightarrow> u32 \<Rightarrow> enum_error + usbfs_device" where
  "build f pb busnum devnum =
     (case read_descriptor_blob pb of
        Inl e \<Rightarrow> Inl (Failed e)
      | Inr blob \<Rightarrow> rbind (of_parse (parse blob)) (\<lambda>desc.
          let busid = (case busid_for f busnum devnum of Some b \<Rightarrow> b
                | None \<Rightarrow> show_nat (unat busnum) @ ''-'' @ show_nat (unat devnum));
              node = node_path busnum devnum;
              path = (case sys_path f busid of Some p \<Rightarrow> p | None \<Rightarrow> node);
              cv = active_config f pb busid desc
          in case config desc cv of
               None \<Rightarrow> Inl (Failed (Io InvalidData (''device reports active configuration ''
                 @ show_nat (unat cv) @ '', which it did not describe'')))
             | Some c \<Rightarrow>
                 let speed = (case get_speed pb of Some s \<Rightarrow> s
                       | None \<Rightarrow> (case sysfs_speed f busid of Some s \<Rightarrow> s | None \<Rightarrow> Unknown))
                 in Inr \<lparr>d_open = True,
                      d_summary = \<lparr>sm_busnum = busnum, sm_devnum = devnum, sm_busid = busid,
                        sm_sys_path = path, sm_node_path = node, sm_speed = speed,
                        sm_device = ds_device desc, sm_config_value = cv, sm_interfaces = list_from c\<rparr>,
                      d_descriptors = desc, d_ep_types = endpoint_types c, d_caps = get_capabilities pb,
                      d_max_transfer = DEFAULT_MAX_TRANSFER, d_pending = [], d_claimed = [],
                      d_heap = [], d_fault = False, d_log = []\<rparr>))"

definition open_node :: "fs \<Rightarrow> probe \<Rightarrow> string \<Rightarrow> enum_error + usbfs_device" where
  "open_node f pb path =
     (case split_node_path path of
        None \<Rightarrow> Inl (Failed (Io InvalidInput (path @ '' is not a /dev/bus/usb/BBB/DDD path'')))
      | Some (busnum, devnum) \<Rightarrow>
          (case pb_open pb of
             Some e \<Rightarrow> Inl (Failed (Io (io_error_kind e) (''opening '' @ path @ '' for read/write: '' @ io_error_text e
               @ '' (install packaging/99-usbfwd.rules, or run as root)'')))
           | None \<Rightarrow> build f pb busnum devnum))"

definition open_busid :: "fs \<Rightarrow> probe \<Rightarrow> string \<Rightarrow> enum_error + usbfs_device" where
  "open_busid f pb busid =
     (case numbers_for_busid f busid of
        None \<Rightarrow> Inl (Failed (Io NotFound (''no such device: '' @ busid)))
      | Some (busnum, devnum) \<Rightarrow> open_node f pb (node_path busnum devnum))"

definition adopt_raw_fd :: "fs \<Rightarrow> probe \<Rightarrow> int \<Rightarrow> enum_error + usbfs_device" where
  "adopt_raw_fd f pb owned =
     (case numbers_for_fd f owned of
        None \<Rightarrow> build f pb 0 0
      | Some (busnum, devnum) \<Rightarrow> build f pb busnum devnum)"

text \<open>\<open>dup\<close> is the answer to \<open>F_DUPFD_CLOEXEC\<close>: the error, or the duplicate.\<close>

definition from_borrowed_fd :: "fs \<Rightarrow> probe \<Rightarrow> io_error + int \<Rightarrow> enum_error + usbfs_device" where
  "from_borrowed_fd f pb dup = (case dup of Inl e \<Rightarrow> Inl (Failed e) | Inr owned \<Rightarrow> adopt_raw_fd f pb owned)"

section \<open>Request numbers\<close>

text \<open>
  The number under which an operation goes to the kernel, and the one inside it where it
  travels in a \<open>USBDEVFS_IOCTL\<close>. Polling and closing are system calls of their own.
\<close>

fun ioctl_request :: "nat \<Rightarrow> ioctl \<Rightarrow> u32 list" where
  "ioctl_request w (SubmitUrb p) = [USBDEVFS_SUBMITURB w]"
| "ioctl_request w (DiscardUrb p) = [USBDEVFS_DISCARDURB]"
| "ioctl_request w ReapNdelay = [USBDEVFS_REAPURBNDELAY w]"
| "ioctl_request w (DisconnectClaim n) = [USBDEVFS_DISCONNECT_CLAIM w]"
| "ioctl_request w (Disconnect n) = [USBDEVFS_IOCTL w, USBDEVFS_DISCONNECT]"
| "ioctl_request w (ClaimInterface n) = [USBDEVFS_CLAIMINTERFACE]"
| "ioctl_request w (ReleaseInterface n) = [USBDEVFS_RELEASEINTERFACE]"
| "ioctl_request w (Connect n) = [USBDEVFS_IOCTL w, USBDEVFS_CONNECT]"
| "ioctl_request w (SetConfigurationIo c) = [USBDEVFS_SETCONFIGURATION]"
| "ioctl_request w (SetInterfaceIo i a) = [USBDEVFS_SETINTERFACE w]"
| "ioctl_request w (ClearHaltIo e) = [USBDEVFS_CLEAR_HALT]"
| "ioctl_request w Poll = []"
| "ioctl_request w Close = []"

text \<open>The operations the model tells apart are told apart by their numbers too.\<close>

lemma ioctl_requests_distinct:
  assumes "w = 4 \<or> w = 8"
  shows "distinct (map (ioctl_request w)
    [SetInterfaceIo i a, SetConfigurationIo c, SubmitUrb p, DiscardUrb p, ReapNdelay, ClaimInterface n,
     ReleaseInterface n, Disconnect n, ClearHaltIo e, Connect n, DisconnectClaim n])"
  using requests_distinct [OF assms] by (simp add: requests_def)

lemma requests_known: "set (ioctl_request w q) \<subseteq> set (requests w)"
  by (cases q) (simp_all add: requests_def)

section \<open>Memory safety\<close>

definition urb_ptrs :: "usbfs_device \<Rightarrow> ptr list" where
  "urb_ptrs d = map (\<lambda>(q, e). en_ptr e) (d_pending d)"

text \<open>
  One allocation per sequence number in flight and no other; its URB knows its sequence
  number and its own address; and while the descriptor is open, the kernel holds exactly
  these URBs.
\<close>

definition entry_ok :: "usbfs_device \<Rightarrow> u32 \<Rightarrow> entry \<Rightarrow> bool" where
  "entry_ok d q e \<longleftrightarrow>
     en_ptr e \<noteq> 0
     \<and> (case map_of (d_heap d) (en_ptr e) of
          None \<Rightarrow> False
        | Some u \<Rightarrow> pu_seqnum u = q \<and> pu_usercontext u = en_ptr e
            \<and> pu_data_offset u \<le> length (pu_buffer u))"

definition dev_inv :: "usbfs_device \<Rightarrow> bool" where
  "dev_inv d \<longleftrightarrow>
     \<not> d_fault d \<and> distinct (map fst (d_pending d)) \<and> distinct (map fst (d_heap d))
     \<and> distinct (urb_ptrs d) \<and> set (urb_ptrs d) = set (map fst (d_heap d))
     \<and> list_all (\<lambda>(q, e). entry_ok d q e) (d_pending d)
     \<and> (if d_open d then set (in_flight (d_log d)) = set (urb_ptrs d) \<and> distinct (in_flight (d_log d))
        else d_pending d = [])"

text \<open>Steps that leave the URBs alone.\<close>

definition quiet :: "usbfs_device \<Rightarrow> usbfs_device \<Rightarrow> bool" where
  "quiet d d' \<longleftrightarrow>
     d_pending d' = d_pending d \<and> d_heap d' = d_heap d \<and> d_fault d' = d_fault d \<and> d_open d' = d_open d
     \<and> in_flight (d_log d') = in_flight (d_log d)"

named_theorems quiet_intros \<open>operations that leave the URBs alone\<close>

lemma quiet_refl [quiet_intros]: "quiet d d"
  by (simp add: quiet_def)

lemma quiet_trans: "quiet d d' \<Longrightarrow> quiet d' d'' \<Longrightarrow> quiet d d''"
  by (simp add: quiet_def)

lemma quiet_inv: "quiet d d' \<Longrightarrow> dev_inv d' = dev_inv d"
  by (simp add: quiet_def dev_inv_def urb_ptrs_def entry_ok_def)

lemma quiet_claimed [quiet_intros]: "quiet d (d'\<lparr>d_claimed := c\<rparr>) = quiet d d'"
  by (simp add: quiet_def)

lemma quiet_claimed_left [simp]: "quiet (d\<lparr>d_claimed := c\<rparr>) d' = quiet d d'"
  by (simp add: quiet_def)

fun quiet_call :: "ioctl \<Rightarrow> bool" where
  "quiet_call (SubmitUrb p) = False"
| "quiet_call ReapNdelay = False"
| "quiet_call Close = False"
| "quiet_call _ = True"

lemma quiet_call_snd [quiet_intros]: "quiet_call q \<Longrightarrow> quiet d (snd (call v q d))"
  by (cases q) (auto simp: quiet_def call_def Let_def)

lemma quiet_call_eq: "call v q d = (a, d') \<Longrightarrow> quiet_call q \<Longrightarrow> quiet d d'"
  using quiet_call_snd [of q d v] by simp

lemma quiet_fold:
  assumes "\<And>x d. quiet d (f x d)"
  shows "quiet d (fold f xs d)"
  by (induction xs arbitrary: d) (auto intro: quiet_refl quiet_trans assms)

lemma quiet_claim_one: "quiet d (snd (claim_one v n d))"
  unfolding claim_one_def
  by (auto split: prod.split sum.split intro: quiet_trans quiet_refl dest!: quiet_call_eq)

lemma quiet_claim_loop: "quiet d (snd (claim_loop v ns d))"
proof (induction v ns d rule: claim_loop.induct)
  case (2 v n ns d)
  obtain r d' where c: "claim_one v n d = (r, d')" by fastforce
  then have "quiet d d'" using quiet_claim_one [of d v n] by simp
  with 2 c show ?case
    by (cases r rule: sum.exhaust; cases "projl r")
      (auto simp: quiet_claimed intro: quiet_trans)
qed (simp add: quiet_refl)

lemma quiet_reconnect_loop: "quiet d (snd (reconnect_loop v k n e d))"
proof (induction k arbitrary: d e)
  case (Suc k)
  obtain a d' where c: "call v (Connect n) d = (a, d')" by fastforce
  then have "quiet d d'" by (rule quiet_call_eq) simp
  with Suc [of d'] c show ?case by (auto split: sum.split intro: quiet_trans)
qed (simp add: quiet_refl)

lemma quiet_release_all: "quiet d (release_all v d)"
proof -
  let ?d1 = "fold (release_one v) (d_claimed d) (d\<lparr>d_claimed := []\<rparr>)"
  have "quiet (d\<lparr>d_claimed := []\<rparr>) ?d1"
    by (rule quiet_fold) (simp add: release_one_def quiet_call_snd)
  then have "quiet d ?d1" by simp
  moreover have "quiet ?d1 (fold (\<lambda>n d. snd (reconnect_one v n d)) (d_claimed d) ?d1)"
    by (rule quiet_fold) (simp add: reconnect_one_def quiet_reconnect_loop)
  ultimately have "quiet d (fold (\<lambda>n d. snd (reconnect_one v n d)) (d_claimed d) ?d1)"
    by (rule quiet_trans)
  then show ?thesis
    by (simp add: release_all_def Let_def quiet_claimed quiet_refl)
qed

lemma quiet_special: "quiet d (snd (special_outcome v s d))"
  by (cases s) (auto simp: ioctl_result_def split: prod.split sum.split
      intro: quiet_refl dest!: quiet_call_eq)

lemma quiet_tweak:
  assumes "tweak_special_request v req d = Some (e, d')"
  shows "quiet d d'"
proof -
  obtain s where s: "classify (rq_setup req) = Some s"
    using assms by (auto simp: tweak_special_request_def split: option.split_asm)
  obtain r d1 where r: "special_outcome v s d = (r, d1)" by fastforce
  then have "quiet d d1" using quiet_special [of d v s] by simp
  with assms s r show ?thesis
    by (auto simp: tweak_special_request_def split: sum.split_asm if_splits)
qed

lemma quiet_wait_loop: "quiet d (snd (wait_loop v k d))"
proof (induction k arbitrary: d)
  case 0
  obtain a d' where c: "call v Poll d = (a, d')" by fastforce
  then have "quiet d d'" by (rule quiet_call_eq) simp
  with c show ?case by (subst wait_loop.simps) (auto split: sum.split)
next
  case (Suc k)
  obtain a d' where c: "call v Poll d = (a, d')" by fastforce
  then have "quiet d d'" by (rule quiet_call_eq) simp
  with c Suc [of d'] show ?case
    by (subst wait_loop.simps) (auto split: sum.split intro: quiet_trans)
qed

lemma quiet_wait: "quiet d (snd (wait v d))"
  by (simp add: wait_def quiet_wait_loop)

text \<open>The table the client side sees: which sequence numbers are in flight, and which of them are cancelled.\<close>

definition pend :: "usbfs_device \<Rightarrow> u32 \<Rightarrow> bool option" where
  "pend d q = map_option en_unlinked (map_of (d_pending d) q)"

lemma quiet_pend: "quiet d d' \<Longrightarrow> pend d' = pend d"
  by (simp add: quiet_def pend_def fun_eq_iff)

lemma length_overwrite [simp]: "off + length xs \<le> length b \<Longrightarrow> length (overwrite off xs b) = length b"
  by (simp add: overwrite_def)

lemma length_fill_buffer:
  assumes "c \<longrightarrow> length (rq_setup req) = 8"
  shows "length (fill_buffer req c) = max (snd (payload_layout req c) + fst (payload_layout req c)) 1"
  using assms by (auto simp: fill_buffer_def payload_layout_def SETUP_LEN_def Let_def)

lemma new_urb_ok:
  assumes "length (rq_setup req) = 8"
  shows "pu_seqnum (new_urb d req addr t p) = rq_seqnum req" "pu_usercontext (new_urb d req addr t p) = p"
    "pu_data_offset (new_urb d req addr t p) \<le> length (pu_buffer (new_urb d req addr t p))"
  using assms length_fill_buffer [of "t = URB_TYPE_CONTROL" req]
  by (auto simp: new_urb_def max_def split: prod.split)

lemma entry_ok_fresh:
  assumes "p \<notin> set (map fst (d_heap d))" "entry_ok d q e"
  shows "entry_ok (d\<lparr>d_heap := (p, u) # d_heap d\<rparr>) q e"
proof -
  have "map_of (d_heap d) p = None" using assms(1) by (simp add: map_of_eq_None_iff)
  with assms(2) show ?thesis by (cases "en_ptr e = p") (auto simp: entry_ok_def)
qed

lemma entry_ok_cong: "d_heap d' = d_heap d \<Longrightarrow> entry_ok d' q e = entry_ok d q e"
  by (simp add: entry_ok_def)

lemma call_submit:
  assumes "env_ok v"
  shows "(d_open d \<and> (\<exists>r. call v (SubmitUrb p) d = (KOk r, d\<lparr>d_log := (SubmitUrb p, KOk r) # d_log d\<rparr>)))
    \<or> (\<exists>e d'. call v (SubmitUrb p) d = (KErr e, d') \<and> quiet d d')"
proof (cases "e_kernel v (d_log d) (SubmitUrb p)")
  case (KReaped p s l b)
  with assms show ?thesis by (auto simp: env_ok_def)
qed (auto simp: call_def quiet_def Let_def)

lemma submit_urb_step:
  assumes "env_ok v" "dev_inv d" "length (rq_setup req) = 8" "submit_urb v req addr t d = (r, d')"
  shows "dev_inv d' \<and> (case r of
      Inl e \<Rightarrow> pend d' = pend d
    | Inr _ \<Rightarrow> pend d (rq_seqnum req) = None \<and> pend d' = (pend d)(rq_seqnum req \<mapsto> False))"
proof (cases "map_of (d_pending d) (rq_seqnum req)")
  case (Some e)
  with assms show ?thesis by (auto simp: submit_urb_def)
next
  case None
  define p where "p = e_alloc v (map fst (d_heap d))"
  define d1 where "d1 = d\<lparr>d_heap := (p, new_urb d req addr t p) # d_heap d\<rparr>"
  have p: "p \<noteq> 0" "p \<notin> set (map fst (d_heap d))"
    using assms(1) unfolding p_def env_ok_def by blast+
  from call_submit [OF assms(1), of d1 p] show ?thesis
  proof
    assume "d_open d1 \<and> (\<exists>r. call v (SubmitUrb p) d1 = (KOk r, d1\<lparr>d_log := (SubmitUrb p, KOk r) # d_log d1\<rparr>))"
    then obtain k where k: "d_open d" "call v (SubmitUrb p) d1 = (KOk k, d1\<lparr>d_log := (SubmitUrb p, KOk k) # d_log d1\<rparr>)"
      by (auto simp: d1_def)
    have d': "r = Inr ()" "d' = d1\<lparr>d_log := (SubmitUrb p, KOk k) # d_log d1,
        d_pending := (rq_seqnum req, \<lparr>en_ptr = p, en_unlinked = False\<rparr>) # d_pending d\<rparr>"
      using assms(4) None k by (auto simp: submit_urb_def Let_def p_def d1_def)
    have "entry_ok d' q e" if "(q, e) \<in> set (d_pending d)" for q e
      using assms(2) that entry_ok_fresh [OF p(2), of q e]
      by (auto simp: dev_inv_def list_all_iff d' d1_def entry_ok_def)
    moreover have "entry_ok d' (rq_seqnum req) \<lparr>en_ptr = p, en_unlinked = False\<rparr>"
      using p new_urb_ok [OF assms(3)] by (simp add: entry_ok_def d' d1_def)
    moreover have "rq_seqnum req \<notin> set (map fst (d_pending d))"
      using None by (simp add: map_of_eq_None_iff)
    ultimately show ?thesis
      using assms(2) p k None
      by (auto simp: dev_inv_def d' d1_def urb_ptrs_def pend_def fun_eq_iff list_all_iff)
  next
    assume "\<exists>e d'. call v (SubmitUrb p) d1 = (KErr e, d') \<and> quiet d1 d'"
    then obtain e d2 where e: "call v (SubmitUrb p) d1 = (KErr e, d2)" "quiet d1 d2" by blast
    then have "d' = free p d2" "\<exists>x. r = Inl x"
      using assms(4) None by (auto simp: submit_urb_def Let_def p_def d1_def)
    moreover from e(2) p have "quiet d (free p d2)"
      by (auto simp: quiet_def free_def d1_def delete_idem)
    ultimately show ?thesis
      using quiet_inv [of d d'] quiet_pend [of d d'] assms(2) by auto
  qed
qed

lemma submit_step:
  assumes "env_ok v" "dev_inv d" "length (rq_setup req) = 8" "submit v req d = (r, d')"
  shows "dev_inv d' \<and> (case r of
      Inl e \<Rightarrow> pend d' = pend d
    | Inr _ \<Rightarrow> pend d (rq_seqnum req) = None \<and> pend d' = (pend d)(rq_seqnum req \<mapsto> False))"
proof (cases "urb_type_for d (rq_ep req) (rq_dir req)")
  case (Inl e)
  with assms show ?thesis by (auto simp: submit_def)
next
  case (Inr at)
  obtain addr t where at: "at = (addr, t)" by fastforce
  show ?thesis
  proof (cases "if t = URB_TYPE_CONTROL then tweak_special_request v req d else None")
    case (Some ed)
    then obtain e d1 where "ed = (e, d1)" "quiet d d1"
      by (cases ed) (auto dest: quiet_tweak split: if_splits)
    with Some Inr at assms show ?thesis
      using quiet_inv [of d d1] quiet_pend [of d d1] by (auto simp: submit_def Let_def)
  next
    case None
    with Inr at assms show ?thesis
      using submit_urb_step [OF assms(1-3), of addr t r d']
      by (auto simp: submit_def Let_def split: if_splits)
  qed
qed

lemma alist_update_map:
  "map_of al k = Some e \<Longrightarrow> f e' = f e \<Longrightarrow> map (\<lambda>(q, e). f e) (AList.update k e' al) = map (\<lambda>(q, e). f e) al"
  by (induction al) (auto split: if_splits)

lemma alist_update_set: "set (AList.update k e al) \<subseteq> insert (k, e) (set al)"
  by (induction al) auto

lemma set_delete_subset: "x \<in> set (AList.delete k al) \<Longrightarrow> x \<in> set al"
  by (induction al) (auto split: if_splits)

lemma alist_delete_map:
  "distinct (map fst al) \<Longrightarrow> distinct (map (\<lambda>(q, e). f e) al) \<Longrightarrow> (k, e) \<in> set al \<Longrightarrow>
   map (\<lambda>(q, e). f e) (AList.delete k al) = remove1 (f e) (map (\<lambda>(q, e). f e) al)"
  by (induction al) (force simp: delete_idem)+

lemma dev_inv_ptrs: "dev_inv d \<Longrightarrow> 0 \<notin> set (urb_ptrs d)"
  unfolding urb_ptrs_def dev_inv_def by (fastforce simp: list_all_iff entry_ok_def)

lemma dev_inv_entry:
  assumes "dev_inv d" "map_of (d_pending d) q = Some e"
  shows "entry_ok d q e" "en_ptr e \<in> set (map fst (d_heap d))"
proof -
  show "entry_ok d q e"
    using assms by (auto simp: dev_inv_def list_all_iff dest: map_of_SomeD)
  then show "en_ptr e \<in> set (map fst (d_heap d))"
    by (auto simp: entry_ok_def split: option.split_asm dest!: map_of_SomeD intro: rev_image_eqI)
qed

lemma unlink_step:
  assumes "dev_inv d" "unlink v q d = (b, d')"
  shows "dev_inv d' \<and> pend d' = (if pend d q = None then pend d else (pend d)(q \<mapsto> True))
    \<and> (b \<longrightarrow> pend d q \<noteq> None)"
proof (cases "map_of (d_pending d) q")
  case None
  with assms show ?thesis by (auto simp: unlink_def pend_def)
next
  case (Some e)
  note e = dev_inv_entry [OF assms(1) Some]
  define d1 where "d1 = d\<lparr>d_pending := AList.update q (e\<lparr>en_unlinked := True\<rparr>) (d_pending d),
                     d_fault := (d_fault d \<or> en_ptr e \<notin> set (map fst (d_heap d)))\<rparr>"
  have keys: "map fst (d_pending d1) = map fst (d_pending d)"
    using Some by (auto simp: d1_def update_keys dest: map_of_SomeD intro: rev_image_eqI)
  have ptrs: "urb_ptrs d1 = urb_ptrs d"
    unfolding urb_ptrs_def d1_def using alist_update_map [OF Some, of en_ptr] by simp
  have "entry_ok d1 q' e'" if "(q', e') \<in> set (d_pending d1)" for q' e'
  proof -
    have "(q', e') = (q, e\<lparr>en_unlinked := True\<rparr>) \<or> (q', e') \<in> set (d_pending d)"
      using that alist_update_set by (fastforce simp: d1_def)
    moreover have "entry_ok d1 q' e' = entry_ok d q' e'"
      by (rule entry_ok_cong) (simp add: d1_def)
    moreover have "entry_ok d q (e\<lparr>en_unlinked := True\<rparr>)"
      using e(1) by (auto simp: entry_ok_def split: option.splits)
    ultimately show ?thesis
      using assms(1) by (auto simp: dev_inv_def list_all_iff)
  qed
  then have entries: "list_all (\<lambda>(q, e). entry_ok d1 q e) (d_pending d1)"
    by (auto simp: list_all_iff)
  have fields: "d_heap d1 = d_heap d" "d_open d1 = d_open d" "d_log d1 = d_log d" "\<not> d_fault d1"
    using e(2) assms(1) by (simp_all add: d1_def dev_inv_def)
  have "d_open d" using assms(1) Some by (auto simp: dev_inv_def split: if_splits)
  with assms(1) entries fields(4) have "dev_inv d1"
    unfolding dev_inv_def keys ptrs fields(1-3) by simp
  moreover obtain a where "call v (DiscardUrb (en_ptr e)) d1 = (a, d')" "b = (rc_result a = Inr 0)"
    using assms(2) Some by (auto simp: unlink_def Let_def d1_def split: prod.split_asm)
  then have "quiet d1 d'" by (auto dest: quiet_call_eq)
  moreover have "pend d1 = (pend d)(q \<mapsto> True)"
    by (simp add: pend_def d1_def fun_eq_iff update_conv)
  moreover have "pend d q \<noteq> None" using Some by (simp add: pend_def)
  ultimately show ?thesis
    using quiet_inv [of d1 d'] quiet_pend [of d1 d'] by auto
qed

lemma reap_hit:
  assumes "dev_inv d" "d_open d" "p \<noteq> 0" "p \<in> set (in_flight (d_log d))"
  obtains q e u where "(q, e) \<in> set (d_pending d)" "en_ptr e = p" "map_of (d_pending d) q = Some e"
    "map_of (d_heap d) p = Some u" "pu_seqnum u = q" "pu_usercontext u = p"
    "pu_data_offset u \<le> length (pu_buffer u)"
proof -
  have "p \<in> set (urb_ptrs d)" using assms by (auto simp: dev_inv_def)
  then obtain q e where qe: "(q, e) \<in> set (d_pending d)" "en_ptr e = p" by (auto simp: urb_ptrs_def)
  moreover from qe assms(1) have "map_of (d_pending d) q = Some e" by (auto simp: dev_inv_def)
  moreover from qe assms(1) have "entry_ok d q e" by (auto simp: dev_inv_def list_all_iff)
  ultimately show ?thesis using that by (auto simp: entry_ok_def split: option.split_asm)
qed

lemma dev_inv_remove:
  assumes inv: "dev_inv d" and qe: "(q, e) \<in> set (d_pending d)" and e: "en_ptr e = p"
    and d': "d_pending d' = AList.delete q (d_pending d)" "d_heap d' = AList.delete p (d_heap d)"
      "d_open d' = d_open d" "in_flight (d_log d') = remove1 p (in_flight (d_log d))" "\<not> d_fault d'"
  shows "dev_inv d'"
proof -
  have ptrs: "urb_ptrs d' = remove1 p (urb_ptrs d)"
    using alist_delete_map [of "d_pending d" en_ptr q e] inv qe e
    by (simp add: urb_ptrs_def d' dev_inv_def)
  have "entry_ok d' q' e'" if "(q', e') \<in> set (d_pending d')" for q' e'
  proof -
    have "(q', e') \<in> set (d_pending d)" using that set_delete_subset by (auto simp: d')
    moreover have "en_ptr e' \<in> set (urb_ptrs d')" using that by (force simp: urb_ptrs_def)
    then have "en_ptr e' \<noteq> p" using inv by (auto simp: ptrs dev_inv_def)
    ultimately show ?thesis
      using inv by (auto simp: dev_inv_def list_all_iff entry_ok_def d' delete_conv)
  qed
  then show ?thesis
    using inv ptrs by (auto simp: dev_inv_def list_all_iff d' delete_keys distinct_removeAll
        distinct_remove1 set_remove1_eq)
qed

lemma reap_step:
  assumes "env_ok v" "dev_inv d" "reap v d = (r, d')"
  shows "dev_inv d' \<and> (case r of
      Inr (Some c) \<Rightarrow> pend d (uc_seqnum c) = Some (uc_unlinked c) \<and> pend d' = (pend d)(uc_seqnum c := None)
    | _ \<Rightarrow> pend d' = pend d)"
proof (cases "d_open d")
  case False
  with assms show ?thesis by (auto simp: reap_def call_def)
next
  case True
  show ?thesis
  proof (cases "e_kernel v (d_log d) ReapNdelay")
    case (KOk r)
    with assms(1) show ?thesis by (auto simp: env_ok_def)
  next
    case (KErr e)
    with assms(3) True have "quiet d d'" "r = (if e = EAGAIN then Inr None else Inl (errno_error e))"
      by (auto simp: reap_def call_def Let_def quiet_def)
    with assms(2) show ?thesis
      using quiet_inv [of d d'] quiet_pend [of d d'] by auto
  next
    case (KReaped p s l b)
    define d1 where "d1 = d\<lparr>d_log := (ReapNdelay, KReaped p s l b) # d_log d\<rparr>"
    have c: "call v ReapNdelay d = (KReaped p s l b, d1)"
      using True KReaped by (simp add: call_def d1_def Let_def)
    show ?thesis
    proof (cases "p = 0")
      case True
      have "0 \<notin> set (urb_ptrs d)" using assms(2) by (rule dev_inv_ptrs)
      with assms(2) \<open>d_open d\<close> have "quiet d d1"
        by (auto simp: quiet_def d1_def dev_inv_def True remove1_idem)
      with assms(2,3) c True show ?thesis
        using quiet_inv [of d d1] quiet_pend [of d d1] by (auto simp: reap_def)
    next
      case False
      then have "p \<in> set (in_flight (d_log d))"
        using assms(1) KReaped unfolding env_ok_def by (metis neq0_conv)
      from reap_hit [OF assms(2) \<open>d_open d\<close> False this] obtain q e u where
        h: "(q, e) \<in> set (d_pending d)" "en_ptr e = p" "map_of (d_pending d) q = Some e"
          "map_of (d_heap d) p = Some u" "pu_seqnum u = q" "pu_usercontext u = p"
          "pu_data_offset u \<le> length (pu_buffer u)" .
      have live: "p \<in> set (map fst (d_heap d))"
        using h(4) by (auto dest: map_of_SomeD intro: rev_image_eqI)
      have d': "r = Inr (Some (completion_of (reaped_urb u s l b) (en_unlinked e)))"
        "d_pending d' = AList.delete q (d_pending d)" "d_heap d' = AList.delete p (d_heap d)"
        "d_open d' = d_open d" "in_flight (d_log d') = remove1 p (in_flight (d_log d))" "\<not> d_fault d'"
        using assms(2,3) c False h live
        by (auto simp: reap_def d1_def Let_def free_def reaped_urb_def dev_inv_def)
      have "dev_inv d'" by (rule dev_inv_remove [OF assms(2) h(1,2) d'(2-6)])
      moreover have "uc_seqnum (completion_of (reaped_urb u s l b) (en_unlinked e)) = q"
        "uc_unlinked (completion_of (reaped_urb u s l b) (en_unlinked e)) = en_unlinked e"
        using h by (simp_all add: completion_of_def reaped_urb_def)
      ultimately show ?thesis
        using h(3) by (simp add: d'(1) pend_def d'(2) fun_eq_iff delete_conv)
    qed
  qed
qed

section \<open>Whole sessions with the device\<close>

text \<open>A call of the backend, by whichever thread.\<close>

datatype backend_op =
    Submit urb_request
  | Unlink u32
  | Reap
  | Wait
  | ClaimAll
  | ReleaseAll
  | CancelPending

fun exec_op :: "env \<Rightarrow> backend_op \<Rightarrow> usbfs_device \<Rightarrow> usbfs_device" where
  "exec_op v (Submit req) d = snd (submit v req d)"
| "exec_op v (Unlink q) d = snd (unlink v q d)"
| "exec_op v Reap d = snd (reap v d)"
| "exec_op v Wait d = snd (wait v d)"
| "exec_op v ClaimAll d = snd (claim_all v d)"
| "exec_op v ReleaseAll d = release_all v d"
| "exec_op v CancelPending d = cancel_pending v d"

text \<open>A SETUP packet is an array of eight bytes.\<close>

fun op_ok :: "backend_op \<Rightarrow> bool" where
  "op_ok (Submit req) \<longleftrightarrow> length (rq_setup req) = 8"
| "op_ok _ \<longleftrightarrow> True"

lemma drain_loop_inv: "env_ok v \<Longrightarrow> dev_inv d \<Longrightarrow> dev_inv (drain_loop v k d)"
proof (induction k arbitrary: d)
  case (Suc k)
  obtain r d' where r: "reap v d = (r, d')" by fastforce
  have d': "dev_inv d'" using reap_step [OF Suc.prems r] by simp
  moreover have "dev_inv (snd (wait v d'))" using d' quiet_inv [OF quiet_wait [of d' v]] by simp
  ultimately show ?case
    using Suc r by (auto split: sum.split option.split)
qed simp

lemma unlink_fold_inv: "dev_inv d \<Longrightarrow> dev_inv (fold (\<lambda>s d. snd (unlink v s d)) qs d)"
proof (induction qs arbitrary: d)
  case (Cons q qs)
  then show ?case using unlink_step [of d v q] by (cases "unlink v q d") auto
qed simp

lemma cancel_pending_inv: "env_ok v \<Longrightarrow> dev_inv d \<Longrightarrow> dev_inv (cancel_pending v d)"
  by (simp add: cancel_pending_def Let_def drain_loop_inv unlink_fold_inv)

lemma exec_op_inv:
  assumes "env_ok v" "dev_inv d" "op_ok x"
  shows "dev_inv (exec_op v x d)"
proof (cases x)
  case (Submit req)
  with assms submit_step [OF assms(1,2), of req] show ?thesis by (cases "submit v req d") auto
next
  case (Unlink q)
  with assms unlink_step [OF assms(2), of v q] show ?thesis by (cases "unlink v q d") auto
next
  case Reap
  with assms reap_step [OF assms(1,2)] show ?thesis by (cases "reap v d") auto
next
  case ClaimAll
  with assms quiet_inv [OF quiet_claim_loop] show ?thesis by (simp add: claim_all_def)
next
  case CancelPending
  with assms show ?thesis by (simp add: cancel_pending_inv)
qed (use assms quiet_inv [OF quiet_wait] quiet_inv [OF quiet_release_all] in simp_all)

lemma exec_ops_inv: "env_ok v \<Longrightarrow> list_all op_ok xs \<Longrightarrow> dev_inv d \<Longrightarrow> dev_inv (fold (exec_op v) xs d)"
  by (induction xs arbitrary: d) (auto intro: exec_op_inv)

text \<open>Freeing the stragglers after the descriptor is closed.\<close>

lemma free_all:
  "distinct (map f es) \<Longrightarrow> set (map f es) = set (map fst (d_heap d)) \<Longrightarrow> \<not> d_fault d \<Longrightarrow>
   d_heap (fold (\<lambda>e. free (f e)) es d) = [] \<and> \<not> d_fault (fold (\<lambda>e. free (f e)) es d)
   \<and> d_log (fold (\<lambda>e. free (f e)) es d) = d_log d \<and> d_open (fold (\<lambda>e. free (f e)) es d) = d_open d"
proof (induction es arbitrary: d)
  case (Cons e es)
  have "f e \<in> set (map fst (d_heap d))" using Cons.prems(2) by auto
  then have "\<not> d_fault (free (f e) d)" using Cons.prems(3) by (simp add: free_def)
  moreover have "set (map fst (d_heap (free (f e) d))) = set (map fst (d_heap d)) - {f e}"
    by (simp add: free_def delete_keys flip: set_map)
  then have "set (map f es) = set (map fst (d_heap (free (f e) d)))"
    unfolding Cons.prems(2) [symmetric] using Cons.prems(1) by simp
  moreover have "d_log (free (f e) d) = d_log d" "d_open (free (f e) d) = d_open d"
    by (simp_all add: free_def)
  ultimately show ?case using Cons.IH [of "free (f e) d"] Cons.prems(1) by simp
qed simp

lemma drop_device_clean:
  assumes "env_ok v" "dev_inv d"
  shows "d_heap (drop_device v d) = [] \<and> d_pending (drop_device v d) = []
    \<and> \<not> d_fault (drop_device v d) \<and> \<not> d_open (drop_device v d)"
proof -
  define d1 where "d1 = release_all v (cancel_pending v d)"
  have "dev_inv d1"
    unfolding d1_def using quiet_inv [OF quiet_release_all] cancel_pending_inv [OF assms] by simp
  moreover have "d_heap (close_fd v d1) = d_heap d1" "d_pending (close_fd v d1) = d_pending d1"
    "d_fault (close_fd v d1) = d_fault d1" "\<not> d_open (close_fd v d1)"
    by (simp_all add: close_fd_def call_def Let_def)
  ultimately show ?thesis
    using free_all [of "\<lambda>e. en_ptr (snd e)" "d_pending d1" "close_fd v d1"]
    by (simp add: drop_device_def Let_def flip: d1_def)
      (simp add: dev_inv_def urb_ptrs_def split_def)
qed

section \<open>The contract of a backend\<close>

text \<open>
  What the server relies on: an accepted submission makes exactly its sequence number
  pending, a completion is for a pending sequence number, carries its cancellation mark and
  makes it free again, cancelling marks a pending sequence number and nothing else does.
\<close>

locale urb_backend =
  fixes ok :: "'s \<Rightarrow> bool" and table :: "'s \<Rightarrow> u32 \<Rightarrow> bool option"
    and do_submit :: "urb_request \<Rightarrow> 's \<Rightarrow> (submit_error + unit) \<times> 's"
    and do_unlink :: "u32 \<Rightarrow> 's \<Rightarrow> bool \<times> 's"
    and do_reap :: "'s \<Rightarrow> (io_error + urb_completion option) \<times> 's"
  assumes submit_ok: "ok s \<Longrightarrow> length (rq_setup req) = 8 \<Longrightarrow> do_submit req s = (Inr (), s') \<Longrightarrow>
      ok s' \<and> table s (rq_seqnum req) = None \<and> table s' = (table s)(rq_seqnum req \<mapsto> False)"
    and submit_err: "ok s \<Longrightarrow> length (rq_setup req) = 8 \<Longrightarrow> do_submit req s = (Inl e, s') \<Longrightarrow>
      ok s' \<and> table s' = table s"
    and unlink_law: "ok s \<Longrightarrow> do_unlink q s = (b, s') \<Longrightarrow>
      ok s' \<and> table s' = (if table s q = None then table s else (table s)(q \<mapsto> True))
      \<and> (b \<longrightarrow> table s q \<noteq> None)"
    and reap_some: "ok s \<Longrightarrow> do_reap s = (Inr (Some c), s') \<Longrightarrow>
      ok s' \<and> table s (uc_seqnum c) = Some (uc_unlinked c) \<and> table s' = (table s)(uc_seqnum c := None)"
    and reap_none: "ok s \<Longrightarrow> do_reap s = (Inr None, s') \<Longrightarrow> ok s' \<and> table s' = table s"
    and reap_err: "ok s \<Longrightarrow> do_reap s = (Inl x, s') \<Longrightarrow> ok s' \<and> table s' = table s"
begin

definition pending :: "'s \<Rightarrow> u32 set" where
  "pending s = {q. table s q \<noteq> None}"

lemma reap_pending:
  "ok s \<Longrightarrow> do_reap s = (r, s') \<Longrightarrow>
     ok s' \<and> pending s' = (case r of Inr (Some c) \<Rightarrow> pending s - {uc_seqnum c} | _ \<Rightarrow> pending s)"
  using reap_some [of s _ s'] reap_none [of s s'] reap_err [of s _ s']
  by (auto simp: pending_def split: sum.split option.split)

lemma unlink_pending: "ok s \<Longrightarrow> do_unlink q s = (b, s') \<Longrightarrow> ok s' \<and> pending s' = pending s"
  using unlink_law [of s q b s'] by (auto simp: pending_def split: if_splits)

end

interpretation usbfs: urb_backend "\<lambda>d. env_ok v \<and> dev_inv d" pend "submit v" "unlink v" "reap v" for v
proof unfold_locales
  fix d d' req
  assume "env_ok v \<and> dev_inv d" "length (rq_setup req) = 8" "submit v req d = (Inr (), d')"
  then show "(env_ok v \<and> dev_inv d') \<and> pend d (rq_seqnum req) = None \<and> pend d' = (pend d)(rq_seqnum req \<mapsto> False)"
    using submit_step [of v d req "Inr ()" d'] by simp
next
  fix d d' req e
  assume "env_ok v \<and> dev_inv d" "length (rq_setup req) = 8" "submit v req d = (Inl e, d')"
  then show "(env_ok v \<and> dev_inv d') \<and> pend d' = pend d"
    using submit_step [of v d req "Inl e" d'] by simp
next
  fix d q b d'
  assume "env_ok v \<and> dev_inv d" "unlink v q d = (b, d')"
  then show "(env_ok v \<and> dev_inv d') \<and> pend d' = (if pend d q = None then pend d else (pend d)(q \<mapsto> True))
      \<and> (b \<longrightarrow> pend d q \<noteq> None)"
    using unlink_step [of d v q b d'] by simp
next
  fix d d' c
  assume "env_ok v \<and> dev_inv d" "reap v d = (Inr (Some c), d')"
  then show "(env_ok v \<and> dev_inv d') \<and> pend d (uc_seqnum c) = Some (uc_unlinked c) \<and> pend d' = (pend d)(uc_seqnum c := None)"
    using reap_step [of v d "Inr (Some c)" d'] by simp
next
  fix d d'
  assume "env_ok v \<and> dev_inv d" "reap v d = (Inr None, d')"
  then show "(env_ok v \<and> dev_inv d') \<and> pend d' = pend d"
    using reap_step [of v d "Inr None" d'] by simp
next
  fix d d' e
  assume "env_ok v \<and> dev_inv d" "reap v d = (Inl e, d')"
  then show "(env_ok v \<and> dev_inv d') \<and> pend d' = pend d"
    using reap_step [of v d "Inl e" d'] by simp
qed

section \<open>The order of calls\<close>

lemma call_open:
  "d_open d \<Longrightarrow> \<exists>a. snd (call v q d) = d\<lparr>d_log := (q, a) # d_log d\<rparr>"
  by (auto simp: call_def Let_def)

lemma release_fold_log:
  "d_open d \<Longrightarrow> \<exists>rs. fold (release_one v) ns d = d\<lparr>d_log := rs @ d_log d\<rparr>
     \<and> map fst rs = rev (map ReleaseInterface ns)"
proof (induction ns arbitrary: d)
  case (Cons n ns)
  obtain a where a: "release_one v n d = d\<lparr>d_log := (ReleaseInterface n, a) # d_log d\<rparr>"
    using call_open [OF Cons.prems] by (auto simp: release_one_def)
  obtain rs where "fold (release_one v) ns (release_one v n d) =
      d\<lparr>d_log := rs @ (ReleaseInterface n, a) # d_log d\<rparr>" "map fst rs = rev (map ReleaseInterface ns)"
    using Cons.IH [of "release_one v n d"] Cons.prems by (auto simp: a)
  then show ?case
    by (intro exI [of _ "rs @ [(ReleaseInterface n, a)]"]) simp
qed (simp add: exI [of _ "[]"])

lemma reconnect_loop_log:
  "d_open d \<Longrightarrow> \<exists>cs. snd (reconnect_loop v k n e d) = d\<lparr>d_log := cs @ d_log d\<rparr>
     \<and> set (map fst cs) \<subseteq> {Connect n} \<and> length cs \<le> k"
proof (induction k arbitrary: d e)
  case (Suc k)
  obtain r d1 where c: "call v (Connect n) d = (r, d1)" by fastforce
  then obtain a where a: "d1 = d\<lparr>d_log := (Connect n, a) # d_log d\<rparr>"
    using call_open [OF Suc.prems, of v "Connect n"] by auto
  have one: "\<exists>cs. d1 = d\<lparr>d_log := cs @ d_log d\<rparr> \<and> set (map fst cs) \<subseteq> {Connect n} \<and> length cs \<le> Suc k"
    by (rule exI [of _ "[(Connect n, a)]"]) (simp add: a)
  have more: "\<exists>cs. snd (reconnect_loop v k n x d1) = d\<lparr>d_log := cs @ d_log d\<rparr>
      \<and> set (map fst cs) \<subseteq> {Connect n} \<and> length cs \<le> Suc k" for x
  proof -
    obtain cs where "snd (reconnect_loop v k n x d1) = d\<lparr>d_log := cs @ (Connect n, a) # d_log d\<rparr>"
      "set (map fst cs) \<subseteq> {Connect n}" "length cs \<le> k"
      using Suc.IH [of d1 x] Suc.prems by (auto simp: a)
    then show ?thesis by (intro exI [of _ "cs @ [(Connect n, a)]"]) auto
  qed
  show ?case using one more by (auto simp: c split: sum.split)
qed (simp add: exI [of _ "[]"])

lemma reconnect_fold_log:
  "d_open d \<Longrightarrow> \<exists>cs. fold (\<lambda>n d. snd (reconnect_one v n d)) ns d = d\<lparr>d_log := cs @ d_log d\<rparr>
     \<and> set (map fst cs) \<subseteq> Connect ` set ns \<and> length cs \<le> 4 * length ns"
proof (induction ns arbitrary: d)
  case (Cons n ns)
  obtain cs where cs: "snd (reconnect_one v n d) = d\<lparr>d_log := cs @ d_log d\<rparr>"
    "set (map fst cs) \<subseteq> {Connect n}" "length cs \<le> 4"
    using reconnect_loop_log [OF Cons.prems, of v RECONNECT_ATTEMPTS n "errno_error EAGAIN"]
    by (auto simp: reconnect_one_def RECONNECT_ATTEMPTS_def)
  obtain ds where "fold (\<lambda>n d. snd (reconnect_one v n d)) ns (snd (reconnect_one v n d)) =
      d\<lparr>d_log := ds @ cs @ d_log d\<rparr>" "set (map fst ds) \<subseteq> Connect ` set ns" "length ds \<le> 4 * length ns"
    using Cons.IH [of "snd (reconnect_one v n d)"] Cons.prems by (auto simp: cs)
  with cs show ?case
    by (intro exI [of _ "ds @ cs"]) auto
qed (simp add: exI [of _ "[]"])

lemma release_all_log:
  assumes "d_open d"
  shows "\<exists>rs cs. d_log (release_all v d) = cs @ rs @ d_log d
    \<and> map fst rs = rev (map ReleaseInterface (d_claimed d))
    \<and> set (map fst cs) \<subseteq> Connect ` set (d_claimed d) \<and> length cs \<le> 4 * length (d_claimed d)
    \<and> d_claimed (release_all v d) = []"
proof (cases "d_claimed d = []")
  case True
  then show ?thesis by (simp add: release_all_def Let_def exI [of _ "[]"])
next
  case False
  let ?d0 = "d\<lparr>d_claimed := []\<rparr>"
  obtain rs where rs: "fold (release_one v) (d_claimed d) ?d0 = ?d0\<lparr>d_log := rs @ d_log d\<rparr>"
    "map fst rs = rev (map ReleaseInterface (d_claimed d))"
    using release_fold_log [of ?d0 v "d_claimed d"] assms by auto
  obtain cs where "fold (\<lambda>n d. snd (reconnect_one v n d)) (d_claimed d) (?d0\<lparr>d_log := rs @ d_log d\<rparr>) =
      ?d0\<lparr>d_log := cs @ rs @ d_log d\<rparr>"
    "set (map fst cs) \<subseteq> Connect ` set (d_claimed d)" "length cs \<le> 4 * length (d_claimed d)"
    using reconnect_fold_log [of "?d0\<lparr>d_log := rs @ d_log d\<rparr>" v "d_claimed d"] assms by auto
  with rs False show ?thesis
    by (intro exI [of _ rs] exI [of _ cs]) (simp add: release_all_def Let_def)
qed

section \<open>Draining\<close>

text \<open>A kernel that completes every cancelled URB at the next reap.\<close>

definition prompt :: "env \<Rightarrow> bool" where
  "prompt v \<longleftrightarrow> (\<forall>h. in_flight h \<noteq> [] \<and> 0 \<notin> set (in_flight h) \<longrightarrow>
     (case e_kernel v h ReapNdelay of KReaped p s l b \<Rightarrow> p \<noteq> 0 | _ \<Rightarrow> False))"

lemma length_delete:
  "distinct (map fst al) \<Longrightarrow> (k, e) \<in> set al \<Longrightarrow> Suc (length (AList.delete k al)) = length al"
  by (induction al) (force simp: delete_id)+

lemma reap_prompt:
  assumes "env_ok v" "prompt v" "dev_inv d" "d_open d" "d_pending d \<noteq> []"
  shows "\<exists>c d'. reap v d = (Inr (Some c), d') \<and> Suc (length (d_pending d')) = length (d_pending d) \<and> d_open d'"
proof -
  have "urb_ptrs d \<noteq> []" using assms(5) by (simp add: urb_ptrs_def)
  then have "in_flight (d_log d) \<noteq> []" using assms(3,4) by (auto simp: dev_inv_def)
  moreover have "0 \<notin> set (in_flight (d_log d))"
    using dev_inv_ptrs [OF assms(3)] assms(3,4) by (simp add: dev_inv_def)
  ultimately obtain p s l b where k: "e_kernel v (d_log d) ReapNdelay = KReaped p s l b" "p \<noteq> 0"
    using assms(2) unfolding prompt_def
    by (cases "e_kernel v (d_log d) ReapNdelay") (auto dest!: spec [of _ "d_log d"])
  then have "p \<in> set (in_flight (d_log d))" using assms(1) unfolding env_ok_def by (metis neq0_conv)
  from reap_hit [OF assms(3,4) k(2) this] obtain q e u where
    h: "(q, e) \<in> set (d_pending d)" "map_of (d_heap d) p = Some u" "pu_seqnum u = q" "pu_usercontext u = p"
    by metis
  have "Suc (length (AList.delete q (d_pending d))) = length (d_pending d)"
    using assms(3) h(1) by (intro length_delete) (auto simp: dev_inv_def)
  with h k assms(4) show ?thesis
    by (simp add: reap_def call_def Let_def free_def reaped_urb_def)
qed

lemma drain_prompt:
  assumes "env_ok v" "prompt v"
  shows "dev_inv d \<Longrightarrow> d_open d \<Longrightarrow> length (d_pending d) \<le> k \<Longrightarrow> d_pending (drain_loop v k d) = []"
proof (induction k arbitrary: d)
  case (Suc k)
  show ?case
  proof (cases "d_pending d = []")
    case False
    then obtain c d' where r: "reap v d = (Inr (Some c), d')"
      "Suc (length (d_pending d')) = length (d_pending d)" "d_open d'"
      using reap_prompt [OF assms Suc.prems(1,2)] by blast
    moreover have "dev_inv d'" using reap_step [OF assms(1) Suc.prems(1) r(1)] by simp
    ultimately show ?thesis using Suc False by auto
  qed simp
qed simp

lemma unlink_keeps:
  "d_open (snd (unlink v q d)) = d_open d \<and> map fst (d_pending (snd (unlink v q d))) = map fst (d_pending d)"
proof (cases "map_of (d_pending d) q")
  case (Some e)
  then have "q \<in> set (map fst (d_pending d))" by (auto dest: map_of_SomeD intro: rev_image_eqI)
  with Some show ?thesis
    by (simp add: unlink_def Let_def call_def update_keys split: prod.split)
qed (simp add: unlink_def)

lemma unlink_fold_keeps:
  "d_open (fold (\<lambda>s d. snd (unlink v s d)) qs d) = d_open d
   \<and> map fst (d_pending (fold (\<lambda>s d. snd (unlink v s d)) qs d)) = map fst (d_pending d)"
  by (induction qs arbitrary: d) (simp_all add: unlink_keeps)

lemma claim_loop_claimed:
  assumes "claim_loop v ns d = (r, d')"
  shows "set (d_claimed d) \<subseteq> set (d_claimed d') \<and> set (d_claimed d') \<subseteq> set (d_claimed d) \<union> set ns
    \<and> (r = Inr () \<longrightarrow> set ns \<subseteq> set (d_claimed d'))"
  using assms
proof (induction ns arbitrary: d)
  case (Cons n ns)
  obtain x d1 where x: "claim_one v n d = (x, d1)" by fastforce
  have "d_claimed d1 = d_claimed d"
    using x by (auto simp: claim_one_def call_def Let_def split: prod.splits sum.splits if_splits)
  moreover have "d' = d1 \<and> (\<exists>e. r = Inl e)" if "n \<notin> set (d_claimed d)" "x = Inl e" for e
    using Cons.prems x that by (cases e) auto
  moreover have "claim_loop v ns (d1\<lparr>d_claimed := d_claimed d1 @ [n]\<rparr>) = (r, d')"
    if "n \<notin> set (d_claimed d)" "x = Inr ()"
    using Cons.prems x that by simp
  moreover have "claim_loop v ns d = (r, d')" if "n \<in> set (d_claimed d)"
    using Cons.prems that by simp
  ultimately show ?case
    using Cons.IH [of d] Cons.IH [of "d1\<lparr>d_claimed := d_claimed d1 @ [n]\<rparr>"]
    by (cases "n \<in> set (d_claimed d)"; cases x) auto
qed simp

section \<open>Properties\<close>


text \<open>
  C26. Sending the interfaces back is ordered: every interface is released before any driver is
  asked to bind again, the interfaces are exactly those claimed, in the order of claiming, and
  rebinding makes at most four attempts for each of them.
\<close>

theorem release_before_reconnect:
  assumes "d_open d"
  shows "\<exists>rs cs. d_log (release_all v d) = cs @ rs @ d_log d
    \<and> map fst rs = rev (map ReleaseInterface (d_claimed d))
    \<and> set (map fst cs) \<subseteq> Connect ` set (d_claimed d) \<and> length cs \<le> 4 * length (d_claimed d)
    \<and> d_claimed (release_all v d) = []"
  using release_all_log [OF assms] by simp




text \<open>A kernel that accepts everything and completes URBs in order, and a simple allocator.\<close>

definition sample_env :: env where
  "sample_env = \<lparr>
     e_kernel = (\<lambda>h q. if q = ReapNdelay
       then (case rev (in_flight h) of [] \<Rightarrow> KErr EAGAIN | p # _ \<Rightarrow> KReaped p 0 4 [1, 2, 3, 4])
       else KOk 0),
     e_alloc = (\<lambda>ps. Suc (sum_list ps)), e_ticks = (\<lambda>h. 3)\<rparr>"

lemma sample_env_ok: "env_ok sample_env"
proof -
  have "p \<le> sum_list ps" if "p \<in> set ps" for p and ps :: "nat list"
    using that by (intro member_le_sum_list) auto
  then have "Suc (sum_list ps) \<notin> set ps" for ps :: "nat list" using Suc_n_not_le_n by blast
  moreover have "p \<in> set (in_flight h)" if "rev (in_flight h) = p # ps" for p ps h
    using arg_cong [OF that, of set] by auto
  ultimately show ?thesis
    by (auto simp: env_ok_def sample_env_def split: list.split_asm)
qed

definition sample_usbfs :: usbfs_device where
  "sample_usbfs = \<lparr>d_open = True,
     d_summary = \<lparr>sm_busnum = 3, sm_devnum = 14, sm_busid = ''3-12'', sm_sys_path = [], sm_node_path = [],
       sm_speed = Full, sm_device = ds_device sample_descriptors, sm_config_value = 1,
       sm_interfaces = list_from sample_config\<rparr>,
     d_descriptors = sample_descriptors, d_ep_types = [(0x81, URB_TYPE_INTERRUPT), (1, URB_TYPE_INTERRUPT)],
     d_caps = 0, d_max_transfer = 1024, d_pending = [], d_claimed = [], d_heap = [], d_fault = False, d_log = []\<rparr>"

definition sample_request :: "u32 \<Rightarrow> urb_request" where
  "sample_request q = \<lparr>rq_seqnum = q, rq_ep = 1, rq_dir = In, rq_transfer_flags = 0, rq_setup = replicate 8 0,
     rq_buffer_length = 64, rq_data = []\<rparr>"


theorem release_before_reconnect_witness:
  "\<exists>rs cs. d_log (release_all sample_env (sample_usbfs\<lparr>d_claimed := [0, 1]\<rparr>)) = cs @ rs
    \<and> map fst rs = [ReleaseInterface 1, ReleaseInterface 0] \<and> length cs \<le> 8"
proof -
  let ?d = "sample_usbfs\<lparr>d_claimed := [0, 1]\<rparr>"
  have "d_open ?d" "d_log ?d = []" "d_claimed ?d = [0, 1]" by (simp_all add: sample_usbfs_def)
  then show ?thesis
    using release_before_reconnect [of ?d sample_env] by fastforce
qed

definition sample_set_configuration :: urb_request where
  "sample_set_configuration = (sample_request 9)\<lparr>rq_ep := 0, rq_dir := Out, rq_setup := [0, 9, 1, 0, 0, 0, 0, 0]\<rparr>"


lemma sample_env_prompt: "prompt sample_env"
proof -
  have "\<exists>p ps. rev (in_flight h) = p # ps \<and> p \<noteq> 0" if "in_flight h \<noteq> []" "0 \<notin> set (in_flight h)" for h
    using that by (cases "rev (in_flight h)") (auto simp: rev_eq_Cons_iff)
  then show ?thesis
    by (fastforce simp: prompt_def sample_env_def)
qed

definition sample_busy :: usbfs_device where
  "sample_busy = snd (submit sample_env (sample_request 8) (snd (submit sample_env (sample_request 7) sample_usbfs)))"

lemma sample_usbfs_inv: "dev_inv sample_usbfs"
  by (simp add: dev_inv_def sample_usbfs_def urb_ptrs_def)



end
