(* ===== verification/Prefetch.thy ===== *)
theory Prefetch
  imports Usbfs
begin

text \<open>
  The prefetcher of \<open>usbfwd-server/src/prefetch.rs\<close>: an internal interrupt IN URB is kept
  queued on every interrupt IN endpoint, and a client's submission is answered with a report
  that was captured before it arrived.

  The device is any implementation of the trait \<open>UsbBackend\<close>, given as a record of its methods
  over a state of its own, so that what is proved holds for every device; \<open>usbfs_backend\<close> is the
  one the server uses. The \<open>HashMap\<close> of endpoints is an association list, in whatever order the
  map iterates. The mutex makes each method atomic.
\<close>

section \<open>The backend trait\<close>

record 's backend =
  bk_submit :: "urb_request \<Rightarrow> 's \<Rightarrow> (submit_error + unit) \<times> 's"
  bk_unlink :: "u32 \<Rightarrow> 's \<Rightarrow> bool \<times> 's"
  bk_wait :: "'s \<Rightarrow> (io_error + wake) \<times> 's"
  bk_reap :: "'s \<Rightarrow> (io_error + urb_completion option) \<times> 's"
  bk_interrupt_in_endpoints :: "'s \<Rightarrow> (u8 \<times> u16) list"
  bk_cancel_pending :: "'s \<Rightarrow> 's"

definition usbfs_backend :: "env \<Rightarrow> usbfs_device backend" where
  "usbfs_backend v = \<lparr>bk_submit = submit v, bk_unlink = unlink v, bk_wait = wait v, bk_reap = reap v,
     bk_interrupt_in_endpoints = interrupt_in_endpoints, bk_cancel_pending = cancel_pending v\<rparr>"

section \<open>State\<close>

definition INTERNAL_BASE :: u32 where "INTERNAL_BASE = 0x80000000"
definition DEPTH :: nat where "DEPTH = 4"
definition MAX_CONSECUTIVE_ERRORS :: nat where "MAX_CONSECUTIVE_ERRORS = 8"

datatype take_result = Ready "u8 list" | Waiting | PassThrough

record waiter =
  wt_seqnum :: u32
  wt_max_len :: nat

record endpoint =
  pe_number :: u8
  pe_max_packet :: nat
  pe_in_flight :: "u32 option"
  pe_captured :: "u8 list list"
  pe_waiting :: "waiter option"
  pe_errors :: nat
  pe_disabled :: bool

record inner =
  in_eps :: "(u8 \<times> endpoint) list"
  in_next_seqnum :: u32

type_synonym prefetch = "inner option"

text \<open>The client's sequence number, the status and the data of an answer.\<close>

type_synonym delivery = "(u32 \<times> int \<times> u8 list) option"

section \<open>Operations\<close>

definition prefetch_disabled :: prefetch where
  "prefetch_disabled = None"

definition new_endpoint :: "u8 \<Rightarrow> u16 \<Rightarrow> endpoint" where
  "new_endpoint address max_packet =
     \<lparr>pe_number = address AND 0x0f, pe_max_packet = unat max_packet, pe_in_flight = None,
      pe_captured = [], pe_waiting = None, pe_errors = 0, pe_disabled = False\<rparr>"

text \<open>Collecting into the \<open>HashMap\<close> keeps the last entry of an address.\<close>

definition prefetch_new :: "'s backend \<Rightarrow> bool \<Rightarrow> 's \<Rightarrow> prefetch" where
  "prefetch_new B enabled s =
     (if \<not> enabled then prefetch_disabled
      else let eps = fold (\<lambda>(a, mp). AList.update a (new_endpoint a mp)) (bk_interrupt_in_endpoints B s) []
           in if eps = [] then prefetch_disabled
              else Some \<lparr>in_eps = eps, in_next_seqnum = INTERNAL_BASE\<rparr>)"

definition owns :: "u32 \<Rightarrow> bool" where
  "owns q \<longleftrightarrow> INTERNAL_BASE \<le> q"

definition put_ep :: "u8 \<Rightarrow> endpoint \<Rightarrow> inner \<Rightarrow> inner" where
  "put_ep a ep i = i\<lparr>in_eps := AList.update a ep (in_eps i)\<rparr>"

definition arm_request :: "u32 \<Rightarrow> endpoint \<Rightarrow> urb_request" where
  "arm_request q ep =
     \<lparr>rq_seqnum = q, rq_ep = pe_number ep, rq_dir = In, rq_transfer_flags = 0,
      rq_setup = replicate 8 0, rq_buffer_length = pe_max_packet ep, rq_data = []\<rparr>"

fun arm_outcome :: "u32 \<Rightarrow> submit_error + unit \<Rightarrow> endpoint \<Rightarrow> endpoint" where
  "arm_outcome q (Inr ()) ep = ep\<lparr>pe_in_flight := Some q\<rparr>"
| "arm_outcome q (Inl (Urb st)) ep =
     (let n = pe_errors ep + 1
      in ep\<lparr>pe_errors := n, pe_disabled := pe_disabled ep \<or> MAX_CONSECUTIVE_ERRORS \<le> n\<rparr>)"
| "arm_outcome q (Inl (Handled st)) ep = ep"
| "arm_outcome q (Inl (Fatal e)) ep = ep\<lparr>pe_disabled := True\<rparr>"

definition arm_one :: "'s backend \<Rightarrow> u8 \<Rightarrow> inner \<times> 's \<Rightarrow> inner \<times> 's" where
  "arm_one B a = (\<lambda>(i, s).
     case map_of (in_eps i) a of
       None \<Rightarrow> (i, s)
     | Some ep \<Rightarrow>
         if pe_disabled ep \<or> pe_in_flight ep \<noteq> None then (i, s)
         else let q = in_next_seqnum i; (r, s') = bk_submit B (arm_request q ep) s;
                  i' = put_ep a (arm_outcome q r ep) i
              in (if r = Inr () then i'\<lparr>in_next_seqnum := max (q + 1) INTERNAL_BASE\<rparr> else i', s'))"

definition arm :: "'s backend \<Rightarrow> prefetch \<times> 's \<Rightarrow> prefetch \<times> 's" where
  "arm B = (\<lambda>(p, s). case p of
     None \<Rightarrow> (None, s)
   | Some i \<Rightarrow> (let (i', s') = fold (arm_one B) (map fst (in_eps i)) (i, s) in (Some i', s')))"

definition take_report :: "'s backend \<Rightarrow> u8 \<Rightarrow> u32 \<Rightarrow> nat \<Rightarrow> prefetch \<times> 's \<Rightarrow> take_result \<times> prefetch \<times> 's" where
  "take_report B a q max_len = (\<lambda>(p, s).
     case p of None \<Rightarrow> (PassThrough, None, s)
     | Some i \<Rightarrow> (case map_of (in_eps i) a of
         None \<Rightarrow> (PassThrough, Some i, s)
       | Some ep \<Rightarrow>
           if pe_disabled ep then (PassThrough, Some i, s)
           else let (t, ep') = (case pe_captured ep of
                      data # later \<Rightarrow> (Ready (take max_len data), ep\<lparr>pe_captured := later\<rparr>)
                    | [] \<Rightarrow> (Waiting, ep\<lparr>pe_waiting := Some \<lparr>wt_seqnum = q, wt_max_len = max_len\<rparr>\<rparr>));
                    (i', s') = arm_one B a (put_ep a ep' i, s)
                in (t, Some i', s')))"

text \<open>What a completion does to its endpoint, and the answer it owes a waiting client.\<close>

definition deliver_ep :: "int \<Rightarrow> u8 list \<Rightarrow> endpoint \<Rightarrow> delivery \<times> endpoint" where
  "deliver_ep status data ep0 =
     (let ep = ep0\<lparr>pe_in_flight := None\<rparr> in
      if status \<noteq> 0 then
        let n = pe_errors ep + 1;
            ep1 = ep\<lparr>pe_errors := n, pe_waiting := None\<rparr>;
            reply = map_option (\<lambda>w. (wt_seqnum w, status, [])) (pe_waiting ep)
        in (reply, if MAX_CONSECUTIVE_ERRORS \<le> n then ep1\<lparr>pe_disabled := True, pe_captured := []\<rparr> else ep1)
      else
        let ep1 = ep\<lparr>pe_errors := 0, pe_waiting := None\<rparr> in
        case pe_waiting ep of
          Some w \<Rightarrow> (Some (wt_seqnum w, 0, take (wt_max_len w) data), ep1)
        | None \<Rightarrow> (None, ep1\<lparr>pe_captured :=
            (if length (pe_captured ep1) = DEPTH then tl (pe_captured ep1) else pe_captured ep1) @ [data]\<rparr>))"

definition in_flight_at :: "u32 \<Rightarrow> inner \<Rightarrow> (u8 \<times> endpoint) option" where
  "in_flight_at q i = List.find (\<lambda>(a, e). pe_in_flight e = Some q) (in_eps i)"

definition deliver :: "'s backend \<Rightarrow> u32 \<Rightarrow> int \<Rightarrow> u8 list \<Rightarrow> prefetch \<times> 's \<Rightarrow> delivery \<times> prefetch \<times> 's" where
  "deliver B q status data = (\<lambda>(p, s).
     case p of None \<Rightarrow> (None, None, s)
     | Some i \<Rightarrow> (case in_flight_at q i of
         None \<Rightarrow> (None, Some i, s)
       | Some (a, ep) \<Rightarrow>
           let (reply, ep') = deliver_ep status data ep;
               (i', s') = arm_one B a (put_ep a ep' i, s)
           in (reply, Some i', s')))"

fun unlink_eps :: "u32 \<Rightarrow> (u8 \<times> endpoint) list \<Rightarrow> bool \<times> (u8 \<times> endpoint) list" where
  "unlink_eps q [] = (False, [])"
| "unlink_eps q ((a, ep) # es) =
     (if (case pe_waiting ep of Some w \<Rightarrow> wt_seqnum w = q | None \<Rightarrow> False)
      then (True, (a, ep\<lparr>pe_waiting := None\<rparr>) # es)
      else let (b, es') = unlink_eps q es in (b, (a, ep) # es'))"

definition prefetch_unlink :: "u32 \<Rightarrow> prefetch \<Rightarrow> bool \<times> prefetch" where
  "prefetch_unlink q p = (case p of
     None \<Rightarrow> (False, None)
   | Some i \<Rightarrow> let (b, es) = unlink_eps q (in_eps i) in (b, Some (i\<lparr>in_eps := es\<rparr>)))"

definition quiesce :: "endpoint \<Rightarrow> endpoint" where
  "quiesce ep = ep\<lparr>pe_disabled := True, pe_waiting := None, pe_captured := [], pe_in_flight := None\<rparr>"

fun shutdown_eps :: "'s backend \<Rightarrow> (u8 \<times> endpoint) list \<Rightarrow> 's \<Rightarrow> (u8 \<times> endpoint) list \<times> 's" where
  "shutdown_eps B [] s = ([], s)"
| "shutdown_eps B ((a, ep) # es) s =
     (let s1 = (case pe_in_flight ep of Some q \<Rightarrow> snd (bk_unlink B q s) | None \<Rightarrow> s);
          (es', s2) = shutdown_eps B es s1
      in ((a, quiesce ep) # es', s2))"

definition prefetch_shutdown :: "'s backend \<Rightarrow> prefetch \<times> 's \<Rightarrow> prefetch \<times> 's" where
  "prefetch_shutdown B = (\<lambda>(p, s). case p of
     None \<Rightarrow> (None, s)
   | Some i \<Rightarrow> let (es, s') = shutdown_eps B (in_eps i) s in (Some (i\<lparr>in_eps := es\<rparr>), s'))"

section \<open>Invariant\<close>

text \<open>
  At most four reports are held, nobody waits while one is held, internal URBs carry internal
  sequence numbers, an endpoint that gave up has no URB in flight, and the error counter stays
  below its limit while the endpoint is in use (so the \<open>u32\<close> never overflows).
\<close>

definition ep_inv :: "endpoint \<Rightarrow> bool" where
  "ep_inv ep \<longleftrightarrow> length (pe_captured ep) \<le> DEPTH
     \<and> (pe_waiting ep \<noteq> None \<longrightarrow> pe_captured ep = [])
     \<and> (case pe_in_flight ep of None \<Rightarrow> True | Some q \<Rightarrow> owns q)
     \<and> (pe_disabled ep \<longrightarrow> pe_in_flight ep = None)
     \<and> pe_errors ep \<le> MAX_CONSECUTIVE_ERRORS
     \<and> (\<not> pe_disabled ep \<longrightarrow> pe_errors ep < MAX_CONSECUTIVE_ERRORS)"

definition inner_inv :: "inner \<Rightarrow> bool" where
  "inner_inv i \<longleftrightarrow> distinct (map fst (in_eps i)) \<and> list_all (ep_inv \<circ> snd) (in_eps i)
     \<and> owns (in_next_seqnum i)"

definition prefetch_inv :: "prefetch \<Rightarrow> bool" where
  "prefetch_inv p \<longleftrightarrow> (case p of None \<Rightarrow> True | Some i \<Rightarrow> inner_inv i)"

lemma prefetch_inv_simps [simp]: "prefetch_inv None" "prefetch_inv (Some i) = inner_inv i"
  by (simp_all add: prefetch_inv_def)

lemma list_all_update:
  "list_all P xs \<Longrightarrow> P (k, v) \<Longrightarrow> list_all P (AList.update k v xs)"
  by (induction xs) auto

lemma inner_inv_put [intro]: "inner_inv i \<Longrightarrow> ep_inv ep \<Longrightarrow> inner_inv (put_ep a ep i)"
  by (simp add: inner_inv_def put_ep_def distinct_update list_all_update)

lemma inner_inv_at: "inner_inv i \<Longrightarrow> map_of (in_eps i) a = Some ep \<Longrightarrow> ep_inv ep"
  by (auto simp: inner_inv_def list_all_iff dest!: map_of_SomeD)

lemma inner_inv_bound: "inner_inv i \<Longrightarrow> map_of (in_eps i) a = Some ep \<Longrightarrow> length (pe_captured ep) \<le> DEPTH"
  using inner_inv_at by (fastforce simp: ep_inv_def)

lemma put_ep_next [simp]: "in_next_seqnum (put_ep a ep i) = in_next_seqnum i"
  by (simp add: put_ep_def)

lemma map_of_put_ep [simp]: "map_of (in_eps (put_ep a ep i)) = (map_of (in_eps i))(a \<mapsto> ep)"
  by (simp add: put_ep_def update_conv')

lemma owns_next: "owns (max (q + 1) INTERNAL_BASE)"
  by (simp add: owns_def)

lemma arm_outcome_inv:
  "ep_inv ep \<Longrightarrow> \<not> pe_disabled ep \<Longrightarrow> pe_in_flight ep = None \<Longrightarrow> owns q \<Longrightarrow> ep_inv (arm_outcome q r ep)"
  by (cases "(q, r, ep)" rule: arm_outcome.cases) (auto simp: ep_inv_def Let_def)

lemma inner_inv_next: "inner_inv i \<Longrightarrow> owns q \<Longrightarrow> inner_inv (i\<lparr>in_next_seqnum := q\<rparr>)"
  by (simp add: inner_inv_def)

lemma arm_one_inv: "inner_inv i \<Longrightarrow> inner_inv (fst (arm_one B a (i, s)))"
proof -
  assume i: "inner_inv i"
  then have o: "owns (in_next_seqnum i)" by (simp add: inner_inv_def)
  show ?thesis
  proof (cases "map_of (in_eps i) a")
    case None
    then show ?thesis using i by (simp add: arm_one_def)
  next
    case (Some ep)
    obtain r s' where r: "bk_submit B (arm_request (in_next_seqnum i) ep) s = (r, s')" by force
    show ?thesis
    proof (cases "pe_disabled ep \<or> pe_in_flight ep \<noteq> None")
      case True
      then show ?thesis using i Some by (auto simp: arm_one_def)
    next
      case False
      then have "ep_inv (arm_outcome (in_next_seqnum i) r ep)"
        using arm_outcome_inv inner_inv_at [OF i Some] o by auto
      then have "inner_inv (put_ep a (arm_outcome (in_next_seqnum i) r ep) i)" using i by blast
      then show ?thesis
        using False Some r by (auto simp: arm_one_def Let_def intro: inner_inv_next owns_next)
    qed
  qed
qed

lemma deliver_ep_inv:
  "ep_inv ep \<Longrightarrow> \<not> pe_disabled ep \<Longrightarrow> deliver_ep st data ep = (r, ep') \<Longrightarrow> ep_inv ep'"
  by (auto simp: deliver_ep_def ep_inv_def Let_def DEPTH_def MAX_CONSECUTIVE_ERRORS_def
      split: if_splits option.splits)

lemma in_flight_at_Some:
  "in_flight_at q i = Some (a, ep) \<Longrightarrow> (a, ep) \<in> set (in_eps i) \<and> pe_in_flight ep = Some q"
  by (auto simp: in_flight_at_def find_Some_iff in_set_conv_nth)

lemma in_flight_at_map_of:
  "inner_inv i \<Longrightarrow> in_flight_at q i = Some (a, ep) \<Longrightarrow>
     map_of (in_eps i) a = Some ep \<and> pe_in_flight ep = Some q \<and> \<not> pe_disabled ep"
proof -
  assume i: "inner_inv i" and f: "in_flight_at q i = Some (a, ep)"
  have "map_of (in_eps i) a = Some ep"
    using in_flight_at_Some [OF f] i by (simp add: inner_inv_def)
  moreover then have "ep_inv ep" by (rule inner_inv_at [OF i])
  ultimately show ?thesis using in_flight_at_Some [OF f] by (auto simp: ep_inv_def)
qed

lemma unlink_eps_inv:
  "unlink_eps q es = (b, es') \<Longrightarrow> map fst es' = map fst es
     \<and> (list_all (ep_inv \<circ> snd) es \<longrightarrow> list_all (ep_inv \<circ> snd) es')"
  by (induction q es arbitrary: b es' rule: unlink_eps.induct)
     (auto simp: ep_inv_def split: if_splits prod.splits)

lemma shutdown_eps_eq: "fst (shutdown_eps B es s) = map (\<lambda>(a, ep). (a, quiesce ep)) es"
  by (induction B es s rule: shutdown_eps.induct) (auto simp: Let_def split: prod.splits)

lemma quiesce_inv: "ep_inv ep \<Longrightarrow> ep_inv (quiesce ep)"
  by (simp add: ep_inv_def quiesce_def)

lemma fold_arm_inv: "inner_inv i \<Longrightarrow> inner_inv (fst (fold (arm_one B) as (i, s)))"
proof (induction as arbitrary: i s)
  case (Cons a as)
  obtain i' s' where "arm_one B a (i, s) = (i', s')" by force
  then show ?case using Cons.IH [of i' s'] arm_one_inv [OF Cons.prems, of B a s] by simp
qed simp

section \<open>Sequences of calls\<close>

datatype pf_op =
    ArmAll
  | TakeOp u8 u32 nat
  | DeliverOp u32 int "u8 list"
  | UnlinkOp u32
  | ShutdownOp

fun exec_pf :: "'s backend \<Rightarrow> pf_op \<Rightarrow> prefetch \<times> 's \<Rightarrow> prefetch \<times> 's" where
  "exec_pf B ArmAll ps = arm B ps"
| "exec_pf B (TakeOp a q n) ps = snd (take_report B a q n ps)"
| "exec_pf B (DeliverOp q st data) ps = snd (deliver B q st data ps)"
| "exec_pf B (UnlinkOp q) ps = (snd (prefetch_unlink q (fst ps)), snd ps)"
| "exec_pf B ShutdownOp ps = prefetch_shutdown B ps"

lemma ep_inv_pop: "ep_inv ep \<Longrightarrow> pe_captured ep = d # ds \<Longrightarrow> ep_inv (ep\<lparr>pe_captured := ds\<rparr>)"
  by (auto simp: ep_inv_def)

lemma ep_inv_wait: "ep_inv ep \<Longrightarrow> pe_captured ep = [] \<Longrightarrow> ep_inv (ep\<lparr>pe_waiting := w\<rparr>)"
  by (auto simp: ep_inv_def)

lemma take_report_inv: "prefetch_inv p \<Longrightarrow> prefetch_inv (fst (snd (take_report B a q n (p, s))))"
proof (cases p)
  case (Some i)
  assume "prefetch_inv p"
  then have i: "inner_inv i" using Some by simp
  show ?thesis
  proof (cases "map_of (in_eps i) a")
    case None
    then show ?thesis using Some i by (simp add: take_report_def)
  next
    case ep: (Some ep)
    note inv = inner_inv_at [OF i ep]
    show ?thesis
      using Some ep i arm_one_inv [OF inner_inv_put [OF i], of _ B a a s]
        ep_inv_pop [OF inv] ep_inv_wait [OF inv]
      by (auto simp: take_report_def Let_def split: list.split prod.split)
        (metis fst_conv)+
  qed
qed (simp add: take_report_def)

lemma deliver_inv: "prefetch_inv p \<Longrightarrow> prefetch_inv (fst (snd (deliver B q st data (p, s))))"
proof (cases p)
  case (Some i)
  assume "prefetch_inv p"
  then have i: "inner_inv i" using Some by simp
  show ?thesis
  proof (cases "in_flight_at q i")
    case None
    then show ?thesis using Some i by (simp add: deliver_def)
  next
    case fl: (Some aep)
    obtain a ep where aep: "aep = (a, ep)" by force
    obtain r ep' where d: "deliver_ep st data ep = (r, ep')" by force
    have "ep_inv ep'"
      using in_flight_at_map_of [OF i] fl aep inner_inv_at [OF i] deliver_ep_inv d by blast
    then show ?thesis
      using Some fl aep d arm_one_inv [OF inner_inv_put [OF i], of ep' B a a s]
      by (auto simp: deliver_def split: prod.split)
  qed
qed (simp add: deliver_def)

lemma unlink_inv: "prefetch_inv p \<Longrightarrow> prefetch_inv (snd (prefetch_unlink q p))"
  using unlink_eps_inv [of q]
  by (auto simp: prefetch_unlink_def inner_inv_def split: option.split prod.split)

lemma shutdown_inv: "prefetch_inv p \<Longrightarrow> prefetch_inv (fst (prefetch_shutdown B (p, s)))"
proof (cases p)
  case (Some i)
  assume "prefetch_inv p"
  then show ?thesis
    using Some shutdown_eps_eq [of B "in_eps i" s]
    by (auto simp: prefetch_shutdown_def inner_inv_def list_all_iff comp_def split_beta
        intro!: quiesce_inv)
qed (simp add: prefetch_shutdown_def)

lemma arm_inv: "prefetch_inv p \<Longrightarrow> prefetch_inv (fst (arm B (p, s)))"
  using fold_arm_inv [of _ B _ s] by (auto simp: arm_def split: option.split prod.split) (metis fst_conv)

lemma exec_pf_inv: "prefetch_inv (fst ps) \<Longrightarrow> prefetch_inv (fst (exec_pf B opn ps))"
  by (cases ps; cases opn)
     (simp_all add: arm_inv take_report_inv deliver_inv unlink_inv shutdown_inv)

lemma new_eps_inv:
  "list_all (ep_inv \<circ> snd) es \<Longrightarrow> distinct (map fst es) \<Longrightarrow>
     list_all (ep_inv \<circ> snd) (fold (\<lambda>(a, mp). AList.update a (new_endpoint a mp)) xs es)
     \<and> distinct (map fst (fold (\<lambda>(a, mp). AList.update a (new_endpoint a mp)) xs es))"
proof (induction xs arbitrary: es)
  case (Cons x xs)
  have "ep_inv (new_endpoint (fst x) (snd x))"
    by (simp add: ep_inv_def new_endpoint_def MAX_CONSECUTIVE_ERRORS_def)
  then show ?case
    using Cons.prems Cons.IH [of "AList.update (fst x) (new_endpoint (fst x) (snd x)) es"]
    by (simp add: split_beta list_all_update distinct_update)
qed simp

lemma prefetch_new_inv: "prefetch_inv (prefetch_new B en s)"
  using new_eps_inv [of "[]" "bk_interrupt_in_endpoints B s"]
  by (simp add: prefetch_new_def prefetch_disabled_def Let_def inner_inv_def owns_def)

lemma run_inv: "prefetch_inv (fst ps) \<Longrightarrow> prefetch_inv (fst (fold (exec_pf B) ops ps))"
  by (induction ops arbitrary: ps) (simp_all add: exec_pf_inv)

section \<open>The reports of one endpoint\<close>

definition ep_at :: "u8 \<Rightarrow> prefetch \<Rightarrow> endpoint option" where
  "ep_at a p = (case p of None \<Rightarrow> None | Some i \<Rightarrow> map_of (in_eps i) a)"

definition held :: "u8 \<Rightarrow> prefetch \<Rightarrow> u8 list list" where
  "held a p = (case ep_at a p of None \<Rightarrow> [] | Some ep \<Rightarrow> pe_captured ep)"

text \<open>The report an operation brings in on endpoint \<open>a\<close>, and the one it hands to a client.\<close>

fun reports_in :: "u8 \<Rightarrow> pf_op \<Rightarrow> prefetch \<times> 's \<Rightarrow> u8 list list" where
  "reports_in a (DeliverOp q st data) ps =
     (case fst ps of None \<Rightarrow> []
      | Some i \<Rightarrow> (case in_flight_at q i of None \<Rightarrow> []
                    | Some (b, ep) \<Rightarrow> if b = a \<and> st = 0 then [data] else []))"
| "reports_in a _ ps = []"

fun answers_out :: "'s backend \<Rightarrow> u8 \<Rightarrow> pf_op \<Rightarrow> prefetch \<times> 's \<Rightarrow> u8 list list" where
  "answers_out B a (TakeOp b q n) ps =
     (case fst (take_report B b q n ps) of Ready d \<Rightarrow> if b = a then [d] else [] | _ \<Rightarrow> [])"
| "answers_out B a (DeliverOp q st data) ps =
     (case fst (deliver B q st data ps) of None \<Rightarrow> []
      | Some (w, st', d) \<Rightarrow> if st' = 0 \<and> Option.bind (fst ps) (\<lambda>i. map_option fst (in_flight_at q i)) = Some a
                         then [d] else [])"
| "answers_out B a _ ps = []"

fun pf_trace :: "'s backend \<Rightarrow> u8 \<Rightarrow> pf_op list \<Rightarrow> prefetch \<times> 's \<Rightarrow> u8 list list \<times> u8 list list" where
  "pf_trace B a [] ps = ([], [])"
| "pf_trace B a (opn # ops) ps =
     (let (ins, outs) = pf_trace B a ops (exec_pf B opn ps)
      in (reports_in a opn ps @ ins, answers_out B a opn ps @ outs))"

lemma arm_outcome_keeps [simp]:
  "pe_captured (arm_outcome q r ep) = pe_captured ep" "pe_waiting (arm_outcome q r ep) = pe_waiting ep"
  by (cases "(q, r, ep)" rule: arm_outcome.cases; simp add: Let_def)+

lemma arm_one_at:
  "map_option pe_captured (map_of (in_eps (fst (arm_one B a is))) b) = map_option pe_captured (map_of (in_eps (fst is)) b)
   \<and> map_option pe_waiting (map_of (in_eps (fst (arm_one B a is))) b) = map_option pe_waiting (map_of (in_eps (fst is)) b)"
  by (cases "is") (auto simp: arm_one_def Let_def split: option.split prod.split)

lemma held_conv: "held a p = (case Option.bind p (\<lambda>i. map_option pe_captured (map_of (in_eps i) a)) of
    None \<Rightarrow> [] | Some c \<Rightarrow> c)"
  by (simp add: held_def ep_at_def split: option.split bind_splits)

lemma held_Some: "held a (Some i) = (case map_option pe_captured (map_of (in_eps i) a) of None \<Rightarrow> [] | Some c \<Rightarrow> c)"
  by (simp add: held_conv)

lemma held_arm_one: "held b (Some (fst (arm_one B a is))) = held b (Some (fst is))"
  by (simp add: held_Some arm_one_at)

lemma held_put: "held b (Some (put_ep a ep i)) = (if b = a then pe_captured ep else held b (Some i))"
  by (simp add: held_Some)

lemma held_arm: "held b (fst (arm B ps)) = held b (fst ps)"
proof -
  have "held b (Some (fst (fold (arm_one B) as is))) = held b (Some (fst is))" for as "is"
    by (induction as arbitrary: "is") (simp_all add: held_arm_one)
  then show ?thesis
    by (cases ps) (auto simp: arm_def split: option.split prod.split, metis fst_conv)
qed

lemma unlink_eps_captured:
  "map_option pe_captured (map_of (snd (unlink_eps q es)) a) = map_option pe_captured (map_of es a)"
  by (induction q es rule: unlink_eps.induct) (auto simp: Let_def split: prod.split option.split)

lemma held_None [simp]: "held a None = []"
  by (simp add: held_conv)

lemma held_unlink: "held a (snd (prefetch_unlink q p)) = held a p"
proof (cases p)
  case (Some i)
  obtain b es where "unlink_eps q (in_eps i) = (b, es)" by force
  then show ?thesis
    using Some unlink_eps_captured [of q "in_eps i" a] by (simp add: prefetch_unlink_def held_Some)
qed (simp add: prefetch_unlink_def)

lemma quiesce_captured [simp]: "pe_captured (quiesce ep) = []"
  by (simp add: quiesce_def)

lemma map_of_quiesce: "map_of (map (\<lambda>(a, ep). (a, quiesce ep)) es) a = map_option quiesce (map_of es a)"
  by (induction es) auto

lemma held_shutdown: "held a (fst (prefetch_shutdown B ps)) = []"
proof (cases ps)
  case (Pair p s)
  show ?thesis
  proof (cases p)
    case None
    then show ?thesis using Pair by (simp add: prefetch_shutdown_def)
  next
    case (Some i)
    obtain es s' where e: "shutdown_eps B (in_eps i) s = (es, s')" by force
    then have "es = map (\<lambda>(a, ep). (a, quiesce ep)) (in_eps i)"
      using shutdown_eps_eq [of B "in_eps i" s] by simp
    then show ?thesis
      using Pair Some e
      by (simp add: prefetch_shutdown_def held_Some map_of_quiesce option.map_comp comp_def
          split: option.split)
  qed
qed

text \<open>
  One step: what goes out, followed by what is held afterwards, was held before or came in, in
  that order, and what is held afterwards is the end of it.
\<close>

definition in_order :: "u8 list list \<Rightarrow> u8 list list \<Rightarrow> u8 list list \<Rightarrow> u8 list list \<Rightarrow> bool" where
  "in_order before ins outs after \<longleftrightarrow>
     (\<exists>us. list_all2 prefix outs us \<and> subseq (us @ after) (before @ ins) \<and> suffix after (before @ ins))"

lemma in_order_refl: "in_order h [] [] h"
  by (simp add: in_order_def)

lemma in_order_clear: "in_order h ins [] []"
  by (simp add: in_order_def)

lemma in_order_pop: "in_order (d # ds) [] [take n d] ds"
  unfolding in_order_def by (rule exI [of _ "[d]"]) (auto simp: take_is_prefix suffix_def)

lemma in_order_direct: "in_order [] [d] [take n d] []"
  unfolding in_order_def by (rule exI [of _ "[d]"]) (auto simp: take_is_prefix)

lemma take_report_order:
  assumes "take_report B b q n (p, s) = (t, p', s')"
  shows "in_order (held a p) [] (case t of Ready d \<Rightarrow> if b = a then [d] else [] | _ \<Rightarrow> []) (held a p')"
proof (cases "\<exists>i ep. p = Some i \<and> map_of (in_eps i) b = Some ep \<and> \<not> pe_disabled ep")
  case False
  then have "t = PassThrough \<and> p' = p"
    using assms by (auto simp: take_report_def split: option.splits if_splits)
  then show ?thesis by (simp add: in_order_refl)
next
  case True
  then obtain i ep where p: "p = Some i" and ep: "map_of (in_eps i) b = Some ep" and dis: "\<not> pe_disabled ep"
    by blast
  show ?thesis
  proof (cases "pe_captured ep")
    case Nil
    define ep' where "ep' = ep\<lparr>pe_waiting := Some \<lparr>wt_seqnum = q, wt_max_len = n\<rparr>\<rparr>"
    have "t = Waiting \<and> p' = Some (fst (arm_one B b (put_ep b ep' i, s)))"
      using assms p ep dis Nil by (auto simp: take_report_def ep'_def split: prod.splits)
    moreover have "held a (Some (put_ep b ep' i)) = held a (Some i)"
      using Nil ep by (simp add: held_put ep'_def) (simp add: held_Some)
    ultimately show ?thesis using p by (simp add: held_arm_one in_order_refl)
  next
    case (Cons d ds)
    have r: "t = Ready (take n d) \<and> p' = Some (fst (arm_one B b (put_ep b (ep\<lparr>pe_captured := ds\<rparr>) i, s)))"
      using assms p ep dis Cons by (auto simp: take_report_def split: prod.splits)
    have "held b (Some i) = d # ds" using ep Cons by (simp add: held_Some)
    then show ?thesis
      using r p by (auto simp: held_arm_one held_put in_order_pop in_order_refl)
  qed
qed

lemma deliver_ep_order:
  assumes "ep_inv ep" "deliver_ep st data ep = (r, ep')"
  shows "in_order (pe_captured ep) (if st = 0 then [data] else [])
     (case r of None \<Rightarrow> [] | Some (w, st', d) \<Rightarrow> if st' = 0 then [d] else []) (pe_captured ep')"
proof (cases "st = 0")
  case False
  then show ?thesis using assms
    by (auto simp: deliver_ep_def Let_def in_order_refl in_order_clear split: option.splits if_splits)
next
  case True
  show ?thesis
  proof (cases "pe_waiting ep")
    case None
    have c: "r = None \<and> pe_captured ep' =
        (if length (pe_captured ep) = DEPTH then tl (pe_captured ep) else pe_captured ep) @ [data]"
      using assms True None by (auto simp: deliver_ep_def Let_def)
    have "suffix (tl xs @ ys) (xs @ ys)" for xs ys :: "u8 list list"
      by (cases xs) (auto simp: suffix_def)
    then show ?thesis using c True
      by (auto simp: in_order_def intro: suffix_imp_subseq)
  next
    case (Some w)
    then have "pe_captured ep = []" using assms by (simp add: ep_inv_def)
    then show ?thesis using assms True Some
      by (auto simp: deliver_ep_def Let_def in_order_direct)
  qed
qed

lemma deliver_order:
  assumes "prefetch_inv p" "deliver B q st data (p, s) = (r, p', s')"
  shows "in_order (held a p) (reports_in a (DeliverOp q st data) (p, s))
    (answers_out B a (DeliverOp q st data) (p, s)) (held a p')"
proof (cases "\<exists>i b ep. p = Some i \<and> in_flight_at q i = Some (b, ep)")
  case False
  then have "r = None" "p' = p" "reports_in a (DeliverOp q st data) (p, s) = []"
    using assms(2) by (auto simp: deliver_def split: option.splits)
  then show ?thesis using assms(2) by (simp add: in_order_refl)
next
  case True
  then obtain i b ep where p: "p = Some i" and fl: "in_flight_at q i = Some (b, ep)" by blast
  have i: "inner_inv i" using assms(1) p by simp
  have ep: "map_of (in_eps i) b = Some ep" and inv: "ep_inv ep"
    using in_flight_at_map_of [OF i fl] inner_inv_at [OF i] by auto
  obtain ep' where d: "deliver_ep st data ep = (r, ep')"
    and p': "p' = Some (fst (arm_one B b (put_ep b ep' i, s)))"
    using assms(2) p fl by (auto simp: deliver_def split: prod.splits)
  have "held b p = pe_captured ep" using p ep by (simp add: held_Some)
  then show ?thesis
    using deliver_ep_order [OF inv d] assms(2) p p' fl
    by (cases "a = b") (auto simp: held_arm_one held_put in_order_refl split: option.splits)
qed

lemma exec_pf_order:
  assumes "prefetch_inv (fst ps)"
  shows "in_order (held a (fst ps)) (reports_in a opn ps) (answers_out B a opn ps) (held a (fst (exec_pf B opn ps)))"
proof (cases ps)
  case (Pair p s)
  show ?thesis
  proof (cases opn)
    case ArmAll
    then show ?thesis by (simp add: held_arm in_order_refl)
  next
    case (TakeOp b q n)
    obtain t p' s' where "take_report B b q n (p, s) = (t, p', s')" by (metis prod.exhaust_sel)
    then show ?thesis using take_report_order TakeOp Pair by fastforce
  next
    case (DeliverOp q st data)
    obtain r p' s' where "deliver B q st data (p, s) = (r, p', s')" by (metis prod.exhaust_sel)
    then show ?thesis using deliver_order [of p B q st data s r p' s' a] assms DeliverOp Pair by simp
  next
    case (UnlinkOp q)
    then show ?thesis by (simp add: held_unlink in_order_refl)
  next
    case ShutdownOp
    then show ?thesis by (simp add: held_shutdown in_order_clear)
  qed
qed

lemma in_order_trans:
  assumes "in_order h ins outs h1" "in_order h1 ins' outs' h2"
  shows "in_order h (ins @ ins') (outs @ outs') h2"
proof -
  obtain us vs where u: "list_all2 prefix outs us" "subseq (us @ h1) (h @ ins)" "suffix h1 (h @ ins)"
    and v: "list_all2 prefix outs' vs" "subseq (vs @ h2) (h1 @ ins')" "suffix h2 (h1 @ ins')"
    using assms by (auto simp: in_order_def)
  have "subseq (us @ vs @ h2) (us @ h1 @ ins')"
    using list_emb_append_mono [OF _ v(2), of us us] by simp
  also have "subseq (us @ h1 @ ins') (h @ ins @ ins')"
    using list_emb_append_mono [OF u(2), of ins' ins'] by simp
  finally have "subseq ((us @ vs) @ h2) (h @ ins @ ins')" by simp
  moreover have "suffix h2 (h @ ins @ ins')"
  proof -
    have "suffix (h1 @ ins') ((h @ ins) @ ins')" using u(3) by (auto simp: suffix_def)
    then show ?thesis using v(3) suffix_order.trans by fastforce
  qed
  moreover have "list_all2 prefix (outs @ outs') (us @ vs)"
    using u(1) v(1) by (simp add: list_all2_appendI)
  ultimately show ?thesis by (auto simp: in_order_def)
qed

lemma pf_trace_order:
  "prefetch_inv (fst ps) \<Longrightarrow> pf_trace B a ops ps = (ins, outs) \<Longrightarrow>
     in_order (held a (fst ps)) ins outs (held a (fst (fold (exec_pf B) ops ps)))"
proof (induction ops arbitrary: ps ins outs)
  case (Cons opn ops)
  obtain i o' where t: "pf_trace B a ops (exec_pf B opn ps) = (i, o')" by force
  show ?case
    using in_order_trans [OF exec_pf_order [OF Cons.prems(1)] Cons.IH [OF exec_pf_inv [OF Cons.prems(1)] t]]
      Cons.prems(2) t by simp
qed (simp add: in_order_refl)

section \<open>Properties\<close>

text \<open>
  C16. Reports are handed to the client in the order the device produced them and none twice:
  on every endpoint and for every sequence of calls, each answer is (a prefix of) a report of its
  own, those reports followed by the ones still held are a subsequence of the reports that came in,
  and the ones still held are the last ones that came in, four at most.
\<close>

theorem prefetch_in_order:
  "let ps = (prefetch_new B en s, s); (ins, outs) = pf_trace B a ops ps;
       h = held a (fst (fold (exec_pf B) ops ps))
   in length h \<le> DEPTH \<and> suffix h ins \<and> (\<exists>us. list_all2 prefix outs us \<and> subseq (us @ h) ins)"
proof -
  define ps where "ps = (prefetch_new B en s, s)"
  obtain ins outs where t: "pf_trace B a ops ps = (ins, outs)" by force
  have inv: "prefetch_inv (fst ps)" by (simp add: ps_def prefetch_new_inv)
  have "held a (fst ps) = []"
  proof -
    have "list_all (\<lambda>x. pe_captured (snd x) = []) (fold (\<lambda>(a, mp). AList.update a (new_endpoint a mp)) xs es)"
      if "list_all (\<lambda>x. pe_captured (snd x) = []) es" for xs es
      using that
    proof (induction xs arbitrary: es)
      case (Cons x xs)
      then show ?case by (simp add: split_beta list_all_update new_endpoint_def)
    qed simp
    from this [of "[]" "bk_interrupt_in_endpoints B s"] show ?thesis
      by (auto simp: ps_def prefetch_new_def prefetch_disabled_def held_Some Let_def list_all_iff
          split: option.split dest!: map_of_SomeD)
  qed
  moreover have "length (held a (fst (fold (exec_pf B) ops ps))) \<le> DEPTH"
    using run_inv [OF inv, of B ops]
    by (auto simp: held_def ep_at_def inner_inv_bound split: option.split)
  ultimately show ?thesis
    using pf_trace_order [OF inv t] t by (auto simp: Let_def in_order_def simp flip: ps_def)
qed

text \<open>
  Whatever calls are made and whatever the device answers, the bookkeeping stays sound: no
  endpoint holds more than four reports, nobody waits while a report is held, every internal URB
  has a sequence number of the internal range, also after the counter wraps, and an endpoint that
  gave up has nothing in flight and is never armed again.
\<close>

theorem prefetch_bookkeeping:
  "prefetch_inv (fst (fold (exec_pf B) ops (prefetch_new B en s, s)))"
  by (rule run_inv) (simp add: prefetch_new_inv)

text \<open>
  A client can be left waiting with nothing in flight: when an endpoint has no captured report
  and no URB in flight and the device refuses the one that \<open>take\<close> submits, the answer is still
  \<open>Waiting\<close>, and no completion of any other URB ever touches that endpoint again.
\<close>

theorem take_waits_unarmed:
  assumes "inner_inv i" "map_of (in_eps i) a = Some ep" "\<not> pe_disabled ep"
    "pe_captured ep = []" "pe_in_flight ep = None"
    "bk_submit B (arm_request (in_next_seqnum i) ep) s = (Inl (Urb e), s')"
  shows "\<exists>p' ep'. take_report B a q n (Some i, s) = (Waiting, p', s') \<and> ep_at a p' = Some ep'
    \<and> pe_waiting ep' = Some \<lparr>wt_seqnum = q, wt_max_len = n\<rparr> \<and> pe_in_flight ep' = None
    \<and> (\<forall>q' st data s''. ep_at a (fst (snd (deliver B q' st data (p', s'')))) = Some ep')"
proof -
  define ep1 where "ep1 = ep\<lparr>pe_waiting := Some \<lparr>wt_seqnum = q, wt_max_len = n\<rparr>\<rparr>"
  define ep' where "ep' = arm_outcome (in_next_seqnum i) (Inl (Urb e)) ep1"
  define i' where "i' = put_ep a ep' (put_ep a ep1 i)"
  have req: "arm_request k ep1 = arm_request k ep" for k by (simp add: arm_request_def ep1_def)
  have en: "\<not> pe_disabled ep1" "pe_in_flight ep1 = None" using assms by (simp_all add: ep1_def)
  have arm: "arm_one B a (put_ep a ep1 i, s) = (i', s')"
    using assms(6) en by (simp add: arm_one_def req i'_def ep'_def Let_def del: arm_outcome.simps)
  have t: "take_report B a q n (Some i, s) = (Waiting, Some i', s')"
    using assms arm by (simp add: take_report_def ep1_def)
  have inv: "inner_inv i'"
    using take_report_inv [of "Some i" B a q n s] t assms(1) by simp
  have at: "map_of (in_eps i') a = Some ep'" by (simp add: i'_def)
  have idle: "pe_in_flight ep' = None" using en by (simp add: ep'_def Let_def)
  have stay: "ep_at a (fst (snd (deliver B q' st data (Some i', s'')))) = Some ep'" for q' st data s''
  proof (cases "in_flight_at q' i'")
    case None
    then show ?thesis using at by (simp add: deliver_def ep_at_def)
  next
    case (Some bx)
    obtain b x where bx: "bx = (b, x)" by force
    then have "b \<noteq> a" using in_flight_at_map_of [OF inv, of q' b x] Some at idle by auto
    then show ?thesis
      using Some bx at by (auto simp: deliver_def ep_at_def arm_one_def Let_def split: prod.split option.split)
  qed
  have "ep_at a (Some i') = Some ep'" "pe_waiting ep' = Some \<lparr>wt_seqnum = q, wt_max_len = n\<rparr>"
    using at by (simp_all add: ep_at_def ep'_def ep1_def Let_def)
  then show ?thesis using t idle stay by blast
qed

text \<open>A device with one interrupt IN endpoint that refuses every URB.\<close>

definition refusing_backend :: "unit backend" where
  "refusing_backend = \<lparr>bk_submit = (\<lambda>req s. (Inl (Urb (- EBUSY)), s)), bk_unlink = (\<lambda>q s. (False, s)),
     bk_wait = (\<lambda>s. (Inr \<lparr>wk_ready = False, wk_gone = False\<rparr>, s)), bk_reap = (\<lambda>s. (Inr None, s)),
     bk_interrupt_in_endpoints = (\<lambda>s. [(0x81, 64)]), bk_cancel_pending = (\<lambda>s. s)\<rparr>"

definition refused_inner :: inner where
  "refused_inner = \<lparr>in_eps = [(0x81, new_endpoint 0x81 64)], in_next_seqnum = INTERNAL_BASE\<rparr>"

theorem take_waits_unarmed_witness:
  "\<exists>p' ep'. take_report refusing_backend 0x81 7 64 (Some refused_inner, ()) = (Waiting, p', ())
    \<and> ep_at 0x81 p' = Some ep' \<and> pe_waiting ep' = Some \<lparr>wt_seqnum = 7, wt_max_len = 64\<rparr>
    \<and> pe_in_flight ep' = None
    \<and> (\<forall>q' st data s''. ep_at 0x81 (fst (snd (deliver refusing_backend q' st data (p', s'')))) = Some ep')"
proof (rule take_waits_unarmed)
  show "inner_inv refused_inner"
    by (simp add: inner_inv_def refused_inner_def ep_inv_def new_endpoint_def owns_def MAX_CONSECUTIVE_ERRORS_def)
  show "map_of (in_eps refused_inner) 0x81 = Some (new_endpoint 0x81 64)" by (simp add: refused_inner_def)
  show "bk_submit refusing_backend (arm_request (in_next_seqnum refused_inner) (new_endpoint 0x81 64)) () =
      (Inl (Urb (- EBUSY)), ())" by (simp add: refusing_backend_def)
qed (simp_all add: new_endpoint_def)

end
