(* ===== verification/Hidraw.thy ===== *)
theory Hidraw
  imports Backend "HOL-Library.List_Lexorder" "HOL-Library.Char_ord"
begin

text \<open>
  The read-only tap on a device's \<open>hidraw\<close> nodes, \<open>usb-backend/src/hidraw.rs\<close>. The file system,
  the outcome of opening a node, of each \<open>poll\<close> and of each \<open>read\<close> are inputs.
\<close>

definition MAX_REPORT :: nat where "MAX_REPORT = 256"

definition read_dir_sorted :: "fs \<Rightarrow> string \<Rightarrow> io_error + string list" where
  "read_dir_sorted f dir = rbind (fs_read_dir f dir) (\<lambda>es. Inr (sort (List.map_filter id es)))"

definition or_default :: "'e + 'a list \<Rightarrow> 'a list" where
  "or_default r = (case r of Inl e \<Rightarrow> [] | Inr xs \<Rightarrow> xs)"

text \<open>The nodes below one HID device directory, then below one interface directory.\<close>

definition hid_nodes :: "fs \<Rightarrow> string \<Rightarrow> string list" where
  "hid_nodes f hid =
     map (\<lambda>n. ''/dev/'' @ n)
       (filter (\<lambda>n. starts_with n ''hidraw'') (or_default (read_dir_sorted f (hid @ ''/hidraw''))))"

definition iface_nodes :: "fs \<Rightarrow> string \<Rightarrow> string list" where
  "iface_nodes f iface =
     concat (map (\<lambda>h. hid_nodes f (iface @ ''/'' @ h)) (or_default (read_dir_sorted f iface)))"

definition nodes_for_busid :: "fs \<Rightarrow> string \<Rightarrow> io_error + string list" where
  "nodes_for_busid f busid =
     (if \<not> is_valid_busid busid then Inl (Io InvalidInput ''is not a usable sysfs bus id'')
      else let root = SYSFS_USB_DEVICES @ ''/'' @ busid in
        rbind (read_dir_sorted f root) (\<lambda>names.
          Inr (concat (map (\<lambda>n. iface_nodes f (root @ ''/'' @ n))
            (filter (\<lambda>n. starts_with n (busid @ '':'')) names)))))"

text \<open>A tap is the list of nodes it holds open.\<close>

type_synonym tap = "string list"

fun tap_open :: "(string \<Rightarrow> io_error option) \<Rightarrow> string list \<Rightarrow> tap \<times> (string \<times> io_error) list" where
  "tap_open opn [] = ([], [])"
| "tap_open opn (p # ps) =
     (let (files, errors) = tap_open opn ps
      in case opn p of None \<Rightarrow> (p # files, errors) | Some e \<Rightarrow> (files, (p, e) # errors))"

text \<open>
  One \<open>poll\<close> either fails, with the errno and whether the deadline has passed by then, or
  returns for each file whether it is gone and whether it is readable; no file at all is a
  time-out. One \<open>read\<close> returns bytes or one of the three kinds of error the code tells apart.
\<close>

datatype poll_result = PollFailed int bool | PollReady "(bool \<times> bool) list"

datatype node_read = GotBytes "u8 list" | WouldBlock | Interrupted | Broken

fun poll_loop :: "poll_result list \<Rightarrow> io_error + (bool \<times> bool) list" where
  "poll_loop [] = Inr []"
| "poll_loop (PollReady rs # ps) = Inr rs"
| "poll_loop (PollFailed errno late # ps) =
     (if errno = 4 then if late then Inr [] else poll_loop ps
      else Inl (Io (Os errno) []))"

fun drain_node :: "node_read list \<Rightarrow> u8 list list option" where
  "drain_node [] = Some []"
| "drain_node (GotBytes b # rs) =
     (if b = [] then Some [] else map_option (Cons (take MAX_REPORT b)) (drain_node rs))"
| "drain_node (WouldBlock # rs) = Some []"
| "drain_node (Interrupted # rs) = drain_node rs"
| "drain_node (Broken # rs) = None"

fun tap_drain :: "((bool \<times> bool) \<times> node_read list) list \<Rightarrow> u8 list list option" where
  "tap_drain [] = Some []"
| "tap_drain (((gone, readable), rr) # fs) =
     (if gone then None
      else if \<not> readable then tap_drain fs
      else Option.bind (drain_node rr) (\<lambda>xs. map_option (append xs) (tap_drain fs)))"

definition tap_read :: "poll_result list \<Rightarrow> (string \<Rightarrow> node_read list) \<Rightarrow> tap \<Rightarrow> io_error + u8 list list option" where
  "tap_read polls rds t =
     (if t = [] then Inr None
      else rbind (poll_loop polls) (\<lambda>revents.
        Inr (if revents = [] then Some [] else tap_drain (zip revents (map rds t)))))"

section \<open>Properties\<close>

lemma tap_open_nodes: "tap_open opn ps = (t, errs) \<Longrightarrow>
    t = filter (\<lambda>p. opn p = None) ps \<and> map fst errs = filter (\<lambda>p. opn p \<noteq> None) ps"
  by (induction opn ps arbitrary: t errs rule: tap_open.induct)
     (auto split: prod.splits option.splits)

lemma drain_node_bounded: "drain_node rs = Some xs \<Longrightarrow> list_all (\<lambda>r. r \<noteq> [] \<and> length r \<le> MAX_REPORT) xs"
  by (induction rs arbitrary: xs rule: drain_node.induct)
     (auto simp: MAX_REPORT_def split: if_splits)

lemma tap_drain_bounded: "tap_drain fs = Some xs \<Longrightarrow> list_all (\<lambda>r. r \<noteq> [] \<and> length r \<le> MAX_REPORT) xs"
  by (induction fs arbitrary: xs rule: tap_drain.induct)
     (auto split: if_splits bind_splits dest: drain_node_bounded)

lemma nodes_in_dev: "nodes_for_busid f b = Inr ns \<Longrightarrow>
    is_valid_busid b \<and> list_all (\<lambda>n. starts_with n ''/dev/hidraw'') ns"
  by (auto simp: nodes_for_busid_def rbind_Inr_iff Let_def list_all_iff iface_nodes_def hid_nodes_def
      starts_with_def split: if_splits)

text \<open>
  A tap never reads an oversized report and only opens \<open>hidraw\<close> nodes: nodes are looked up
  only below a well-formed bus id and all lie under \<open>/dev/hidraw\<close>, a tap holds exactly those that
  could be opened, every other one is reported with its error, and every report it returns is
  non-empty and at most 256 bytes long.
\<close>

theorem hidraw_tap_confined:
  assumes "nodes_for_busid f busid = Inr ns" "tap_open opn ns = (t, errs)"
    and "tap_read polls rds t = Inr (Some reports)"
  shows "is_valid_busid busid \<and> list_all (\<lambda>n. starts_with n ''/dev/hidraw'' \<and> opn n = None) t
    \<and> map fst errs = filter (\<lambda>n. opn n \<noteq> None) ns
    \<and> list_all (\<lambda>r. r \<noteq> [] \<and> length r \<le> MAX_REPORT) reports"
  using nodes_in_dev [OF assms(1)] tap_open_nodes [OF assms(2)] assms(3)
  by (auto simp: tap_read_def rbind_Inr_iff list_all_iff dest!: tap_drain_bounded split: if_splits)

definition sample_hid_fs :: fs where
  "sample_hid_fs = \<lparr>fs_read_to_string = (\<lambda>p. None), fs_read = (\<lambda>p. Inl (Io NotFound [])),
     fs_exists = (\<lambda>p. False),
     fs_read_dir = (\<lambda>p.
       if p = ''/sys/bus/usb/devices/3-3'' then Inr [Some ''3-3:1.2'', None, Some ''power'']
       else if p = ''/sys/bus/usb/devices/3-3/3-3:1.2'' then Inr [Some ''0003:28DE:1205.0003'']
       else if p = ''/sys/bus/usb/devices/3-3/3-3:1.2/0003:28DE:1205.0003/hidraw''
       then Inr [Some ''hidraw3'', Some ''hidraw4''] else Inl (Io NotFound [])),
     fs_read_link = (\<lambda>p. None)\<rparr>"

lemma sample_hid_nodes: "nodes_for_busid sample_hid_fs ''3-3'' = Inr [''/dev/hidraw3'', ''/dev/hidraw4'']"
  by (simp add: nodes_for_busid_def sample_hid_fs_def is_valid_busid_def ascii_alphanumeric_def Let_def
      read_dir_sorted_def iface_nodes_def hid_nodes_def or_default_def starts_with_def SYSFS_USB_DEVICES_def
      map_filter_simps)

theorem hidraw_tap_confined_witness:
  "is_valid_busid ''3-3'' \<and> list_all (\<lambda>n. starts_with n ''/dev/hidraw'' \<and> (n \<noteq> ''/dev/hidraw3'')) [''/dev/hidraw4'']
    \<and> list_all (\<lambda>r. r \<noteq> [] \<and> length r \<le> MAX_REPORT) [[1, 2 :: u8]]"
proof -
  let ?opn = "\<lambda>n. if n = ''/dev/hidraw3'' then Some (Io PermissionDenied []) else None"
  have "tap_open ?opn [''/dev/hidraw3'', ''/dev/hidraw4''] =
      ([''/dev/hidraw4''], [(''/dev/hidraw3'', Io PermissionDenied [])])" by simp
  moreover have "tap_read [PollFailed 4 False, PollReady [(False, True)]]
      (\<lambda>p. [Interrupted, GotBytes [1, 2], WouldBlock]) [''/dev/hidraw4''] = Inr (Some [[1, 2]])"
    by (simp add: tap_read_def MAX_REPORT_def)
  ultimately show ?thesis
    using hidraw_tap_confined [OF sample_hid_nodes] by fastforce
qed

end
