(* ===== verification/Chord.thy ===== *)
theory Chord
  imports Device_Filter
begin

text \<open>
  \<^verbatim>\<open>usbfwd-server/src/chord.rs\<close>: recognising a button chord in input reports. An
  \<open>Instant\<close> is the number of nanoseconds since some origin, and \<open>duration_since\<close>
  saturates at zero, as the subtraction of naturals does.
\<close>

section \<open>Reports\<close>

definition DECK_STATE :: u8 where "DECK_STATE = 0x09"
definition BUTTONS_AT :: nat where "BUTTONS_AT = 8"
definition MIN_REPORT :: nat where "MIN_REPORT = BUTTONS_AT + 8"

definition BUTTONS :: "(string \<times> nat) list" where
  "BUTTONS =
     [(''r2'', 0), (''l2'', 1), (''r1'', 2), (''l1'', 3), (''y'', 4), (''b'', 5), (''x'', 6),
      (''a'', 7), (''up'', 8), (''right'', 9), (''left'', 10), (''down'', 11), (''view'', 12),
      (''steam'', 13), (''menu'', 14), (''l5'', 15), (''r5'', 16), (''lpad'', 17), (''rpad'', 18),
      (''lpadtouch'', 19), (''rpadtouch'', 20), (''l3'', 22), (''r3'', 26), (''l4'', 41),
      (''r4'', 42), (''qam'', 50)]"

definition buttons :: "u8 list \<Rightarrow> u64 option" where
  "buttons report =
     (if length report < MIN_REPORT \<or> report ! 0 \<noteq> 1 \<or> report ! 1 \<noteq> 0 then None
      else if report ! 2 \<noteq> DECK_STATE then None
      else if unat (report ! 3) < MIN_REPORT - 4 then None
      else Some (of_le64 (take 8 (drop BUTTONS_AT report))))"

record chord =
  ch_mask :: u64

definition held_in :: "chord \<Rightarrow> u64 \<Rightarrow> bool" where
  "held_in c bs \<longleftrightarrow> bs AND ch_mask c = ch_mask c"

section \<open>Names\<close>

definition ascii_digit :: "char \<Rightarrow> bool" where
  "ascii_digit c \<longleftrightarrow> 48 \<le> (of_char c :: nat) \<and> (of_char c :: nat) \<le> 57"

definition bit_suffix :: "string \<Rightarrow> string option" where
  "bit_suffix tok =
     (case (case strip_prefix_str ''bit'' tok of Some n \<Rightarrow> Some n | None \<Rightarrow> strip_prefix_str ''b'' tok) of
        Some n \<Rightarrow> if list_all ascii_digit n \<and> n \<noteq> [] then Some n else None
      | None \<Rightarrow> None)"

definition unknown_button :: "string \<Rightarrow> string" where
  "unknown_button tok = quoted tok @ '' is not a known button. Known: '' @ join '', '' (map fst BUTTONS)
     @ ''. Bit numbers ('' @ quoted ''b41'' @ '') and raw masks ('' @ quoted ''0x...'' @ '') also work ''
     @ [CHR 0xE2, CHR 0x80, CHR 0x94] @ '' '' @ quoted ''--chord-probe'' @ '' prints what the device actually sends.''"

definition parse_token :: "string \<Rightarrow> string + u64" where
  "parse_token tok =
     (case strip_prefix_str ''0x'' tok of
        Some hex \<Rightarrow>
          (case from_str_radix 0xffffffffffffffff 16 hex of
             Some v \<Rightarrow> Inr (of_nat v)
           | None \<Rightarrow> Inl (quoted tok @ '' is not a 64-bit hex mask''))
      | None \<Rightarrow>
          (case bit_suffix tok of
             Some n \<Rightarrow>
               (case parse_unsigned 0xffffffff n of
                  None \<Rightarrow> Inl (quoted tok @ '' is not a bit'')
                | Some v \<Rightarrow>
                    if 63 < v then Inl (''bit '' @ show_nat v @ '' is outside the 64-bit button field'')
                    else Inr (push_bit v 1))
           | None \<Rightarrow>
               (case find (\<lambda>(name, b). name = tok) BUTTONS of
                  Some (name, b) \<Rightarrow> Inr (push_bit b 1)
                | None \<Rightarrow> Inl (unknown_button tok))))"

fun parse_tokens :: "string list \<Rightarrow> u64 \<Rightarrow> string + u64" where
  "parse_tokens [] m = Inr m"
| "parse_tokens (t # ts) m =
     rbind (parse_token (to_ascii_lowercase t)) (\<lambda>b. parse_tokens ts (m OR b))"

definition chord_from_str :: "string \<Rightarrow> string + chord" where
  "chord_from_str s =
     (let toks = filter (\<lambda>t. t \<noteq> []) (map trim (split_on (\<lambda>c. c = CHR ''+'' \<or> c = CHR '','') s))
      in rbind (parse_tokens toks 0) (\<lambda>m.
           if toks = [] then Inl ''a chord needs at least one button'' else Inr \<lparr>ch_mask = m\<rparr>))"

definition button_token :: "nat \<Rightarrow> string" where
  "button_token b =
     (case find (\<lambda>(name, n). n = b) BUTTONS of
        Some (name, n) \<Rightarrow> name
      | None \<Rightarrow> ''b'' @ show_nat b)"

definition describe :: "u64 \<Rightarrow> string" where
  "describe m =
     (if m = 0 then ''none''
      else join ''+'' (map button_token (filter (\<lambda>b. m AND push_bit b 1 \<noteq> 0) [0..<64])))"

section \<open>Hold to fire\<close>

definition chord_text :: "chord \<Rightarrow> string" where
  "chord_text c = describe (ch_mask c)"

record verdict =
  vd_swallow :: bool
  vd_fired :: bool

definition no_verdict :: verdict where
  "no_verdict = \<lparr>vd_swallow = False, vd_fired = False\<rparr>"

record detector =
  dt_chord :: chord
  dt_hold :: nat
  dt_since :: "nat option"
  dt_armed :: bool

definition detector_new :: "chord \<Rightarrow> nat \<Rightarrow> detector" where
  "detector_new c hold = \<lparr>dt_chord = c, dt_hold = hold, dt_since = None, dt_armed = False\<rparr>"

definition feed :: "u8 list \<Rightarrow> nat \<Rightarrow> detector \<Rightarrow> verdict \<times> detector" where
  "feed report now d =
     (case buttons report of
        None \<Rightarrow> (no_verdict, d)
      | Some bs \<Rightarrow>
          if \<not> held_in (dt_chord d) bs then (no_verdict, d\<lparr>dt_since := None, dt_armed := True\<rparr>)
          else
            let started = (case dt_since d of Some t \<Rightarrow> t | None \<Rightarrow> now);
                d' = d\<lparr>dt_since := Some started\<rparr>
            in if \<not> dt_armed d \<or> now - started < dt_hold d
               then (\<lparr>vd_swallow = True, vd_fired = False\<rparr>, d')
               else (\<lparr>vd_swallow = True, vd_fired = True\<rparr>, d'\<lparr>dt_armed := False\<rparr>))"

text \<open>A stream of reports with the times they were read at.\<close>

type_synonym event = "u8 list \<times> nat"

fun watch_events :: "event list \<Rightarrow> detector \<Rightarrow> verdict list \<times> detector" where
  "watch_events [] d = ([], d)"
| "watch_events (e # es) d =
     (case feed (fst e) (snd e) d of (v, d1) \<Rightarrow>
      (case watch_events es d1 of (vs, d2) \<Rightarrow> (v # vs, d2)))"

section \<open>When it fires\<close>

definition pressed :: "chord \<Rightarrow> event \<Rightarrow> bool" where
  "pressed c e \<longleftrightarrow> (case buttons (fst e) of Some b \<Rightarrow> held_in c b | None \<Rightarrow> False)"

definition released :: "chord \<Rightarrow> event \<Rightarrow> bool" where
  "released c e \<longleftrightarrow> (case buttons (fst e) of Some b \<Rightarrow> \<not> held_in c b | None \<Rightarrow> False)"

lemma watch_events_snoc:
  "watch_events (es @ [e]) d =
     (case watch_events es d of (vs, d1) \<Rightarrow>
      (case feed (fst e) (snd e) d1 of (v, d2) \<Rightarrow> (vs @ [v], d2)))"
  by (induction es arbitrary: d) (auto split: prod.split)

lemma watch_events_length: "watch_events es d = (vs, d') \<Longrightarrow> length vs = length es"
  by (induction es arbitrary: d vs) (auto split: prod.split_asm)

text \<open>
  What the detector remembers: if it is armed, the chord was seen released and nothing fired
  since; if a hold is running, it started at a press at the time remembered and the chord was
  not seen released since.
\<close>

definition remembers :: "chord \<Rightarrow> event list \<Rightarrow> verdict list \<Rightarrow> detector \<Rightarrow> bool" where
  "remembers c es vs d \<longleftrightarrow>
     length vs = length es
     \<and> (dt_armed d \<longrightarrow> (\<exists>r<length es. released c (es ! r) \<and> (\<forall>k. r < k \<and> k < length es \<longrightarrow> \<not> vd_fired (vs ! k))))
     \<and> (case dt_since d of
          None \<Rightarrow> True
        | Some t \<Rightarrow> \<exists>s<length es. pressed c (es ! s) \<and> snd (es ! s) = t
            \<and> (\<forall>k. s \<le> k \<and> k < length es \<longrightarrow> \<not> released c (es ! k)))"

text \<open>A firing at position \<open>i\<close> that the rules allow.\<close>

definition justified :: "chord \<Rightarrow> nat \<Rightarrow> event list \<Rightarrow> verdict list \<Rightarrow> nat \<Rightarrow> bool" where
  "justified c hold es vs i \<longleftrightarrow>
     (\<exists>r s. r < s \<and> s \<le> i \<and> released c (es ! r) \<and> pressed c (es ! s) \<and> pressed c (es ! i)
        \<and> (\<forall>k. s \<le> k \<and> k \<le> i \<longrightarrow> \<not> released c (es ! k))
        \<and> hold \<le> snd (es ! i) - snd (es ! s)
        \<and> (\<forall>k. r < k \<and> k < i \<longrightarrow> \<not> vd_fired (vs ! k)))"

lemma feed_params: "feed r now d = (v, d') \<Longrightarrow> dt_chord d' = dt_chord d \<and> dt_hold d' = dt_hold d"
  by (auto simp: feed_def Let_def split: option.split_asm if_splits)

lemma less_Suc_split: "(\<forall>k. P k \<and> k < Suc n \<longrightarrow> Q k) \<longleftrightarrow> (\<forall>k. P k \<and> k < n \<longrightarrow> Q k) \<and> (P n \<longrightarrow> Q n)"
  by (auto simp: less_Suc_eq)

lemma pressed_not_released: "pressed c e \<Longrightarrow> \<not> released c e"
  by (auto simp: pressed_def released_def split: option.split_asm)

lemma remembers_other:
  assumes "remembers c es vs d" "\<not> released c e" "\<not> vd_fired v"
  shows "remembers c (es @ [e]) (vs @ [v]) d"
  unfolding remembers_def
proof (intro conjI impI)
  show len: "length (vs @ [v]) = length (es @ [e])" using assms by (simp add: remembers_def)
  assume "dt_armed d"
  then obtain r where "r < length es" "released c (es ! r)"
    "\<And>k. r < k \<Longrightarrow> k < length es \<Longrightarrow> \<not> vd_fired (vs ! k)"
    using assms(1) unfolding remembers_def by blast
  with assms(3) len show "\<exists>r<length (es @ [e]). released c ((es @ [e]) ! r)
      \<and> (\<forall>k. r < k \<and> k < length (es @ [e]) \<longrightarrow> \<not> vd_fired ((vs @ [v]) ! k))"
    by (intro exI [of _ r]) (simp add: nth_append)
next
  show "case dt_since d of None \<Rightarrow> True
    | Some t \<Rightarrow> \<exists>s<length (es @ [e]). pressed c ((es @ [e]) ! s) \<and> snd ((es @ [e]) ! s) = t
        \<and> (\<forall>k. s \<le> k \<and> k < length (es @ [e]) \<longrightarrow> \<not> released c ((es @ [e]) ! k))"
  proof (cases "dt_since d")
    case (Some t)
    then obtain s where "s < length es" "pressed c (es ! s)" "snd (es ! s) = t"
      "\<And>k. s \<le> k \<Longrightarrow> k < length es \<Longrightarrow> \<not> released c (es ! k)"
      using assms(1) by (auto simp: remembers_def)
    with assms(2) Some show ?thesis by (auto intro!: exI [of _ s] simp: nth_append)
  qed simp
qed

lemma remembers_step:
  assumes rem: "remembers c es vs d" and c: "dt_chord d = c" and f: "feed (fst e) (snd e) d = (v, d')"
  shows "remembers c (es @ [e]) (vs @ [v]) d'
    \<and> (vd_fired v \<longrightarrow> justified c (dt_hold d) (es @ [e]) (vs @ [v]) (length es))"
proof -
  let ?n = "length es" and ?es = "es @ [e]" and ?vs = "vs @ [v]"
  have len: "length vs = ?n" using rem by (simp add: remembers_def)
  consider (other) "buttons (fst e) = None" | (up) b where "buttons (fst e) = Some b" "\<not> held_in c b"
    | (down) b where "buttons (fst e) = Some b" "held_in c b"
    by (cases "buttons (fst e)") auto
  then show ?thesis
  proof cases
    case other
    then have "v = no_verdict" "d' = d" "\<not> released c e" "\<not> pressed c e"
      using f by (auto simp: feed_def released_def pressed_def)
    with remembers_other [OF rem, of e v] show ?thesis by (simp add: no_verdict_def)
  next
    case up
    then have "v = no_verdict" "d' = d\<lparr>dt_since := None, dt_armed := True\<rparr>" "released c e"
      using f c by (auto simp: feed_def released_def)
    with len show ?thesis
      by (auto simp: remembers_def no_verdict_def nth_append intro!: exI [of _ ?n])
  next
    case down
    then have e: "pressed c e" "\<not> released c e" by (auto simp: pressed_def released_def)
    define t where "t = (case dt_since d of Some t \<Rightarrow> t | None \<Rightarrow> snd e)"
    have d': "dt_since d' = Some t" "dt_armed d' = (dt_armed d \<and> \<not> vd_fired v)"
      "vd_fired v = (dt_armed d \<and> dt_hold d \<le> snd e - t)"
      using f c down by (auto simp: feed_def t_def Let_def split: if_splits)
    obtain s where s: "s \<le> ?n" "pressed c (?es ! s)" "snd (?es ! s) = t"
      "\<And>k. s \<le> k \<Longrightarrow> k \<le> ?n \<Longrightarrow> \<not> released c (?es ! k)"
    proof (cases "dt_since d")
      case None
      then show ?thesis using that [of ?n] e by (simp add: t_def)
    next
      case (Some u)
      with rem obtain s where "s < ?n" "pressed c (es ! s)" "snd (es ! s) = u"
        "\<forall>k. s \<le> k \<and> k < ?n \<longrightarrow> \<not> released c (es ! k)"
        by (auto simp: remembers_def)
      then show ?thesis using that [of s] e Some by (simp add: t_def nth_append)
    qed
    obtain r where r: "dt_armed d \<Longrightarrow> r < ?n \<and> released c (es ! r) \<and> (\<forall>k. r < k \<and> k < ?n \<longrightarrow> \<not> vd_fired (vs ! k))"
      using rem by (auto simp: remembers_def)
    have "r < s" if "dt_armed d"
      using r [OF that] s(4) [of r] by (force simp: nth_append not_less)
    with r s d' e len have fired: "vd_fired v \<longrightarrow> justified c (dt_hold d) ?es ?vs ?n"
      unfolding justified_def by (intro impI exI [of _ r] exI [of _ s]) (auto simp: nth_append)
    have "remembers c ?es ?vs d'"
      unfolding remembers_def
    proof (intro conjI impI)
      assume "dt_armed d'"
      with r d' len show "\<exists>r<length ?es. released c (?es ! r) \<and>
          (\<forall>k. r < k \<and> k < length ?es \<longrightarrow> \<not> vd_fired (?vs ! k))"
        by (intro exI [of _ r]) (auto simp: nth_append less_Suc_eq)
    next
      show "case dt_since d' of None \<Rightarrow> True
        | Some t \<Rightarrow> \<exists>s<length ?es. pressed c (?es ! s) \<and> snd (?es ! s) = t
            \<and> (\<forall>k. s \<le> k \<and> k < length ?es \<longrightarrow> \<not> released c (?es ! k))"
        using s d'(1) by (auto intro!: exI [of _ s] simp: less_Suc_eq_le)
    qed (simp add: len)
    with fired show ?thesis by blast
  qed
qed

lemma justified_append:
  "i < length es \<Longrightarrow> length vs = length es \<Longrightarrow>
   justified c hold es vs i \<Longrightarrow> justified c hold (es @ es') (vs @ vs') i"
  unfolding justified_def
  by (elim exE conjE, rule_tac x = r in exI, rule_tac x = s in exI) (simp add: nth_append)

lemma watch_events_remembers:
  assumes "watch_events es (detector_new c hold) = (vs, d)"
  shows "remembers c es vs d \<and> dt_chord d = c \<and> dt_hold d = hold
    \<and> (\<forall>i<length es. vd_fired (vs ! i) \<longrightarrow> justified c hold es vs i)"
  using assms
proof (induction es arbitrary: vs d rule: rev_induct)
  case Nil
  then show ?case by (auto simp: remembers_def detector_new_def)
next
  case (snoc e es)
  obtain vs0 d0 where 0: "watch_events es (detector_new c hold) = (vs0, d0)" by fastforce
  obtain v d1 where 1: "feed (fst e) (snd e) d0 = (v, d1)" by fastforce
  have vs: "vs = vs0 @ [v]" "d = d1" using snoc.prems 0 1 by (auto simp: watch_events_snoc)
  note ih = snoc.IH [OF 0]
  have len: "length vs0 = length es" using ih by (simp add: remembers_def)
  have "remembers c (es @ [e]) vs d \<and> (vd_fired v \<longrightarrow> justified c hold (es @ [e]) vs (length es))"
    using remembers_step [of c es vs0 d0 e v d1] ih 1 vs by auto
  moreover have "justified c hold (es @ [e]) vs i" if "i < length es" "vd_fired (vs ! i)" for i
    using that ih len vs justified_append [of i es vs0 c hold "[e]" "[v]"] by (auto simp: nth_append)
  ultimately show ?case
    using ih feed_params [OF 1] vs len by (auto simp: less_Suc_eq nth_append)
qed

subsection \<open>It does fire\<close>

lemma watch_events_append:
  "watch_events (es @ fs) d =
     (case watch_events es d of (vs, d1) \<Rightarrow> (case watch_events fs d1 of (ws, d2) \<Rightarrow> (vs @ ws, d2)))"
  by (induction es arbitrary: d) (auto split: prod.split)

lemma feed_armed: "feed r now d = (v, d') \<Longrightarrow> dt_armed d \<Longrightarrow> \<not> vd_fired v \<Longrightarrow> dt_armed d'"
  by (auto simp: feed_def Let_def split: option.split_asm if_splits)

lemma feed_since:
  "feed r now d = (v, d') \<Longrightarrow> dt_since d = Some t \<Longrightarrow> \<not> released (dt_chord d) (r, now) \<Longrightarrow> dt_since d' = Some t"
  by (auto simp: feed_def released_def Let_def split: option.split_asm if_splits)

lemma feed_since_le:
  "feed r now d = (v, d') \<Longrightarrow> (\<And>t. dt_since d = Some t \<Longrightarrow> t \<le> b) \<Longrightarrow> now \<le> b \<Longrightarrow> dt_since d' = Some t \<Longrightarrow> t \<le> b"
  by (auto simp: feed_def Let_def split: option.split_asm if_splits)

lemma watch_params:
  "watch_events es d = (vs, d') \<Longrightarrow> dt_chord d' = dt_chord d \<and> dt_hold d' = dt_hold d"
  by (induction es arbitrary: d vs) (auto split: prod.split_asm dest: feed_params)

lemma watch_armed:
  "watch_events es d = (vs, d') \<Longrightarrow> dt_armed d \<Longrightarrow> list_all (\<lambda>v. \<not> vd_fired v) vs \<Longrightarrow> dt_armed d'"
  by (induction es arbitrary: d vs) (auto split: prod.split_asm dest: feed_armed)

lemma watch_since:
  "watch_events es d = (vs, d') \<Longrightarrow> dt_since d = Some t \<Longrightarrow> list_all (\<lambda>e. \<not> released (dt_chord d) e) es
    \<Longrightarrow> dt_since d' = Some t"
proof (induction es arbitrary: d vs)
  case (Cons e es)
  obtain v d1 where f: "feed (fst e) (snd e) d = (v, d1)" by fastforce
  then have "dt_since d1 = Some t" "dt_chord d1 = dt_chord d"
    using Cons.prems by (auto dest: feed_since feed_params)
  with Cons f show ?case by (auto split: prod.split_asm)
qed simp

lemma watch_since_le:
  assumes "watch_events es d = (vs, d')" "list_all (\<lambda>e. snd e \<le> b) es" "dt_since d' = Some t"
    "\<And>t. dt_since d = Some t \<Longrightarrow> t \<le> b"
  shows "t \<le> b"
  using assms
proof (induction es arbitrary: d vs)
  case (Cons e es)
  obtain v d1 where f: "feed (fst e) (snd e) d = (v, d1)" by fastforce
  moreover obtain ws where "watch_events es d1 = (ws, d')"
    using Cons.prems(1) f by (auto split: prod.split_asm)
  moreover have "u \<le> b" if "dt_since d1 = Some u" for u
    using feed_since_le [OF f Cons.prems(4) _ that] Cons.prems(2) by auto
  ultimately show ?case using Cons.IH [of d1 ws] Cons.prems(2,3) by auto
qed simp

lemma feed_release: "released (dt_chord d) (r, now) \<Longrightarrow> feed r now d = (no_verdict, d\<lparr>dt_since := None, dt_armed := True\<rparr>)"
  by (auto simp: feed_def released_def split: option.split_asm)

lemma feed_press:
  assumes "feed r now d = (v, d')" "pressed (dt_chord d) (r, now)"
  shows "dt_since d' = Some (case dt_since d of Some t \<Rightarrow> t | None \<Rightarrow> now)"
  using assms by (auto simp: feed_def pressed_def Let_def split: option.split_asm if_splits)

lemma feed_fires:
  assumes "pressed (dt_chord d) (r, now)" "dt_armed d" "dt_since d = Some t" "dt_hold d \<le> now - t"
  shows "vd_fired (fst (feed r now d))"
  using assms by (auto simp: feed_def pressed_def Let_def split: option.split_asm)

lemma held_long_enough:
  assumes w: "watch_events (pre @ [r] @ mid @ [s] @ hld @ [e]) (detector_new c hold) = (vs, d)"
    and ev: "released c r" "pressed c s" "pressed c e" "list_all (\<lambda>x. \<not> released c x) hld"
    and times: "list_all (\<lambda>x. snd x \<le> snd s) mid" and long: "hold \<le> snd e - snd s"
    and quiet: "list_all (\<lambda>v. \<not> vd_fired v) (drop (length pre) vs)"
  shows False
proof -
  let ?d0 = "detector_new c hold"
  obtain vp dp where p: "watch_events pre ?d0 = (vp, dp)" by fastforce
  define dr where "dr = dp\<lparr>dt_since := None, dt_armed := True\<rparr>"
  obtain vm dm where m: "watch_events mid dr = (vm, dm)" by fastforce
  obtain x ds where s: "feed (fst s) (snd s) dm = (x, ds)" by fastforce
  obtain vh dh where h: "watch_events hld ds = (vh, dh)" by fastforce
  have cp: "dt_chord dp = c" "dt_hold dp = hold"
    using watch_params [OF p] by (simp_all add: detector_new_def)
  then have r: "feed (fst r) (snd r) dp = (no_verdict, dr)" using ev(1) feed_release [of dp "fst r" "snd r"]
    by (simp add: dr_def)
  have vs: "vs = vp @ [no_verdict] @ vm @ [x] @ vh @ [fst (feed (fst e) (snd e) dh)]"
    using w p r m s h by (simp add: watch_events_append split: prod.split_asm)
  have len: "length vp = length pre" using watch_events_length [OF p] .
  with quiet vs have nf: "list_all (\<lambda>v. \<not> vd_fired v) vm" "\<not> vd_fired x" "list_all (\<lambda>v. \<not> vd_fired v) vh"
    "\<not> vd_fired (fst (feed (fst e) (snd e) dh))" by simp_all
  have c: "dt_chord dm = c" "dt_chord ds = c" "dt_chord dh = c" "dt_hold dh = hold"
    using watch_params [OF m] feed_params [OF s] watch_params [OF h] cp by (simp_all add: dr_def)
  have "dt_armed dh"
    using watch_armed [OF m _ nf(1)] feed_armed [OF s _ nf(2)] watch_armed [OF h _ nf(3)] by (simp add: dr_def)
  moreover obtain t where t: "dt_since ds = Some t" "t \<le> snd s"
    using feed_press [OF s] ev(2) c(1) watch_since_le [OF m times] by (auto simp: dr_def split: option.split_asm)
  moreover have "dt_since dh = Some t" using watch_since [OF h t(1)] ev(4) c(2) by simp
  ultimately have "vd_fired (fst (feed (fst e) (snd e) dh))"
    using feed_fires [of dh "fst e" "snd e" t] ev(3) c long by auto
  with nf(4) show False by simp
qed

section \<open>Printing and parsing a chord\<close>

definition token_char :: "char \<Rightarrow> bool" where
  "token_char c \<longleftrightarrow> graphic c \<and> \<not> ascii_upper c \<and> c \<noteq> CHR ''+'' \<and> c \<noteq> CHR '',''"

lemma named_buttons:
  "list_all (\<lambda>(name, b). list_all token_char name \<and> name \<noteq> [] \<and> parse_token name = Inr (push_bit b 1)) BUTTONS"
  by (simp add: BUTTONS_def parse_token_def strip_prefix_str_def bit_suffix_def ascii_digit_def
      token_char_def graphic_def ascii_upper_def)

lemma lowercase_token: "list_all token_char t \<Longrightarrow> to_ascii_lowercase t = t"
  by (induction t) (auto simp: to_ascii_lowercase_def token_char_def)

lemma digit_char_ascii: "d < 10 \<Longrightarrow> ascii_digit (digit_char d) \<and> token_char (digit_char d)"
proof -
  assume d: "d < 10"
  then have n: "(of_char (digit_char d) :: nat) = d + 48" using of_digit_char [of d] by simp
  with d have "digit_char d \<noteq> CHR ''+''" "digit_char d \<noteq> CHR '',''" by auto
  with d n show ?thesis by (simp add: ascii_digit_def token_char_def graphic_def ascii_upper_def)
qed

lemma show_nat_digits: "list_all (\<lambda>c. ascii_digit c \<and> token_char c) (show_nat n)"
  unfolding show_nat_def
proof (induction n rule: less_induct)
  case (less n)
  show ?case
  proof (cases "n < 10")
    case True
    then show ?thesis by (subst show_loop.simps) (simp add: digit_char_ascii)
  next
    case False
    then have "n div 10 < n" by simp
    from less [OF this] False show ?thesis by (subst show_loop.simps) (simp add: digit_char_ascii)
  qed
qed

lemma parse_bit_token:
  assumes "b < 64"
  shows "parse_token (''b'' @ show_nat b) = Inr (push_bit b 1)"
proof -
  obtain d ds where d: "show_nat b = d # ds" by (cases "show_nat b") (auto simp: show_nat_def)
  have dig: "ascii_digit d" "list_all ascii_digit (show_nat b)"
    using show_nat_digits [of b] d by (auto simp: list_all_iff)
  then have "d \<noteq> CHR ''i''" by (auto simp: ascii_digit_def)
  then have "bit_suffix (''b'' @ show_nat b) = Some (show_nat b)"
    using dig d by (simp add: bit_suffix_def strip_prefix_str_def)
  moreover have "parse_unsigned 0xffffffff (show_nat b) = Some b"
    using from_str_radix_show [of b "0xffffffff" 10 0] assms
    by (simp add: parse_unsigned_def show_nat_def pad_left_def)
  ultimately show ?thesis
    using assms by (simp add: parse_token_def strip_prefix_str_def)
qed

lemma button_token_ok:
  assumes "b < 64"
  shows "list_all token_char (button_token b) \<and> button_token b \<noteq> [] \<and> parse_token (button_token b) = Inr (push_bit b 1)"
proof (cases "find (\<lambda>(name, n). n = b) BUTTONS")
  case None
  have "token_char (CHR ''b'')" by (simp add: token_char_def graphic_def ascii_upper_def)
  with None show ?thesis
    using parse_bit_token [OF assms] show_nat_digits [of b] by (simp add: button_token_def list_all_iff)
next
  case (Some nb)
  then have "nb \<in> set BUTTONS" "snd nb = b"
    by (auto simp: find_Some_iff) (metis nth_mem)
  with named_buttons Some show ?thesis
    by (cases nb) (fastforce simp: button_token_def list_all_iff)
qed

lemma parse_tokens_bits:
  "list_all (\<lambda>b. b < 64) bs \<Longrightarrow>
   parse_tokens (map button_token bs) m = Inr (fold (\<lambda>b m. m OR push_bit b 1) bs m)"
  by (induction bs arbitrary: m) (simp_all add: button_token_ok lowercase_token)

lemma bit_fold_bits:
  "bit (fold (\<lambda>b m. m OR push_bit b 1) bs (m :: u64)) n \<longleftrightarrow> bit m n \<or> n \<in> set bs \<and> n < 64"
  by (induction bs arbitrary: m) (auto simp: bit_simps)

lemma and_bit: "(m AND push_bit b 1 = (0 :: u64)) \<longleftrightarrow> \<not> (b < 64 \<and> bit m b)"
proof
  assume z: "m AND push_bit b 1 = (0 :: u64)"
  show "\<not> (b < 64 \<and> bit m b)"
  proof
    assume b: "b < 64 \<and> bit m b"
    then have "bit (m AND push_bit b 1 :: u64) b" by (simp add: bit_simps)
    with z show False by simp
  qed
next
  assume "\<not> (b < 64 \<and> bit m b)"
  then show "m AND push_bit b 1 = (0 :: u64)" by (intro bit_word_eqI) (auto simp: bit_simps)
qed

lemma token_no_sep: "list_all token_char t \<Longrightarrow> list_all (\<lambda>c. \<not> (c = CHR ''+'' \<or> c = CHR '','')) t"
  by (induction t) (simp_all add: token_char_def)

lemma split_tokens:
  "bs \<noteq> [] \<Longrightarrow> list_all (\<lambda>b. b < 64) bs \<Longrightarrow>
   split_on (\<lambda>c. c = CHR ''+'' \<or> c = CHR '','') (join ''+'' (map button_token bs)) = map button_token bs"
proof (induction bs rule: induct_list012)
  case (2 b)
  then have "list_all token_char (button_token b)" using button_token_ok [of b] by simp
  from split_on_none [OF token_no_sep [OF this]] show ?case by simp
next
  case (3 b b' bs)
  then have "list_all (\<lambda>c. \<not> (c = CHR ''+'' \<or> c = CHR '','')) (button_token b)"
    using button_token_ok [of b] token_no_sep by simp
  from split_on_append [OF this, of "CHR ''+''" "join ''+'' (map button_token (b' # bs))"] 3
  show ?case by simp
qed simp

section \<open>Properties\<close>

text \<open>
  C14. The toggle cannot go off by accident. Whenever the detector fires on a report, the
  chord was seen released before, then seen pressed, and from that press to this report it was
  never seen released, for at least the hold time; and nothing fired since that release, so one
  press fires at most once however long the buttons stay down.
\<close>

theorem chord_fires_only_when_held:
  assumes "watch_events es (detector_new c hold) = (vs, d)" "i < length es" "vd_fired (vs ! i)"
  shows "\<exists>r s. r < s \<and> s \<le> i \<and> released c (es ! r) \<and> pressed c (es ! s) \<and> pressed c (es ! i)
        \<and> (\<forall>k. s \<le> k \<and> k \<le> i \<longrightarrow> \<not> released c (es ! k))
        \<and> hold \<le> snd (es ! i) - snd (es ! s)
        \<and> (\<forall>k. r < k \<and> k < i \<longrightarrow> \<not> vd_fired (vs ! k))"
  using watch_events_remembers [OF assms(1)] assms(2,3) unfolding justified_def by blast

text \<open>
  C25. And it does go off when it should: once the chord was released, then pressed and not
  released again until a report in which it is still pressed at least the hold time later,
  some report after that release fires.
\<close>

theorem chord_fires_when_held:
  assumes "watch_events (pre @ [r] @ mid @ [s] @ hld @ [e]) (detector_new c hold) = (vs, d)"
    and "released c r" "pressed c s" "pressed c e" "list_all (\<lambda>x. \<not> released c x) hld"
    and "list_all (\<lambda>x. snd x \<le> snd s) mid" and "hold \<le> snd e - snd s"
  shows "list_ex vd_fired (drop (length pre) vs)"
  using held_long_enough [OF assms] by (auto simp: list_ex_iff list_all_iff)

definition deck_report :: "u8 \<Rightarrow> u8 list" where
  "deck_report b = [1, 0, 9, 60, 0, 0, 0, 0, b] @ replicate 55 0"

definition sample_chord :: chord where
  "sample_chord = \<lparr>ch_mask = 0x0c\<rparr>"

lemma of_le64_zeros: "of_le64 (replicate n 0) = 0"
  by (induction n) simp_all

lemma deck_buttons: "buttons (deck_report b) = Some (ucast b)"
  by (simp add: buttons_def deck_report_def MIN_REPORT_def BUTTONS_AT_def DECK_STATE_def of_le64_zeros)

lemma sample_events:
  "pressed sample_chord (deck_report 0x0c, t)" "released sample_chord (deck_report 0, t)"
  by (simp_all add: pressed_def released_def deck_buttons sample_chord_def held_in_def)

definition sample_trace :: "event list" where
  "sample_trace = [] @ [(deck_report 0, 0)] @ [] @ [(deck_report 0x0c, 5)] @ [] @ [(deck_report 0x0c, 1005)]"

theorem chord_fires_when_held_witness:
  "list_ex vd_fired (fst (watch_events sample_trace (detector_new sample_chord 1000)))"
proof -
  obtain vs d where "watch_events sample_trace (detector_new sample_chord 1000) = (vs, d)" by fastforce
  with chord_fires_when_held [of "[]" "(deck_report 0, 0)" "[]" "(deck_report 0x0c, 5)" "[]"
      "(deck_report 0x0c, 1005)" sample_chord 1000 vs d] sample_events
  show ?thesis by (simp add: sample_trace_def)
qed

lemma sample_trace_verdicts:
  "watch_events sample_trace (detector_new sample_chord 1000) =
     ([no_verdict, \<lparr>vd_swallow = True, vd_fired = False\<rparr>, \<lparr>vd_swallow = True, vd_fired = True\<rparr>],
      \<lparr>dt_chord = sample_chord, dt_hold = 1000, dt_since = Some 5, dt_armed = False\<rparr>)"
  by (simp add: sample_trace_def feed_def deck_buttons held_in_def detector_new_def sample_chord_def)

theorem chord_fires_only_when_held_witness:
  "\<exists>r s. r < s \<and> s \<le> 2 \<and> released sample_chord (sample_trace ! r) \<and> 1000 \<le> snd (sample_trace ! 2) - snd (sample_trace ! s)"
proof -
  have "2 < length sample_trace" by (simp add: sample_trace_def)
  from chord_fires_only_when_held [OF sample_trace_verdicts this] show ?thesis by auto
qed

text \<open>
  The description of a set of buttons, names where there are names and bit numbers
  elsewhere, parses back to the same chord.
\<close>

theorem chord_roundtrip: "m \<noteq> 0 \<Longrightarrow> chord_from_str (describe m) = Inr \<lparr>ch_mask = m\<rparr>"
proof -
  assume m: "m \<noteq> 0"
  let ?bs = "filter (\<lambda>b. m AND push_bit b 1 \<noteq> 0) [0..<64]" and ?p = "\<lambda>c. c = CHR ''+'' \<or> c = CHR '',''"
  have "\<exists>n. bit m n" using m by (metis bit_eqI bit_0_eq bot_apply bot_bool_def)
  then obtain n where "bit m n" ..
  moreover from this have "n < 64" using bit_imp_le_length [of m n] by simp
  ultimately have "n \<in> set ?bs" by (simp add: and_bit del: push_bit_of_1)
  then have ne: "?bs \<noteq> []" by (metis empty_iff list.set(1))
  have toks: "list_all token_char (button_token b)" "button_token b \<noteq> []" if "b \<in> set ?bs" for b
    using button_token_ok [of b] that by auto
  have "split_on ?p (describe m) = map button_token ?bs"
    using m split_tokens [OF ne] by (simp add: describe_def list_all_iff)
  moreover have "filter (\<lambda>t. t \<noteq> []) (map trim (map button_token ?bs)) = map button_token ?bs"
  proof -
    have "trim (button_token b) = button_token b" if "b \<in> set ?bs" for b
      using toks(1) [OF that] by (intro trim_graphic) (auto simp: list_all_iff token_char_def)
    then have "map trim (map button_token ?bs) = map button_token ?bs" by simp
    then show ?thesis using toks(2) by (auto simp: filter_id_conv)
  qed
  moreover have "parse_tokens (map button_token ?bs) 0 = Inr m"
  proof -
    have "fold (\<lambda>b m. m OR push_bit b 1) ?bs 0 = m"
      by (rule bit_word_eqI) (auto simp: bit_fold_bits and_bit simp del: push_bit_of_1)
    then show ?thesis by (simp add: parse_tokens_bits list_all_iff del: push_bit_of_1)
  qed
  ultimately show ?thesis
    using ne by (simp add: chord_from_str_def Let_def)
qed

theorem chord_roundtrip_witness: "chord_from_str (describe 0x60000000000) = Inr \<lparr>ch_mask = 0x60000000000\<rparr>"
  by (rule chord_roundtrip) simp

end
