(* ===== verification/Toggle.thy ===== *)
theory Toggle
  imports Hidraw Chord "HOL-Library.AList"
begin

text \<open>
  Taking a device off offer and back, \<open>usbfwd-server/src/toggle.rs\<close>: the set of suspended
  devices, the gate it puts in front of a \<open>DeviceSource\<close> (the trait of
  \<open>usbfwd-server/src/lib.rs\<close>), and the watcher that reads the chord back off \<open>hidraw\<close>. Instants are
  milliseconds; what the operating system returns during one pass of the watcher is its input.
\<close>

definition REBIND_GRACE :: nat where "REBIND_GRACE = 3000"
definition NAG :: nat where "NAG = 30000"

section \<open>The suspended devices\<close>

type_synonym toggle = "string set"

definition toggle_new :: toggle where
  "toggle_new = {}"

definition is_suspended :: "string \<Rightarrow> toggle \<Rightarrow> bool" where
  "is_suspended busid t \<longleftrightarrow> busid \<in> t"

definition suspend :: "string \<Rightarrow> toggle \<Rightarrow> bool \<times> toggle" where
  "suspend busid t = (busid \<notin> t, insert busid t)"

definition resume :: "string \<Rightarrow> toggle \<Rightarrow> bool \<times> toggle" where
  "resume busid t = (busid \<in> t, t - {busid})"

definition toggle_list :: "toggle \<Rightarrow> string list" where
  "toggle_list t = sorted_list_of_set t"

definition resume_all :: "toggle \<Rightarrow> string list \<times> toggle" where
  "resume_all t = (sorted_list_of_set t, {})"

record hotkey =
  hk_chord :: chord
  hk_hold :: nat

definition hotkey_detector :: "hotkey \<Rightarrow> detector" where
  "hotkey_detector h = detector_new (hk_chord h) (hk_hold h)"

section \<open>The gate\<close>

record 'd source =
  src_list :: "enum_error + device_summary list"
  src_open :: "string \<Rightarrow> enum_error + 'd"

definition gated :: "'d source \<Rightarrow> toggle \<Rightarrow> 'd source" where
  "gated src t =
     \<lparr>src_list = rbind (src_list src) (\<lambda>ds. Inr (filter (\<lambda>d. \<not> is_suspended (sm_busid d) t) ds)),
      src_open = (\<lambda>busid.
        if is_suspended busid t
        then Inl (Failed (Io PermissionDenied (busid @ '' is suspended by the toggle chord'')))
        else src_open src busid)\<rparr>"

section \<open>The watcher\<close>

datatype watch_step = Fired | Polled | Idle

record watched =
  wa_busid :: string
  wa_tap :: "tap option"
  wa_detector :: detector
  wa_suspended_at :: nat
  wa_complained_at :: "nat option"

definition watched_new :: "hotkey \<Rightarrow> string \<Rightarrow> nat \<Rightarrow> watched" where
  "watched_new h busid now =
     \<lparr>wa_busid = busid, wa_tap = None, wa_detector = hotkey_detector h,
      wa_suspended_at = now, wa_complained_at = None\<rparr>"

text \<open>
  The outside world during one step: the file system, what opening a node returns, the polls,
  the reads of each node and the time.
\<close>

record hid_input =
  hi_fs :: fs
  hi_open :: "string \<Rightarrow> io_error option"
  hi_polls :: "poll_result list"
  hi_reads :: "string \<Rightarrow> node_read list"
  hi_now :: nat

definition attach_tap :: "hotkey \<Rightarrow> hid_input \<Rightarrow> watched \<Rightarrow> watched" where
  "attach_tap h inp w =
     (case nodes_for_busid (hi_fs inp) (wa_busid w) of
        Inl e \<Rightarrow> w
      | Inr [] \<Rightarrow> w
      | Inr nodes \<Rightarrow>
          (case tap_open (hi_open inp) nodes of
             ([], errors) \<Rightarrow> w
           | (t, errors) \<Rightarrow> w\<lparr>wa_detector := hotkey_detector h, wa_complained_at := None, wa_tap := Some t\<rparr>))"

definition complain :: "nat \<Rightarrow> watched \<Rightarrow> watched" where
  "complain now w =
     (if now - wa_suspended_at w < REBIND_GRACE then w
      else if (case wa_complained_at w of Some t \<Rightarrow> now - t < NAG | None \<Rightarrow> False) then w
      else w\<lparr>wa_complained_at := Some now\<rparr>)"

fun feed_reports :: "u8 list list \<Rightarrow> nat \<Rightarrow> detector \<Rightarrow> bool \<times> detector" where
  "feed_reports [] now d = (False, d)"
| "feed_reports (r # rs) now d =
     (let (v, d') = feed r now d in if vd_fired v then (True, d') else feed_reports rs now d')"

definition watched_step :: "hotkey \<Rightarrow> hid_input \<Rightarrow> watched \<Rightarrow> watch_step \<times> watched" where
  "watched_step h inp w0 =
     (let w = (if wa_tap w0 = None then attach_tap h inp w0 else w0) in
      case wa_tap w of
        None \<Rightarrow> (Idle, complain (hi_now inp) w)
      | Some t \<Rightarrow>
          (case tap_read (hi_polls inp) (hi_reads inp) t of
             Inr (Some reports) \<Rightarrow>
               (let (fired, d) = feed_reports reports (hi_now inp) (wa_detector w)
                in (if fired then Fired else Polled, w\<lparr>wa_detector := d\<rparr>))
           | _ \<Rightarrow> (Idle, w\<lparr>wa_tap := None\<rparr>)))"

text \<open>
  One suspended device in a pass of \<open>watch\<close>: the entry is created on first sight and stepped, and
  firing resumes the device. Then the pass: the hang-up, the snapshot of the list, the entries of
  devices no longer suspended dropped, and the devices in order.
\<close>

type_synonym watch_state = "toggle \<times> (string \<times> watched) list"

definition watch_one :: "hotkey \<Rightarrow> (string \<Rightarrow> hid_input) \<Rightarrow> string \<Rightarrow> watch_state \<Rightarrow> watch_step \<times> watch_state" where
  "watch_one h inp busid = (\<lambda>(t, ws).
     let w = (case map_of ws busid of Some w \<Rightarrow> w | None \<Rightarrow> watched_new h busid (hi_now (inp busid)));
         (st, w') = watched_step h (inp busid) w;
         ws' = AList.update busid w' ws
     in (st, if st = Fired then snd (resume (wa_busid w') t) else t, ws'))"

fun watch_each :: "hotkey \<Rightarrow> (string \<Rightarrow> hid_input) \<Rightarrow> string list \<Rightarrow> watch_state \<Rightarrow> watch_step list \<times> watch_state" where
  "watch_each h inp [] s = ([], s)"
| "watch_each h inp (b # bs) s =
     (let (st, s1) = watch_one h inp b s; (sts, s2) = watch_each h inp bs s1 in (st # sts, s2))"

definition watch_pass :: "hotkey \<Rightarrow> bool \<Rightarrow> (string \<Rightarrow> hid_input) \<Rightarrow> watch_state \<Rightarrow> watch_step list \<times> watch_state" where
  "watch_pass h hangup inp = (\<lambda>(t, ws).
     let t' = (if hangup then snd (resume_all t) else t);
         suspended = toggle_list t'
     in watch_each h inp suspended (t', filter (\<lambda>(b, w). b \<in> set suspended) ws))"

section \<open>What the watcher has seen\<close>

text \<open>The reports of one read that reach the detector, with their time.\<close>

fun fed :: "u8 list list \<Rightarrow> nat \<Rightarrow> detector \<Rightarrow> event list" where
  "fed [] now d = []"
| "fed (r # rs) now d =
     (let (v, d') = feed r now d in (r, now) # (if vd_fired v then [] else fed rs now d'))"

text \<open>
  The reports the detector of a watched device has seen since its tap was opened, extended by
  one step.
\<close>

definition step_events :: "hotkey \<Rightarrow> hid_input \<Rightarrow> watched \<Rightarrow> event list \<Rightarrow> event list" where
  "step_events h inp w0 es =
     (let w = (if wa_tap w0 = None then attach_tap h inp w0 else w0);
          base = (if wa_tap w0 = None \<and> wa_tap w \<noteq> None then [] else es)
      in case wa_tap w of
           None \<Rightarrow> base
         | Some t \<Rightarrow>
             (case tap_read (hi_polls inp) (hi_reads inp) t of
                Inr (Some reports) \<Rightarrow> base @ fed reports (hi_now inp) (wa_detector w)
              | _ \<Rightarrow> base))"

fun watched_run :: "hotkey \<Rightarrow> hid_input list \<Rightarrow> watched \<times> event list \<Rightarrow> watched \<times> event list" where
  "watched_run h [] we = we"
| "watched_run h (i # is) we =
     watched_run h is (snd (watched_step h i (fst we)), step_events h i (fst we) (snd we))"

definition saw :: "hotkey \<Rightarrow> watched \<Rightarrow> event list \<Rightarrow> bool" where
  "saw h w es \<longleftrightarrow> wa_detector w = snd (watch_events es (hotkey_detector h))"

lemma feed_reports_fed:
  "feed_reports rs now d = (b, d') \<Longrightarrow> watch_events (fed rs now d) d = (vs, d2) \<Longrightarrow>
     d' = d2 \<and> b = (vs \<noteq> [] \<and> vd_fired (last vs))"
proof (induction rs arbitrary: d vs d2)
  case (Cons r rs)
  obtain v d1 where f: "feed r now d = (v, d1)" by force
  show ?case
  proof (cases "vd_fired v")
    case True
    then show ?thesis using Cons.prems f by auto
  next
    case False
    obtain us d3 where u: "watch_events (fed rs now d1) d1 = (us, d3)" by force
    have "us = [] \<longrightarrow> fed rs now d1 = []" using watch_events_length [OF u] by (metis length_0_conv)
    then show ?thesis
      using Cons.IH [OF _ u] Cons.prems False f u by (cases rs) (auto split: prod.splits)
  qed
qed simp

lemma attach_tap_cases:
  "attach_tap h inp w = w \<or>
     (\<exists>t. attach_tap h inp w = w\<lparr>wa_detector := hotkey_detector h, wa_complained_at := None, wa_tap := Some t\<rparr>)"
  by (auto simp: attach_tap_def split: sum.split list.split prod.split)

lemma complain_keeps [simp]: "wa_detector (complain now w) = wa_detector w" "wa_busid (complain now w) = wa_busid w"
  by (auto simp: complain_def)

lemma attached_saw:
  assumes "saw h w0 es" "w = (if wa_tap w0 = None then attach_tap h inp w0 else w0)"
  shows "saw h w (if wa_tap w0 = None \<and> wa_tap w \<noteq> None then [] else es)"
  using assms attach_tap_cases [of h inp w0] by (auto simp: saw_def)

lemma watched_step_saw:
  assumes "saw h w0 es" "watched_step h inp w0 = (st, w')"
  shows "saw h w' (step_events h inp w0 es) \<and>
    (st = Fired \<longrightarrow> (\<exists>vs d. watch_events (step_events h inp w0 es) (hotkey_detector h) = (vs, d)
       \<and> vs \<noteq> [] \<and> vd_fired (last vs)))"
proof -
  define w where "w = (if wa_tap w0 = None then attach_tap h inp w0 else w0)"
  define base where "base = (if wa_tap w0 = None \<and> wa_tap w \<noteq> None then [] else es)"
  have s: "saw h w base" using attached_saw [OF assms(1) w_def] by (simp add: base_def)
  show ?thesis
  proof (cases "\<exists>t reports. wa_tap w = Some t \<and> tap_read (hi_polls inp) (hi_reads inp) t = Inr (Some reports)")
    case False
    have ev: "step_events h inp w0 es = base"
      using False unfolding step_events_def Let_def w_def [symmetric] base_def [symmetric]
      by (auto split: option.split sum.split)
    have st: "st = Idle \<and> (w' = complain (hi_now inp) w \<or> w' = w\<lparr>wa_tap := None\<rparr>)"
      using False assms(2) by (auto simp: watched_step_def Let_def w_def [symmetric]
          split: option.splits sum.splits)
    show ?thesis using s ev st by (auto simp: saw_def)
  next
    case True
    then obtain t reports where t: "wa_tap w = Some t"
      and r: "tap_read (hi_polls inp) (hi_reads inp) t = Inr (Some reports)" by blast
    obtain b d where f: "feed_reports reports (hi_now inp) (wa_detector w) = (b, d)" by force
    obtain vs d2 where v: "watch_events (fed reports (hi_now inp) (wa_detector w)) (wa_detector w) = (vs, d2)"
      by force
    obtain us d1 where u: "watch_events base (hotkey_detector h) = (us, d1)" by force
    have d1: "d1 = wa_detector w" using s u by (simp add: saw_def)
    have ev: "step_events h inp w0 es = base @ fed reports (hi_now inp) (wa_detector w)"
      using t r unfolding step_events_def Let_def w_def [symmetric] base_def [symmetric] by simp
    have st: "st = (if b then Fired else Polled)" "w' = w\<lparr>wa_detector := d\<rparr>"
      using assms(2) t r f by (auto simp: watched_step_def Let_def w_def [symmetric])
    have app: "watch_events (step_events h inp w0 es) (hotkey_detector h) = (us @ vs, d2)"
      using watch_events_append [of base "fed reports (hi_now inp) (wa_detector w)" "hotkey_detector h"] u v d1 ev
      by simp
    show ?thesis
      using feed_reports_fed [OF f v] st app by (auto simp: saw_def split: if_splits)
  qed
qed

lemma watched_run_saw:
  "saw h (fst we) (snd we) \<Longrightarrow> watched_run h is we = (w, es) \<Longrightarrow> saw h w es"
proof (induction "is" arbitrary: we)
  case (Cons i "is")
  obtain st w1 where s: "watched_step h i (fst we) = (st, w1)" by force
  then show ?case
    using Cons.IH [of "(w1, step_events h i (fst we) (snd we))"] Cons.prems
      watched_step_saw [OF Cons.prems(1) s] by simp
qed simp

lemma last_firing:
  assumes "watch_events es (detector_new c hold) = (vs, d)" "vs \<noteq> []" "vd_fired (last vs)"
  shows "es \<noteq> [] \<and> (\<exists>r s. r < s \<and> s < length es \<and> released c (es ! r) \<and> pressed c (es ! s)
    \<and> (\<forall>k. s \<le> k \<and> k < length es \<longrightarrow> \<not> released c (es ! k)) \<and> hold \<le> snd (last es) - snd (es ! s))"
proof -
  have len: "length vs = length es" by (rule watch_events_length [OF assms(1)])
  then have ne: "es \<noteq> []" "length es - 1 < length es" using assms(2) by (cases es; auto)+
  have "vd_fired (vs ! (length es - 1))" using assms(2,3) len by (simp add: last_conv_nth)
  then have "justified c hold es vs (length es - 1)"
    using watch_events_remembers [OF assms(1)] ne by blast
  then obtain r s where "r < s" "s \<le> length es - 1" "released c (es ! r)" "pressed c (es ! s)"
    "\<forall>k. s \<le> k \<and> k \<le> length es - 1 \<longrightarrow> \<not> released c (es ! k)"
    "hold \<le> snd (es ! (length es - 1)) - snd (es ! s)"
    by (auto simp: justified_def)
  then show ?thesis
    using ne by (intro conjI exI [of _ r] exI [of _ s]) (auto simp: last_conv_nth)
qed

section \<open>The pass\<close>

definition watch_ok :: "watch_state \<Rightarrow> bool" where
  "watch_ok s \<longleftrightarrow> list_all (\<lambda>(b, w). wa_busid w = b) (snd s)"

lemma attach_tap_busid [simp]: "wa_busid (attach_tap h inp w) = wa_busid w"
  using attach_tap_cases [of h inp w] by auto

lemma watched_step_busid: "watched_step h inp w = (st, w') \<Longrightarrow> wa_busid w' = wa_busid w"
  by (auto simp: watched_step_def Let_def split: option.splits sum.splits prod.splits if_splits)

lemma list_all_alist_update: "list_all P ws \<Longrightarrow> P (b, w) \<Longrightarrow> list_all P (AList.update b w ws)"
  by (induction ws) auto

lemma watch_one_resumes:
  assumes "watch_ok s" "watch_one h inp b s = (st, s')"
  shows "watch_ok s' \<and> fst s' = (if st = Fired then fst s - {b} else fst s)"
proof (cases s)
  case (Pair t ws)
  define w where "w = (case map_of ws b of Some w \<Rightarrow> w | None \<Rightarrow> watched_new h b (hi_now (inp b)))"
  obtain st1 w' where st: "watched_step h (inp b) w = (st1, w')" by force
  have "wa_busid w = b"
    using assms(1) Pair by (auto simp: w_def watch_ok_def list_all_iff watched_new_def
        split: option.split dest!: map_of_SomeD)
  then have "wa_busid w' = b" using watched_step_busid [OF st] by simp
  then show ?thesis
    using assms Pair st unfolding watch_one_def w_def [symmetric]
    by (auto simp: w_def [symmetric] watch_ok_def resume_def list_all_alist_update Let_def)
qed

lemma watch_each_resumes:
  "watch_ok s \<Longrightarrow> watch_each h inp bs s = (sts, s') \<Longrightarrow>
     length sts = length bs \<and> watch_ok s' \<and> fst s' = fst s - {b. (b, Fired) \<in> set (zip bs sts)}"
proof (induction bs arbitrary: s sts s')
  case (Cons b bs)
  obtain st s1 where o: "watch_one h inp b s = (st, s1)" by (rule prod.exhaust)
  obtain sts' s2 where e: "watch_each h inp bs s1 = (sts', s2)" by (rule prod.exhaust)
  show ?case
    using watch_one_resumes [OF Cons.prems(1) o] Cons.IH [OF _ e] Cons.prems(2) o e by auto
qed simp

section \<open>Properties\<close>

text \<open>
  C35. Holding the chord once cannot toggle twice. When the watcher of a suspended device fires,
  then among the reports it has read since it opened its tap there is one in which the chord is
  up, after it one in which the chord is down, none in which it is up after that, and the hold
  time lies between that press and the report that fired; the press that suspended the device,
  still held while the driver was rebinding, therefore does not resume it.
\<close>

theorem resume_needs_fresh_press:
  assumes "watched_run h is (watched_new h b t0, []) = (w, es)" "watched_step h inp w = (Fired, w')"
    "step_events h inp w es = es'"
  shows "es' \<noteq> [] \<and> (\<exists>r s. r < s \<and> s < length es' \<and> released (hk_chord h) (es' ! r)
    \<and> pressed (hk_chord h) (es' ! s) \<and> (\<forall>k. s \<le> k \<and> k < length es' \<longrightarrow> \<not> released (hk_chord h) (es' ! k))
    \<and> hk_hold h \<le> snd (last es') - snd (es' ! s))"
proof -
  have "saw h (watched_new h b t0) []" by (simp add: saw_def watched_new_def)
  then have "saw h w es" using watched_run_saw [OF _ assms(1)] by simp
  then show ?thesis
    using watched_step_saw [OF _ assms(2)] assms(3) last_firing
    by (fastforce simp: hotkey_detector_def)
qed

text \<open>
  A suspended device goes back on offer only through a hang-up signal or because its own
  watcher fired, and a pass of the watcher suspends nothing.
\<close>

theorem watch_pass_resumes:
  assumes "watch_ok (t, ws)" "finite t" "watch_pass h hangup inp (t, ws) = (sts, t', ws')"
  shows "watch_ok (t', ws') \<and>
    t' = (if hangup then {} else t - {b. (b, Fired) \<in> set (zip (toggle_list t) sts)})"
proof (cases hangup)
  case True
  then show ?thesis
    using assms by (auto simp: watch_pass_def toggle_list_def resume_all_def watch_ok_def list_all_iff)
next
  case False
  have "watch_ok (t, filter (\<lambda>(b, w). b \<in> set (toggle_list t)) ws)"
    using assms(1) by (auto simp: watch_ok_def list_all_iff)
  then show ?thesis
    using False assms(3) watch_each_resumes [of _ h inp "toggle_list t" sts "(t', ws')"]
    by (fastforce simp: watch_pass_def Let_def)
qed

definition sample_hotkey :: hotkey where
  "sample_hotkey = \<lparr>hk_chord = sample_chord, hk_hold = 1000\<rparr>"

definition sample_input :: "u8 list list \<Rightarrow> nat \<Rightarrow> hid_input" where
  "sample_input rs now = \<lparr>hi_fs = sample_hid_fs, hi_open = (\<lambda>p. None),
     hi_polls = [PollReady [(False, True), (False, False)]],
     hi_reads = (\<lambda>p. map GotBytes rs), hi_now = now\<rparr>"

definition sample_watched :: watched where
  "sample_watched = \<lparr>wa_busid = ''3-3'', wa_tap = Some [''/dev/hidraw3'', ''/dev/hidraw4''],
     wa_detector = \<lparr>dt_chord = sample_chord, dt_hold = 1000, dt_since = Some 5, dt_armed = True\<rparr>,
     wa_suspended_at = 0, wa_complained_at = None\<rparr>"

definition sample_seen :: "event list" where
  "sample_seen = [(deck_report 0, 5), (deck_report 0x0c, 5), (deck_report 0x0c, 1005)]"

lemma deck_report_size: "length (deck_report b) = 64" "deck_report b \<noteq> []"
  by (simp_all add: deck_report_def)

lemma sample_read:
  "tap_read (hi_polls (sample_input [deck_report b] now)) (hi_reads (sample_input [deck_report b] now))
     [''/dev/hidraw3'', ''/dev/hidraw4''] = Inr (Some [deck_report b])"
  "tap_read (hi_polls (sample_input [deck_report b, deck_report c] now))
     (hi_reads (sample_input [deck_report b, deck_report c] now))
     [''/dev/hidraw3'', ''/dev/hidraw4''] = Inr (Some [deck_report b, deck_report c])"
  by (simp_all add: tap_read_def sample_input_def deck_report_size MAX_REPORT_def)

lemma sample_attach:
  "attach_tap sample_hotkey (sample_input rs now) (watched_new sample_hotkey ''3-3'' 0) =
     (watched_new sample_hotkey ''3-3'' 0)\<lparr>wa_tap := Some [''/dev/hidraw3'', ''/dev/hidraw4'']\<rparr>"
  by (simp add: attach_tap_def sample_input_def sample_hid_nodes watched_new_def)

lemma sample_feed:
  "feed (deck_report 0) 5 (hotkey_detector sample_hotkey) =
     (no_verdict, \<lparr>dt_chord = sample_chord, dt_hold = 1000, dt_since = None, dt_armed = True\<rparr>)"
  "feed (deck_report 0x0c) 5 \<lparr>dt_chord = sample_chord, dt_hold = 1000, dt_since = None, dt_armed = True\<rparr> =
     (\<lparr>vd_swallow = True, vd_fired = False\<rparr>,
      \<lparr>dt_chord = sample_chord, dt_hold = 1000, dt_since = Some 5, dt_armed = True\<rparr>)"
  "feed (deck_report 0x0c) 1005 \<lparr>dt_chord = sample_chord, dt_hold = 1000, dt_since = Some 5, dt_armed = True\<rparr> =
     (\<lparr>vd_swallow = True, vd_fired = True\<rparr>,
      \<lparr>dt_chord = sample_chord, dt_hold = 1000, dt_since = Some 5, dt_armed = False\<rparr>)"
  by (simp_all add: feed_def deck_buttons held_in_def sample_chord_def hotkey_detector_def detector_new_def
      sample_hotkey_def)

lemma sample_run:
  "watched_run sample_hotkey [sample_input [deck_report 0, deck_report 0x0c] 5]
     (watched_new sample_hotkey ''3-3'' 0, []) = (sample_watched, take 2 sample_seen)"
  by (simp add: watched_step_def step_events_def sample_attach sample_read Let_def)
     (simp add: watched_new_def sample_feed sample_input_def no_verdict_def sample_watched_def sample_seen_def)

lemma sample_fires:
  "\<exists>w'. watched_step sample_hotkey (sample_input [deck_report 0x0c] 1005) sample_watched = (Fired, w')"
  "step_events sample_hotkey (sample_input [deck_report 0x0c] 1005) sample_watched (take 2 sample_seen) = sample_seen"
  by (simp_all add: watched_step_def step_events_def sample_watched_def sample_read)
     (simp_all add: sample_feed sample_input_def sample_seen_def)

theorem resume_needs_fresh_press_witness:
  "\<exists>r s. r < s \<and> s < 3 \<and> released sample_chord (sample_seen ! r) \<and> pressed sample_chord (sample_seen ! s)
     \<and> 1000 \<le> snd (last sample_seen) - snd (sample_seen ! s)"
proof -
  obtain w' where "watched_step sample_hotkey (sample_input [deck_report 0x0c] 1005) sample_watched = (Fired, w')"
    using sample_fires(1) ..
  from resume_needs_fresh_press [OF sample_run this sample_fires(2)]
  moreover have "length sample_seen = 3" by (simp add: sample_seen_def)
  ultimately show ?thesis by (auto simp: sample_hotkey_def)
qed

theorem watch_pass_resumes_witness:
  "fst (snd (watch_pass sample_hotkey False (\<lambda>b. sample_input [deck_report 0x0c] 1005)
     ({''3-3''}, [(''3-3'', sample_watched)]))) = {}"
proof -
  obtain w' where s: "watched_step sample_hotkey (sample_input [deck_report 0x0c] 1005) sample_watched = (Fired, w')"
    using sample_fires(1) ..
  have ok: "watch_ok ({''3-3''}, [(''3-3'', sample_watched)])"
    by (simp add: watch_ok_def sample_watched_def)
  obtain sts t' ws' where p: "watch_pass sample_hotkey False (\<lambda>b. sample_input [deck_report 0x0c] 1005)
     ({''3-3''}, [(''3-3'', sample_watched)]) = (sts, t', ws')" by (metis prod.exhaust)
  moreover from p s have "sts = [Fired]"
    by (auto simp: watch_pass_def toggle_list_def Let_def watch_one_def split: prod.splits)
  ultimately show ?thesis
    using watch_pass_resumes [OF ok _ p] by (simp add: toggle_list_def)
qed

end
