(* ===== verification/Session.thy ===== *)
theory Session
  imports Prefetch Toggle
begin

text \<open>
  The URB pump of one imported device, \<open>usbfwd-server/src/session.rs\<close>: a reader that turns
  commands into URBs, a reaper that turns completions into replies, a writer that owns the send
  direction of the socket. The three threads share the device, the prefetcher, a bounded queue and
  a stop flag; each has a program counter, and one step of a thread is the code between two
  accesses to shared state that another thread could observe (a lock, the queue or the flag).
  A session is any interleaving of such steps, with whatever the socket, the device and the clock
  return as input.
\<close>

definition OUTBOX_DEPTH :: nat where "OUTBOX_DEPTH = 512"

record stats =
  sa_submitted :: u64
  sa_completed :: u64
  sa_unlinked :: u64
  sa_rejected :: u64

definition stats_default :: stats where
  "stats_default = \<lparr>sa_submitted = 0, sa_completed = 0, sa_unlinked = 0, sa_rejected = 0\<rparr>"

definition stats_describe :: "stats \<Rightarrow> string" where
  "stats_describe s = show_nat (unat (sa_submitted s)) @ '' submitted, '' @ show_nat (unat (sa_completed s))
     @ '' completed, '' @ show_nat (unat (sa_unlinked s)) @ '' unlinked, ''
     @ show_nat (unat (sa_rejected s)) @ '' rejected''"

record session_opts =
  so_prefetch :: bool
  so_hotkey :: "hotkey option"

section \<open>Replies\<close>

text \<open>A buffer on its way to the writer, by what it encodes.\<close>

datatype reply = ReplySubmit u32 ret_submit "u8 list" | ReplyUnlink u32 i32

fun reply_bytes :: "reply \<Rightarrow> u8 list" where
  "reply_bytes (ReplySubmit q ret data) = ret_submit_bytes q ret data"
| "reply_bytes (ReplyUnlink q st) = ret_unlink_bytes q st"

definition encode_error :: "u32 \<Rightarrow> int \<Rightarrow> reply" where
  "encode_error q status = ReplySubmit q (ret_submit_default\<lparr>rs_status := word_of_int status\<rparr>) []"

definition data_reply :: "u32 \<Rightarrow> int \<Rightarrow> nat \<Rightarrow> u8 list \<Rightarrow> reply" where
  "data_reply q status actual data =
     ReplySubmit q (ret_submit_default\<lparr>rs_status := word_of_int status, rs_actual_length := of_nat actual\<rparr>) data"

section \<open>State\<close>

datatype reader_pc =
    RdTop
  | RdRead
  | RdSubmit urb_request
  | RdUnlink u32 u32
  | RdPost reply
  | RdPanic
  | RdOver "io_error + unit"
  | RdShutdown "io_error + unit"
  | RdJoin "io_error + unit"
  | RdEnded "io_error + unit"

datatype reaper_pc =
    RpTop
  | RpReap bool wake
  | RpGot urb_completion bool wake
  | RpPost reply bool wake
  | RpAfter bool wake
  | RpExit
  | RpOver

datatype writer_pc = WrTop | WrSend "u8 list" | WrExit | WrOver

record 's session =
  ss_dev :: 's
  ss_prefetch :: prefetch
  ss_stop :: bool
  ss_stats :: stats
  ss_outbox :: "u8 list list"
  ss_sent :: "u8 list"
  ss_detector :: "detector option"
  ss_toggle :: toggle
  ss_reader :: reader_pc
  ss_reaper :: reaper_pc
  ss_writer :: writer_pc

text \<open>
  What a step does with a client's submission: it arrives, it is answered (a reply is handed to
  the writer), or it is dropped, for one of four reasons.
\<close>

datatype drop_reason = ByUnlink | Superseded | SessionOver | SubmitFatal

datatype sess_event = Asked u32 | Posted reply | Dropped drop_reason u32

definition count_stat :: "(stats \<Rightarrow> stats) \<Rightarrow> 's session \<Rightarrow> 's session" where
  "count_stat f st = st\<lparr>ss_stats := f (ss_stats st)\<rparr>"

abbreviation submitted1 :: "'s session \<Rightarrow> 's session" where
  "submitted1 \<equiv> count_stat (\<lambda>s. s\<lparr>sa_submitted := sa_submitted s + 1\<rparr>)"
abbreviation completed1 :: "'s session \<Rightarrow> 's session" where
  "completed1 \<equiv> count_stat (\<lambda>s. s\<lparr>sa_completed := sa_completed s + 1\<rparr>)"
abbreviation unlinked1 :: "'s session \<Rightarrow> 's session" where
  "unlinked1 \<equiv> count_stat (\<lambda>s. s\<lparr>sa_unlinked := sa_unlinked s + 1\<rparr>)"
abbreviation rejected1 :: "'s session \<Rightarrow> 's session" where
  "rejected1 \<equiv> count_stat (\<lambda>s. s\<lparr>sa_rejected := sa_rejected s + 1\<rparr>)"

section \<open>The queue\<close>

datatype post_result = PostDone | PostRefused | PostRetry

definition post :: "reply \<Rightarrow> 's session \<Rightarrow> post_result \<times> 's session" where
  "post r st =
     (if ss_writer st = WrOver then (PostRefused, st)
      else if length (ss_outbox st) < OUTBOX_DEPTH
      then (PostDone, st\<lparr>ss_outbox := ss_outbox st @ [reply_bytes r]\<rparr>)
      else if ss_stop st then (PostRefused, st) else (PostRetry, st))"

fun reply_drop :: "drop_reason \<Rightarrow> reply \<Rightarrow> sess_event list" where
  "reply_drop why (ReplySubmit q ret data) = [Dropped why q]"
| "reply_drop why (ReplyUnlink q st) = []"

section \<open>The reader\<close>

definition request_of :: "pdu \<Rightarrow> cmd_submit \<Rightarrow> urb_request" where
  "request_of p c =
     \<lparr>rq_seqnum = bh_seqnum (h_base (p_header p)), rq_ep = ucast (bh_ep (h_base (p_header p)) AND 0x0f),
      rq_dir = bh_dir (h_base (p_header p)), rq_transfer_flags = cs_transfer_flags c, rq_setup = cs_setup c,
      rq_buffer_length = nat (max (sint (cs_transfer_buffer_length c)) 0), rq_data = p_data p\<rparr>"

text \<open>The client whose place a newly waiting one takes.\<close>

definition superseded :: "u8 \<Rightarrow> prefetch \<Rightarrow> sess_event list" where
  "superseded a p = (case Option.bind (ep_at a p) pe_waiting of
     None \<Rightarrow> [] | Some w \<Rightarrow> [Dropped Superseded (wt_seqnum w)])"

definition on_submit :: "'s backend \<Rightarrow> pdu \<Rightarrow> cmd_submit \<Rightarrow> 's session \<Rightarrow> sess_event list \<times> 's session" where
  "on_submit B p c st =
     (let q = bh_seqnum (h_base (p_header p)); req = request_of p c in
      if is_iso c then ([Asked q], (rejected1 st)\<lparr>ss_reader := RdPost (encode_error q (- EOPNOTSUPP))\<rparr>)
      else if rq_dir req = In then
        (case take_report B (rq_ep req OR 0x80) q (rq_buffer_length req) (ss_prefetch st, ss_dev st) of
           (Ready data, pf, d) \<Rightarrow>
             ([Asked q], (completed1 st)\<lparr>ss_prefetch := pf, ss_dev := d,
                ss_reader := RdPost (data_reply q 0 (length data) data)\<rparr>)
         | (Waiting, pf, d) \<Rightarrow>
             ([Asked q] @ superseded (rq_ep req OR 0x80) (ss_prefetch st),
              st\<lparr>ss_prefetch := pf, ss_dev := d, ss_reader := RdTop\<rparr>)
         | (PassThrough, pf, d) \<Rightarrow>
             ([Asked q], st\<lparr>ss_prefetch := pf, ss_dev := d, ss_reader := RdSubmit req\<rparr>))
      else ([Asked q], st\<lparr>ss_reader := RdSubmit req\<rparr>))"

definition on_unlink :: "u32 \<Rightarrow> u32 \<Rightarrow> 's session \<Rightarrow> sess_event list \<times> 's session" where
  "on_unlink q target st =
     (case prefetch_unlink target (ss_prefetch st) of
        (True, pf) \<Rightarrow> ([Dropped ByUnlink target],
          (unlinked1 st)\<lparr>ss_prefetch := pf, ss_reader := RdPost (ReplyUnlink q (word_of_int (- ECONNRESET)))\<rparr>)
      | (False, pf) \<Rightarrow> ([], st\<lparr>ss_prefetch := pf, ss_reader := RdUnlink q target\<rparr>))"

definition on_pdu :: "'s backend \<Rightarrow> pdu \<Rightarrow> 's session \<Rightarrow> sess_event list \<times> 's session" where
  "on_pdu B p st = (case h_body (p_header p) of
     CmdSubmit c \<Rightarrow> on_submit B p c st
   | CmdUnlink u \<Rightarrow> on_unlink (bh_seqnum (h_base (p_header p))) (cu_unlink_seqnum u) st
   | _ \<Rightarrow> ([], st\<lparr>ss_reader := RdPanic\<rparr>))"

definition on_read_error :: "io_error \<Rightarrow> bool \<Rightarrow> io_error + unit" where
  "on_read_error e stop =
     (if io_error_kind e = UnexpectedEof \<or> io_error_kind e = ConnectionReset then Inr ()
      else if stop then Inr () else Inl e)"

definition do_submit_req :: "'s backend \<Rightarrow> urb_request \<Rightarrow> 's session \<Rightarrow> sess_event list \<times> 's session" where
  "do_submit_req B req st =
     (case bk_submit B req (ss_dev st) of
        (Inr u, d) \<Rightarrow> ([], (submitted1 st)\<lparr>ss_dev := d, ss_reader := RdTop\<rparr>)
      | (Inl (Handled s), d) \<Rightarrow>
          ([], (completed1 st)\<lparr>ss_dev := d, ss_reader := RdPost (encode_error (rq_seqnum req) s)\<rparr>)
      | (Inl (Urb s), d) \<Rightarrow>
          ([], (rejected1 st)\<lparr>ss_dev := d, ss_reader := RdPost (encode_error (rq_seqnum req) s)\<rparr>)
      | (Inl (Fatal e), d) \<Rightarrow>
          ([Dropped SubmitFatal (rq_seqnum req)], st\<lparr>ss_dev := d, ss_reader := RdOver (Inl e)\<rparr>))"

definition waiters :: "prefetch \<Rightarrow> u32 list" where
  "waiters p = (case p of None \<Rightarrow> []
     | Some i \<Rightarrow> map wt_seqnum (List.map_filter (pe_waiting \<circ> snd) (in_eps i)))"

text \<open>
  One step of the reader, and of \<open>run\<close> after its loop: \<open>down\<close> is what \<open>shutting_down\<close> says and
  \<open>r\<close> what the read returns, in the steps that ask.
\<close>

fun reader_step :: "'s backend \<Rightarrow> bool \<Rightarrow> io_error + pdu \<Rightarrow> 's session \<Rightarrow> sess_event list \<times> 's session" where
  "reader_step B down r st = (case ss_reader st of
     RdTop \<Rightarrow> ([], st\<lparr>ss_reader := if ss_stop st \<or> down then RdOver (Inr ()) else RdRead\<rparr>)
   | RdRead \<Rightarrow> (case r of
       Inl e \<Rightarrow> ([], st\<lparr>ss_reader := RdOver (on_read_error e (ss_stop st))\<rparr>)
     | Inr p \<Rightarrow> on_pdu B p st)
   | RdSubmit req \<Rightarrow> do_submit_req B req st
   | RdUnlink q target \<Rightarrow>
       (let (cancelled, d) = bk_unlink B target (ss_dev st)
        in ([], (unlinked1 st)\<lparr>ss_dev := d, ss_reader := RdPost (ReplyUnlink q
              (if cancelled then word_of_int (- ECONNRESET) else 0))\<rparr>))
   | RdPost m \<Rightarrow> (case post m st of
       (PostDone, st') \<Rightarrow> ([Posted m], st'\<lparr>ss_reader := RdTop\<rparr>)
     | (PostRefused, st') \<Rightarrow> (reply_drop SessionOver m, st'\<lparr>ss_reader := RdOver (Inr ())\<rparr>)
     | (PostRetry, st') \<Rightarrow> ([], st'))
   | RdPanic \<Rightarrow> ([], st)
   | RdOver res \<Rightarrow> ([], st\<lparr>ss_stop := True, ss_reader := RdShutdown res\<rparr>)
   | RdShutdown res \<Rightarrow>
       (let (pf, d) = prefetch_shutdown B (ss_prefetch st, ss_dev st)
        in (map (Dropped SessionOver) (waiters (ss_prefetch st)),
            st\<lparr>ss_prefetch := pf, ss_dev := d, ss_reader := RdJoin res\<rparr>))
   | RdJoin res \<Rightarrow>
       (if ss_reaper st = RpOver \<and> ss_writer st = WrOver
        then ([], st\<lparr>ss_dev := bk_cancel_pending B (ss_dev st), ss_reader := RdEnded res\<rparr>)
        else ([], st))
   | RdEnded res \<Rightarrow> ([], st))"

section \<open>The reaper\<close>

definition screen :: "nat \<Rightarrow> detector option \<Rightarrow> urb_completion \<Rightarrow> bool \<times> detector option \<times> urb_completion" where
  "screen now det c = (case det of
     None \<Rightarrow> (False, None, c)
   | Some d \<Rightarrow>
       if uc_status c \<noteq> 0 \<or> uc_data c = [] then (False, Some d, c)
       else let (v, d') = feed (uc_data c) now d
            in (vd_fired v, Some d', if vd_swallow v then c\<lparr>uc_data := [], uc_actual_length := 0\<rparr> else c))"

definition on_internal :: "'s backend \<Rightarrow> nat \<Rightarrow> urb_completion \<Rightarrow> bool \<Rightarrow> wake \<Rightarrow> 's session \<Rightarrow> sess_event list \<times> 's session" where
  "on_internal B now c f w st =
     (if uc_unlinked c then ([], st\<lparr>ss_reaper := RpReap f w\<rparr>)
      else let (fired, det, c') = screen now (ss_detector st) c;
               (reply, pf, d) = deliver B (uc_seqnum c') (uc_status c') (uc_data c') (ss_prefetch st, ss_dev st);
               st' = st\<lparr>ss_detector := det, ss_prefetch := pf, ss_dev := d\<rparr>
           in case reply of
                None \<Rightarrow> ([], st'\<lparr>ss_reaper := RpReap (f \<or> fired) w\<rparr>)
              | Some (q, status, data) \<Rightarrow>
                  ([], (completed1 st')\<lparr>ss_reaper := RpPost (data_reply q status (length data) data) (f \<or> fired) w\<rparr>))"

definition on_client :: "nat \<Rightarrow> urb_completion \<Rightarrow> bool \<Rightarrow> wake \<Rightarrow> 's session \<Rightarrow> sess_event list \<times> 's session" where
  "on_client now c f w st =
     (if uc_unlinked c then ([Dropped ByUnlink (uc_seqnum c)], st\<lparr>ss_reaper := RpReap f w\<rparr>)
      else let (fired, det, c') = screen now (ss_detector st) c
           in ([], (completed1 st)\<lparr>ss_detector := det, ss_reaper :=
                RpPost (data_reply (uc_seqnum c') (uc_status c') (uc_actual_length c') (uc_data c')) (f \<or> fired) w\<rparr>))"

definition after_drain :: "hotkey option \<Rightarrow> string \<Rightarrow> bool \<Rightarrow> wake \<Rightarrow> 's session \<Rightarrow> 's session" where
  "after_drain hk busid f w st =
     (if f then st\<lparr>ss_toggle := (if hk = None then ss_toggle st else snd (suspend busid (ss_toggle st))),
                   ss_reaper := RpExit\<rparr>
      else if wk_gone w then st\<lparr>ss_reaper := RpExit\<rparr>
      else st\<lparr>ss_reaper := RpTop\<rparr>)"

fun reaper_step :: "'s backend \<Rightarrow> hotkey option \<Rightarrow> string \<Rightarrow> nat \<Rightarrow> 's session \<Rightarrow> sess_event list \<times> 's session" where
  "reaper_step B hk busid now st = (case ss_reaper st of
     RpTop \<Rightarrow>
       (if ss_stop st then ([], st\<lparr>ss_reaper := RpExit\<rparr>)
        else case bk_wait B (ss_dev st) of
          (Inl e, d) \<Rightarrow> ([], st\<lparr>ss_dev := d, ss_reaper := RpExit\<rparr>)
        | (Inr w, d) \<Rightarrow> ([], st\<lparr>ss_dev := d, ss_reaper := if wk_ready w then RpReap False w else RpAfter False w\<rparr>))
   | RpReap f w \<Rightarrow>
       (case bk_reap B (ss_dev st) of
          (Inr (Some c), d) \<Rightarrow> ([], st\<lparr>ss_dev := d, ss_reaper := RpGot c f w\<rparr>)
        | (Inr None, d) \<Rightarrow> ([], st\<lparr>ss_dev := d, ss_reaper := RpAfter f w\<rparr>)
        | (Inl e, d) \<Rightarrow> ([], st\<lparr>ss_dev := d, ss_stop := True, ss_reaper := RpAfter f w\<rparr>))
   | RpGot c f w \<Rightarrow> if owns (uc_seqnum c) then on_internal B now c f w st else on_client now c f w st
   | RpPost m f w \<Rightarrow> (case post m st of
       (PostDone, st') \<Rightarrow> ([Posted m], st'\<lparr>ss_reaper := RpReap f w\<rparr>)
     | (PostRefused, st') \<Rightarrow> (reply_drop SessionOver m, st'\<lparr>ss_stop := True, ss_reaper := RpAfter f w\<rparr>)
     | (PostRetry, st') \<Rightarrow> ([], st'))
   | RpAfter f w \<Rightarrow> ([], after_drain hk busid f w st)
   | RpExit \<Rightarrow> ([], st\<lparr>ss_stop := True, ss_reaper := RpOver\<rparr>)
   | RpOver \<Rightarrow> ([], st))"

section \<open>The writer\<close>

definition senders_gone :: "'s session \<Rightarrow> bool" where
  "senders_gone st \<longleftrightarrow> ss_reaper st = RpOver
     \<and> (case ss_reader st of RdJoin r \<Rightarrow> True | RdEnded r \<Rightarrow> True | _ \<Rightarrow> False)"

text \<open>\<open>failed\<close> is the number of bytes that went out before \<open>write_all\<close> failed, if it did.\<close>

fun writer_step :: "nat option \<Rightarrow> 's session \<Rightarrow> 's session" where
  "writer_step failed st = (case ss_writer st of
     WrTop \<Rightarrow> (case ss_outbox st of
         b # bs \<Rightarrow> st\<lparr>ss_outbox := bs, ss_writer := WrSend b\<rparr>
       | [] \<Rightarrow> if senders_gone st then st\<lparr>ss_writer := WrExit\<rparr> else st)
   | WrSend b \<Rightarrow> (case failed of
         None \<Rightarrow> st\<lparr>ss_sent := ss_sent st @ b, ss_writer := WrTop\<rparr>
       | Some n \<Rightarrow> st\<lparr>ss_sent := ss_sent st @ take n b, ss_writer := WrExit\<rparr>)
   | WrExit \<Rightarrow> st\<lparr>ss_stop := True, ss_writer := WrOver\<rparr>
   | WrOver \<Rightarrow> st)"

section \<open>A session\<close>

definition session_start :: "'s backend \<Rightarrow> session_opts \<Rightarrow> toggle \<Rightarrow> 's \<Rightarrow> 's session" where
  "session_start B opts t d =
     (let (pf, d') = arm B (prefetch_new B (so_prefetch opts) d, d)
      in \<lparr>ss_dev = d', ss_prefetch = pf, ss_stop = False, ss_stats = stats_default, ss_outbox = [],
          ss_sent = [], ss_detector = map_option hotkey_detector (so_hotkey opts), ss_toggle = t,
          ss_reader = RdTop, ss_reaper = RpTop, ss_writer = WrTop\<rparr>)"

text \<open>The reader's input is what \<open>read_pdu\<close> makes of whatever bytes are on the connection.\<close>

inductive session_step :: "'s backend \<Rightarrow> hotkey option \<Rightarrow> string \<Rightarrow> nat \<Rightarrow> 's session \<Rightarrow> sess_event list \<Rightarrow> 's session \<Rightarrow> bool"
  for B :: "'s backend" and hk :: "hotkey option" and busid :: string and max_transfer :: nat where
  reader: "reader_step B down (rbind (read_pdu max_transfer s) (Inr \<circ> fst)) st = (ev, st') \<Longrightarrow>
    session_step B hk busid max_transfer st ev st'"
| reaper: "reaper_step B hk busid now st = (ev, st') \<Longrightarrow> session_step B hk busid max_transfer st ev st'"
| writer: "session_step B hk busid max_transfer st [] (writer_step failed st)"

inductive session_trace :: "'s backend \<Rightarrow> hotkey option \<Rightarrow> string \<Rightarrow> nat \<Rightarrow> 's session \<Rightarrow> sess_event list \<Rightarrow> 's session \<Rightarrow> bool"
  for B :: "'s backend" and hk :: "hotkey option" and busid :: string and max_transfer :: nat and st0 :: "'s session" where
  start: "session_trace B hk busid max_transfer st0 [] st0"
| step: "session_trace B hk busid max_transfer st0 tr st \<Longrightarrow> session_step B hk busid max_transfer st ev st' \<Longrightarrow>
    session_trace B hk busid max_transfer st0 (tr @ ev) st'"

text \<open>
  What \<open>run\<close> makes of a device and the toggle, and what it returns: the session that ends, or
  the error of a connection that could not be cloned or a thread that could not be started. In
  the second case the prefetcher has been armed and nothing is cancelled.
\<close>

inductive session_run :: "'s backend \<Rightarrow> session_opts \<Rightarrow> string \<Rightarrow> nat \<Rightarrow> toggle \<Rightarrow> 's \<Rightarrow> 's \<Rightarrow> toggle \<Rightarrow> io_error + unit \<Rightarrow> bool"
  for B :: "'s backend" and opts :: session_opts and busid :: string and max_transfer :: nat and t :: toggle and d :: 's where
  RunEnds: "session_trace B (so_hotkey opts) busid max_transfer (session_start B opts t d) tr st \<Longrightarrow>
    ss_reader st = RdEnded res \<Longrightarrow>
    session_run B opts busid max_transfer t d (ss_dev st) (ss_toggle st) res"
| NoThreads: "session_run B opts busid max_transfer t d (ss_dev (session_start B opts t d)) t (Inl e)"

lemmas step_defs = reader_step.simps reaper_step.simps writer_step.simps
declare step_defs [simp del]

section \<open>Where a submission is\<close>

text \<open>
  For one sequence number: how many submissions arrived, were answered and were dropped in a
  trace, and how many the parts of a session still hold.
\<close>

fun answers :: "u32 \<Rightarrow> sess_event \<Rightarrow> bool" where
  "answers q (Posted (ReplySubmit q' ret data)) = (q' = q)"
| "answers q _ = False"

fun drops :: "u32 \<Rightarrow> sess_event \<Rightarrow> bool" where
  "drops q (Dropped why q') = (q' = q)"
| "drops q _ = False"

definition asked :: "u32 \<Rightarrow> sess_event list \<Rightarrow> nat" where
  "asked q tr = length (filter (\<lambda>e. e = Asked q) tr)"

definition answered :: "u32 \<Rightarrow> sess_event list \<Rightarrow> nat" where
  "answered q tr = length (filter (answers q) tr)"

definition dropped :: "u32 \<Rightarrow> sess_event list \<Rightarrow> nat" where
  "dropped q tr = length (filter (drops q) tr)"

lemmas event_counts = asked_def answered_def dropped_def

fun reply_for :: "u32 \<Rightarrow> reply \<Rightarrow> nat" where
  "reply_for q (ReplySubmit q' ret data) = of_bool (q' = q)"
| "reply_for q (ReplyUnlink q' st) = 0"

fun reader_holds :: "u32 \<Rightarrow> reader_pc \<Rightarrow> nat" where
  "reader_holds q (RdSubmit req) = of_bool (rq_seqnum req = q)"
| "reader_holds q (RdPost m) = reply_for q m"
| "reader_holds q _ = 0"

fun reaper_holds :: "u32 \<Rightarrow> reaper_pc \<Rightarrow> nat" where
  "reaper_holds q (RpGot c f w) = of_bool (uc_seqnum c = q)"
| "reaper_holds q (RpPost m f w) = reply_for q m"
| "reaper_holds q _ = 0"

definition waiting_for :: "u32 \<Rightarrow> prefetch \<Rightarrow> nat" where
  "waiting_for q p = count_list (waiters p) q"

definition outstanding :: "('s \<Rightarrow> u32 \<Rightarrow> bool option) \<Rightarrow> u32 \<Rightarrow> 's session \<Rightarrow> nat" where
  "outstanding table q st =
     of_bool (table (ss_dev st) q \<noteq> None) + waiting_for q (ss_prefetch st)
     + reader_holds q (ss_reader st) + reaper_holds q (ss_reaper st)"

subsection \<open>Waiting clients\<close>

definition wq :: "u32 \<Rightarrow> endpoint \<Rightarrow> nat" where
  "wq q ep = (case pe_waiting ep of None \<Rightarrow> 0 | Some w \<Rightarrow> of_bool (wt_seqnum w = q))"

lemma waiting_for_None [simp]: "waiting_for q None = 0"
  by (simp add: waiting_for_def waiters_def)

lemma waiting_for_Some: "waiting_for q (Some i) = sum_list (map (wq q \<circ> snd) (in_eps i))"
proof -
  have "count_list (map wt_seqnum (List.map_filter (pe_waiting \<circ> snd) es)) q = sum_list (map (wq q \<circ> snd) es)"
    for es :: "(u8 \<times> endpoint) list"
    by (induction es) (auto simp: map_filter_simps wq_def split: option.split)
  then show ?thesis by (simp add: waiting_for_def waiters_def)
qed

lemma waiting_put:
  assumes "map_of (in_eps i) a = Some ep0"
  shows "waiting_for q (Some (put_ep a ep i)) + wq q ep0 = waiting_for q (Some i) + wq q ep"
proof -
  have "map_of es a = Some ep0 \<Longrightarrow> sum_list (map (wq q \<circ> snd) (AList.update a ep es)) + wq q ep0 =
      sum_list (map (wq q \<circ> snd) es) + wq q ep" for es
    by (induction es) (auto split: if_splits)
  from this [OF assms] show ?thesis by (simp add: waiting_for_Some put_ep_def)
qed

lemma waiting_put_same:
  "map_of (in_eps i) a = Some ep0 \<Longrightarrow> wq q ep = wq q ep0 \<Longrightarrow>
     waiting_for q (Some (put_ep a ep i)) = waiting_for q (Some i)"
  using waiting_put [of i a ep0 q ep] by simp

lemma arm_outcome_wq [simp]: "wq q (arm_outcome x r ep) = wq q ep"
  by (simp add: wq_def)

lemma waiting_arm_one: "waiting_for q (Some (fst (arm_one B a (i, s)))) = waiting_for q (Some i)"
proof -
  have next_irrelevant: "waiting_for q (Some (i'\<lparr>in_next_seqnum := n\<rparr>)) = waiting_for q (Some i')" for i' n
    by (simp add: waiting_for_Some)
  show ?thesis
    by (auto simp: arm_one_def Let_def next_irrelevant waiting_put_same simp del: arm_outcome.simps
        split: option.split prod.split)
qed

lemma waiting_unlink:
  "prefetch_unlink x p = (b, p') \<Longrightarrow> waiting_for q p' + of_bool (b \<and> x = q) = waiting_for q p"
proof -
  assume u: "prefetch_unlink x p = (b, p')"
  have "unlink_eps x es = (b, es') \<Longrightarrow>
      sum_list (map (wq q \<circ> snd) es') + of_bool (b \<and> x = q) = sum_list (map (wq q \<circ> snd) es)" for es es'
    by (induction x es arbitrary: es' rule: unlink_eps.induct)
       (auto simp: wq_def split: if_splits prod.splits option.splits)
  then show ?thesis using u
    by (auto simp: prefetch_unlink_def waiting_for_Some split: option.splits prod.splits)
qed

lemma quiesce_wq [simp]: "wq q (quiesce ep) = 0"
  by (simp add: quiesce_def wq_def)

lemma waiting_shutdown: "waiting_for q (fst (prefetch_shutdown B (p, s))) = 0"
proof (cases p)
  case (Some i)
  obtain es s' where e: "shutdown_eps B (in_eps i) s = (es, s')" by force
  then have "es = map (\<lambda>(a, ep). (a, quiesce ep)) (in_eps i)"
    using shutdown_eps_eq [of B "in_eps i" s] by simp
  then show ?thesis using Some e by (simp add: prefetch_shutdown_def waiting_for_Some comp_def split_beta)
qed (simp add: prefetch_shutdown_def)

lemma dropped_waiters: "dropped q (map (Dropped why) (waiters p)) = waiting_for q p"
proof -
  have "length (filter (drops q) (map (Dropped why) xs)) = count_list xs q" for xs
    by (induction xs) auto
  then show ?thesis by (simp add: dropped_def waiting_for_def)
qed

section \<open>The device a session pumps\<close>

text \<open>
  What the session relies on beyond submitting, cancelling and reaping: waiting changes nothing,
  and cancelling everything leaves only cancelled entries of those that were there.
\<close>

locale pumped_device = urb_backend ok table "bk_submit B" "bk_unlink B" "bk_reap B"
  for ok :: "'s \<Rightarrow> bool" and table :: "'s \<Rightarrow> u32 \<Rightarrow> bool option" and B :: "'s backend" +
  assumes wait_law: "ok s \<Longrightarrow> bk_wait B s = (r, s') \<Longrightarrow> ok s' \<and> table s' = table s"
    and cancel_law: "ok s \<Longrightarrow> ok (bk_cancel_pending B s)
      \<and> (table (bk_cancel_pending B s) q = None \<or> table s q \<noteq> None \<and> table (bk_cancel_pending B s) q = Some True)"
begin

lemma arm_one_table:
  assumes "ok s" "inner_inv i" "arm_one B a (i, s) = (i', s')"
  shows "ok s' \<and> (\<not> owns q \<longrightarrow> table s' q = table s q)"
proof (cases "\<exists>ep. map_of (in_eps i) a = Some ep \<and> \<not> pe_disabled ep \<and> pe_in_flight ep = None")
  case False
  then have "s' = s" using assms(3) by (auto simp: arm_one_def split: option.splits if_splits)
  then show ?thesis using assms(1) by simp
next
  case True
  then obtain ep where ep: "map_of (in_eps i) a = Some ep" "\<not> pe_disabled ep" "pe_in_flight ep = None" by blast
  define req where "req = arm_request (in_next_seqnum i) ep"
  have req: "length (rq_setup req) = 8" "owns (rq_seqnum req)"
    using assms(2) by (simp_all add: req_def arm_request_def inner_inv_def)
  obtain r where r: "bk_submit B req s = (r, s')"
    using assms(3) ep by (auto simp: arm_one_def Let_def req_def split: prod.splits if_splits)
  show ?thesis
  proof (cases r)
    case (Inl e)
    then show ?thesis using submit_err [OF assms(1) req(1)] r by simp
  next
    case (Inr u)
    then show ?thesis using submit_ok [OF assms(1) req(1)] r req(2) by auto
  qed
qed

lemma fold_arm_table:
  "ok s \<Longrightarrow> inner_inv i \<Longrightarrow> fold (arm_one B) as (i, s) = (i', s') \<Longrightarrow>
     ok s' \<and> inner_inv i' \<and> (\<not> owns q \<longrightarrow> table s' q = table s q)
     \<and> waiting_for q (Some i') = waiting_for q (Some i)"
proof (induction as arbitrary: i s)
  case (Cons a as)
  obtain i1 s1 where a: "arm_one B a (i, s) = (i1, s1)" by (rule prod.exhaust)
  have i1: "inner_inv i1" using arm_one_inv [OF Cons.prems(2), of B a s] a by simp
  have s1: "ok s1 \<and> (\<not> owns q \<longrightarrow> table s1 q = table s q)" by (rule arm_one_table [OF Cons.prems(1,2) a])
  have w: "waiting_for q (Some i1) = waiting_for q (Some i)" using waiting_arm_one [of q B a i s] a by simp
  have f: "fold (arm_one B) as (i1, s1) = (i', s')" using Cons.prems(3) a by simp
  show ?case using Cons.IH [OF _ i1 f] s1 w by metis
qed simp

lemma arm_table:
  assumes "ok s" "prefetch_inv p" "arm B (p, s) = (p', s')"
  shows "ok s' \<and> prefetch_inv p' \<and> (\<not> owns q \<longrightarrow> table s' q = table s q) \<and> waiting_for q p' = waiting_for q p"
proof (cases p)
  case None
  then show ?thesis using assms by (simp add: arm_def)
next
  case (Some i)
  obtain i' where "fold (arm_one B) (map fst (in_eps i)) (i, s) = (i', s')" "p' = Some i'"
    using assms(3) Some by (auto simp: arm_def split: prod.splits)
  then show ?thesis using fold_arm_table [OF assms(1), of i _ i' s' q] assms(2) Some by simp
qed

lemma take_effect:
  assumes "ok s" "prefetch_inv p" "take_report B a x n (p, s) = (t, p', s')" "\<not> owns q"
  shows "ok s' \<and> prefetch_inv p' \<and> table s' q = table s q
    \<and> waiting_for q p' + (if t = Waiting then dropped q (superseded a p) else 0)
      = waiting_for q p + of_bool (t = Waiting \<and> x = q)"
proof (cases "\<exists>i ep. p = Some i \<and> map_of (in_eps i) a = Some ep \<and> \<not> pe_disabled ep")
  case False
  then have "t = PassThrough \<and> p' = p \<and> s' = s"
    using assms(3) by (auto simp: take_report_def split: option.splits if_splits)
  then show ?thesis using assms by simp
next
  case True
  then obtain i ep where p: "p = Some i" and ep: "map_of (in_eps i) a = Some ep" and en: "\<not> pe_disabled ep" by blast
  define ep' where "ep' = (case pe_captured ep of d # ds \<Rightarrow> ep\<lparr>pe_captured := ds\<rparr>
     | [] \<Rightarrow> ep\<lparr>pe_waiting := Some \<lparr>wt_seqnum = x, wt_max_len = n\<rparr>\<rparr>)"
  obtain i' where arm: "arm_one B a (put_ep a ep' i, s) = (i', s')" and p': "p' = Some i'"
    and t: "(t = Waiting) = (pe_captured ep = [])"
    using assms(3) p ep en by (auto simp: take_report_def ep'_def split: list.splits prod.splits)
  have i: "inner_inv i" using assms(2) p by simp
  have "ep_inv ep'"
    using ep_inv_pop [OF inner_inv_at [OF i ep]] ep_inv_wait [OF inner_inv_at [OF i ep]]
    by (auto simp: ep'_def split: list.split)
  then have i2: "inner_inv (put_ep a ep' i)" using i by blast
  have w: "waiting_for q p' + wq q ep = waiting_for q p + wq q ep'"
    using waiting_arm_one [of q B a "put_ep a ep' i" s] arm p p' waiting_put [OF ep, of q ep'] by simp
  have "ok s' \<and> prefetch_inv p' \<and> table s' q = table s q"
    using arm_one_table [OF assms(1) i2 arm, of q] arm_one_inv [OF i2, of B a s] arm p' assms(4) by simp
  moreover have "dropped q (superseded a p) = wq q ep"
    using p ep by (simp add: superseded_def ep_at_def wq_def dropped_def split: option.split)
  moreover have "wq q ep' = (if pe_captured ep = [] then of_bool (x = q) else wq q ep)"
    by (auto simp: ep'_def wq_def split: list.split)
  ultimately show ?thesis using w t by (cases "pe_captured ep = []") simp_all
qed

lemma deliver_effect:
  assumes "ok s" "prefetch_inv p" "deliver B x status data (p, s) = (r, p', s')" "\<not> owns q"
  shows "ok s' \<and> prefetch_inv p' \<and> table s' q = table s q
    \<and> waiting_for q p' + (case r of None \<Rightarrow> 0 | Some (w, _, _) \<Rightarrow> of_bool (w = q)) = waiting_for q p"
proof (cases "\<exists>i b ep. p = Some i \<and> in_flight_at x i = Some (b, ep)")
  case False
  then have "r = None \<and> p' = p \<and> s' = s"
    using assms(3) by (auto simp: deliver_def split: option.splits)
  then show ?thesis using assms by simp
next
  case True
  then obtain i b ep where p: "p = Some i" and fl: "in_flight_at x i = Some (b, ep)" by blast
  have i: "inner_inv i" using assms(2) p by simp
  have ep: "map_of (in_eps i) b = Some ep" "\<not> pe_disabled ep"
    using in_flight_at_map_of [OF i fl] by auto
  obtain ep' i' where d: "deliver_ep status data ep = (r, ep')"
    and arm: "arm_one B b (put_ep b ep' i, s) = (i', s')" and p': "p' = Some i'"
    using assms(3) p fl by (auto simp: deliver_def split: prod.splits)
  have i2: "inner_inv (put_ep b ep' i)"
    using deliver_ep_inv [OF inner_inv_at [OF i ep(1)] ep(2) d] i by blast
  have "wq q ep' = 0" "(case r of None \<Rightarrow> 0 | Some (w, _, _) \<Rightarrow> of_bool (w = q)) = wq q ep"
    using d by (auto simp: deliver_ep_def Let_def wq_def split: if_splits option.splits)
  moreover have "ok s' \<and> prefetch_inv p' \<and> table s' q = table s q"
    using arm_one_table [OF assms(1) i2 arm, of q] arm_one_inv [OF i2, of B b s] arm p' assms(4) by simp
  moreover have "waiting_for q p' + wq q ep = waiting_for q p + wq q ep'"
    using waiting_arm_one [of q B b "put_ep b ep' i" s] arm p p' waiting_put [OF ep(1), of q ep'] by simp
  ultimately show ?thesis by simp
qed

lemma shutdown_effect:
  assumes "ok s" "prefetch_inv p" "prefetch_shutdown B (p, s) = (p', s')" "\<not> owns q"
  shows "ok s' \<and> prefetch_inv p' \<and> table s' q = table s q \<and> waiting_for q p' = 0"
proof -
  have "ok s \<Longrightarrow> list_all (ep_inv \<circ> snd) es \<Longrightarrow> shutdown_eps B es s = (es', s') \<Longrightarrow> ok s' \<and> table s' q = table s q"
    for es es' and s s'
  proof (induction es arbitrary: s es')
    case (Cons x es)
    obtain a ep where x: "x = (a, ep)" by force
    define s1 where "s1 = (case pe_in_flight ep of Some q \<Rightarrow> snd (bk_unlink B q s) | None \<Rightarrow> s)"
    have "ok s1 \<and> table s1 q = table s q"
    proof (cases "pe_in_flight ep")
      case None
      then show ?thesis using Cons.prems(1) by (simp add: s1_def)
    next
      case (Some k)
      then have "owns k" using Cons.prems(2) x by (simp add: ep_inv_def)
      then have "k \<noteq> q" using assms(4) by auto
      moreover obtain b s2 where "bk_unlink B k s = (b, s2)" by force
      ultimately show ?thesis using Some unlink_law [OF Cons.prems(1), of k b s2] by (auto simp: s1_def)
    qed
    then show ?case
      using Cons.IH [of s1] Cons.prems x by (auto simp: Let_def s1_def split: prod.splits)
  qed simp
  then show ?thesis
    using assms waiting_shutdown [of q B p s] shutdown_inv [OF assms(2), of B s]
    by (auto simp: prefetch_shutdown_def inner_inv_def split: option.splits prod.splits)
qed

end

section \<open>Every submission has one fate\<close>

fun ended :: "reader_pc \<Rightarrow> bool" where
  "ended (RdEnded r) = True"
| "ended _ = False"

fun reader_ok :: "reader_pc \<Rightarrow> bool" where
  "reader_ok (RdSubmit req) = (length (rq_setup req) = 8)"
| "reader_ok RdPanic = False"
| "reader_ok _ = True"

definition pdu_cmd :: "pdu \<Rightarrow> bool" where
  "pdu_cmd p \<longleftrightarrow> (case h_body (p_header p) of
     CmdSubmit c \<Rightarrow> length (cs_setup c) = 8 | CmdUnlink u \<Rightarrow> True | _ \<Rightarrow> False)"

lemma read_pdu_cmd: "rbind (read_pdu m s) (Inr \<circ> fst) = Inr p \<Longrightarrow> pdu_cmd p"
  by (auto simp: rbind_Inr_iff pdu_cmd_def pdu_ok_def header_ok_def split: body.splits dest!: read_pdu_sound)

lemma post_cases:
  "post m st = (r, st') \<Longrightarrow>
     (if r = PostDone then st' = st\<lparr>ss_outbox := ss_outbox st @ [reply_bytes m]\<rparr> else st' = st)"
  by (auto simp: post_def split: if_splits)

lemma reply_counts [simp]:
  "asked q [Posted m] = 0" "answered q [Posted m] = reply_for q m" "dropped q [Posted m] = 0"
  "asked q (reply_drop why m) = 0" "answered q (reply_drop why m) = 0" "dropped q (reply_drop why m) = reply_for q m"
  by (cases m; simp add: event_counts)+

lemma nil_counts [simp]: "asked q [] = 0" "answered q [] = 0" "dropped q [] = 0"
  by (simp_all add: event_counts)

lemma single_counts [simp]:
  "asked q [Asked x] = of_bool (x = q)" "answered q [Asked x] = 0" "dropped q [Asked x] = 0"
  "asked q [Dropped why x] = 0" "answered q [Dropped why x] = 0" "dropped q [Dropped why x] = of_bool (x = q)"
  by (simp_all add: event_counts)

lemma superseded_counts [simp]: "asked q (superseded a p) = 0" "answered q (superseded a p) = 0"
  by (simp_all add: event_counts superseded_def split: option.split)

lemma waiters_counts [simp]:
  "asked q (map (Dropped why) xs) = 0" "answered q (map (Dropped why) xs) = 0"
  by (induction xs) (simp_all add: event_counts)

lemma asked_counts [simp]:
  "asked q (Asked x # ev) = of_bool (x = q) + asked q ev" "answered q (Asked x # ev) = answered q ev"
  "dropped q (Asked x # ev) = dropped q ev"
  by (simp_all add: event_counts)

lemma append_counts:
  "asked q (ev @ ev') = asked q ev + asked q ev'" "answered q (ev @ ev') = answered q ev + answered q ev'"
  "dropped q (ev @ ev') = dropped q ev + dropped q ev'"
  by (simp_all add: event_counts)

lemma encode_error_for [simp]: "reply_for q (encode_error x s) = of_bool (x = q)"
  by (simp add: encode_error_def)

lemma data_reply_for [simp]: "reply_for q (data_reply x s n d) = of_bool (x = q)"
  by (simp add: data_reply_def)

lemma count_stat_sel [simp]:
  "ss_dev (count_stat f st) = ss_dev st" "ss_prefetch (count_stat f st) = ss_prefetch st"
  "ss_reader (count_stat f st) = ss_reader st" "ss_reaper (count_stat f st) = ss_reaper st"
  "ss_outbox (count_stat f st) = ss_outbox st" "ss_sent (count_stat f st) = ss_sent st"
  "ss_writer (count_stat f st) = ss_writer st" "ss_stop (count_stat f st) = ss_stop st"
  by (simp_all add: count_stat_def)

lemma screen_keeps: "screen now det c = (f, det', c') \<Longrightarrow>
    uc_seqnum c' = uc_seqnum c \<and> uc_status c' = uc_status c \<and> uc_unlinked c' = uc_unlinked c"
  by (auto simp: screen_def Let_def split: option.splits if_splits prod.splits)

lemma after_drain_sel [simp]:
  "ss_dev (after_drain hk b f w st) = ss_dev st" "ss_prefetch (after_drain hk b f w st) = ss_prefetch st"
  "ss_reader (after_drain hk b f w st) = ss_reader st" "reaper_holds q (ss_reaper (after_drain hk b f w st)) = 0"
  "ss_outbox (after_drain hk b f w st) = ss_outbox st" "ss_sent (after_drain hk b f w st) = ss_sent st"
  "ss_writer (after_drain hk b f w st) = ss_writer st"
  by (simp_all add: after_drain_def)

lemma writer_step_sel [simp]:
  "ss_dev (writer_step n st) = ss_dev st" "ss_prefetch (writer_step n st) = ss_prefetch st"
  "ss_reader (writer_step n st) = ss_reader st" "ss_reaper (writer_step n st) = ss_reaper st"
  by (simp_all add: writer_step.simps split: writer_pc.split list.split option.split)

context pumped_device
begin

definition sess_inv :: "'s session \<Rightarrow> bool" where
  "sess_inv st \<longleftrightarrow> ok (ss_dev st) \<and> prefetch_inv (ss_prefetch st) \<and> reader_ok (ss_reader st)"

definition balanced :: "u32 \<Rightarrow> 's session \<Rightarrow> sess_event list \<Rightarrow> 's session \<Rightarrow> bool" where
  "balanced q st ev st' \<longleftrightarrow>
     asked q ev + outstanding table q st = answered q ev + dropped q ev + outstanding table q st'"

lemma on_submit_fate:
  assumes "sess_inv st" "ss_reader st = RdRead" "length (cs_setup c) = 8" "on_submit B p c st = (ev, st')" "\<not> owns q"
  shows "sess_inv st' \<and> balanced q st ev st'"
proof -
  let ?q = "bh_seqnum (h_base (p_header p))" and ?req = "request_of p c"
  have seq: "rq_seqnum ?req = ?q" "length (rq_setup ?req) = 8" using assms(3) by (simp_all add: request_of_def)
  consider "is_iso c" | "\<not> is_iso c" "rq_dir ?req \<noteq> In" | "\<not> is_iso c" "rq_dir ?req = In" by blast
  then show ?thesis
  proof cases
    case 1
    then show ?thesis using assms by (auto simp: on_submit_def Let_def sess_inv_def balanced_def outstanding_def)
  next
    case 2
    then show ?thesis using assms seq by (auto simp: on_submit_def Let_def sess_inv_def balanced_def outstanding_def)
  next
    case 3
    obtain t pf d where t: "take_report B (rq_ep ?req OR 0x80) ?q (rq_buffer_length ?req) (ss_prefetch st, ss_dev st) = (t, pf, d)"
      by (metis prod.exhaust)
    have e: "ok d \<and> prefetch_inv pf \<and> table d q = table (ss_dev st) q
      \<and> waiting_for q pf + (if t = Waiting then dropped q (superseded (rq_ep ?req OR 0x80) (ss_prefetch st)) else 0)
        = waiting_for q (ss_prefetch st) + of_bool (t = Waiting \<and> ?q = q)"
      using take_effect [OF _ _ t assms(5)] assms(1) by (simp add: sess_inv_def)
    show ?thesis
      using assms 3 t e seq
      by (cases t) (auto simp: on_submit_def Let_def sess_inv_def balanced_def outstanding_def)
  qed
qed

lemma on_unlink_fate:
  assumes "sess_inv st" "ss_reader st = RdRead" "on_unlink u x st = (ev, st')" "\<not> owns q"
  shows "sess_inv st' \<and> balanced q st ev st'"
proof -
  obtain b pf where u: "prefetch_unlink x (ss_prefetch st) = (b, pf)" by (rule prod.exhaust)
  have "prefetch_inv pf" using unlink_inv [of "ss_prefetch st" x] assms(1) u by (simp add: sess_inv_def)
  then show ?thesis
    using assms u waiting_unlink [OF u, of q]
    by (cases b) (auto simp: on_unlink_def sess_inv_def balanced_def outstanding_def)
qed

lemma do_submit_fate:
  assumes "sess_inv st" "ss_reader st = RdSubmit req" "do_submit_req B req st = (ev, st')"
  shows "sess_inv st' \<and> balanced q st ev st'"
proof -
  obtain r d where r: "bk_submit B req (ss_dev st) = (r, d)" by (rule prod.exhaust)
  have pre: "ok (ss_dev st)" "length (rq_setup req) = 8" using assms(1,2) by (simp_all add: sess_inv_def)
  show ?thesis
  proof (cases r)
    case (Inr u)
    then have r': "bk_submit B req (ss_dev st) = (Inr (), d)" using r by simp
    have tb: "ok d" "table (ss_dev st) (rq_seqnum req) = None" "table d = (table (ss_dev st))(rq_seqnum req \<mapsto> False)"
      using submit_ok [OF pre r'] by blast+
    have "ev = []" "st' = (submitted1 st)\<lparr>ss_dev := d, ss_reader := RdTop\<rparr>"
      using assms(3) r' by (simp_all add: do_submit_req_def)
    then show ?thesis
      using assms(1,2) tb by (cases "q = rq_seqnum req") (auto simp: sess_inv_def balanced_def outstanding_def)
  next
    case (Inl e)
    then have tb: "ok d" "table d = table (ss_dev st)" using submit_err [OF pre] r by blast+
    have "(\<exists>s f. ev = [] \<and> st' = (count_stat f st)\<lparr>ss_dev := d, ss_reader := RdPost (encode_error (rq_seqnum req) s)\<rparr>)
        \<or> (\<exists>x. ev = [Dropped SubmitFatal (rq_seqnum req)] \<and> st' = st\<lparr>ss_dev := d, ss_reader := RdOver (Inl x)\<rparr>)"
      using assms(3) r Inl by (cases e) (auto simp: do_submit_req_def)
    then show ?thesis
      using assms(1,2) tb by (elim disjE exE conjE) (simp_all add: sess_inv_def balanced_def outstanding_def)
  qed
qed

lemma unlink_dev_fate:
  assumes "sess_inv st" "bk_unlink B x (ss_dev st) = (b, d)"
  shows "ok d \<and> (table d q = None \<longleftrightarrow> table (ss_dev st) q = None)"
  using assms unlink_law [of "ss_dev st" x b d] by (auto simp: sess_inv_def split: if_splits)

text \<open>The step of \<open>run\<close> that cancels what is left is the only one that may lose a submission.\<close>

definition ends :: "'s session \<Rightarrow> 's session \<Rightarrow> bool" where
  "ends st st' \<longleftrightarrow> (\<exists>res. ss_reader st = RdJoin res \<and> ss_reader st' = RdEnded res)"

lemma reader_step_fate:
  assumes "sess_inv st" "\<And>p. r = Inr p \<Longrightarrow> pdu_cmd p" "reader_step B down r st = (ev, st')" "\<not> owns q"
  shows "sess_inv st' \<and> (if ends st st' then ev = [] \<and> outstanding table q st' \<le> outstanding table q st
    else balanced q st ev st')"
proof (cases "ss_reader st")
  case RdRead
  show ?thesis
  proof (cases r)
    case (Inl e)
    then show ?thesis
      using assms RdRead by (auto simp: reader_step.simps sess_inv_def balanced_def outstanding_def ends_def)
  next
    case (Inr p)
    have "sess_inv st' \<and> balanced q st ev st'"
    proof (cases "h_body (p_header p)")
      case (CmdSubmit c)
      then show ?thesis
        using on_submit_fate [OF assms(1) RdRead _ _ assms(4), of c p ev st'] assms(2) [OF Inr] assms(3) RdRead Inr
        by (simp add: reader_step.simps on_pdu_def pdu_cmd_def)
    next
      case (CmdUnlink u)
      then show ?thesis
        using on_unlink_fate [OF assms(1) RdRead _ assms(4)] assms(3) RdRead Inr
        by (simp add: reader_step.simps on_pdu_def)
    qed (use assms(2) [OF Inr] in \<open>simp_all add: pdu_cmd_def\<close>)
    then show ?thesis using RdRead by (simp add: ends_def)
  qed
next
  case (RdSubmit req)
  then show ?thesis
    using do_submit_fate [OF assms(1) RdSubmit, of ev st' q] assms(3) by (simp add: reader_step.simps ends_def)
next
  case (RdUnlink x y)
  obtain b d where u: "bk_unlink B y (ss_dev st) = (b, d)" by (rule prod.exhaust)
  show ?thesis
    using unlink_dev_fate [OF assms(1) u, of q] assms(1,3) RdUnlink u
    by (auto simp: reader_step.simps sess_inv_def balanced_def outstanding_def ends_def)
next
  case (RdPost m)
  obtain k st1 where p: "post m st = (k, st1)" by (rule prod.exhaust)
  show ?thesis
    using post_cases [OF p] assms(1,3) RdPost p
    by (cases k) (auto simp: reader_step.simps sess_inv_def balanced_def outstanding_def ends_def)
next
  case (RdShutdown res)
  obtain pf d where s: "prefetch_shutdown B (ss_prefetch st, ss_dev st) = (pf, d)" by (rule prod.exhaust)
  have "ok d \<and> prefetch_inv pf \<and> table d q = table (ss_dev st) q \<and> waiting_for q pf = 0"
    using shutdown_effect [OF _ _ s assms(4)] assms(1) by (simp add: sess_inv_def)
  then show ?thesis
    using assms(1,3) RdShutdown s
    by (auto simp: reader_step.simps sess_inv_def balanced_def outstanding_def ends_def dropped_waiters)
next
  case (RdJoin res)
  then show ?thesis
    using assms(1,3) cancel_law [of "ss_dev st" q]
    by (auto simp: reader_step.simps sess_inv_def balanced_def outstanding_def ends_def split: if_splits)
qed (use assms in \<open>auto simp: reader_step.simps sess_inv_def balanced_def outstanding_def ends_def\<close>)

lemma reaper_step_fate:
  assumes "sess_inv st" "reaper_step B hk busid now st = (ev, st')" "\<not> owns q"
  shows "sess_inv st' \<and> balanced q st ev st' \<and> ss_reader st' = ss_reader st"
proof (cases "ss_reaper st")
  case RpTop
  obtain w d where w: "bk_wait B (ss_dev st) = (w, d)" by (rule prod.exhaust)
  have "ok d \<and> table d = table (ss_dev st)" using wait_law [OF _ w] assms(1) by (simp add: sess_inv_def)
  then show ?thesis
    using assms RpTop w
    by (cases w) (auto simp: reaper_step.simps sess_inv_def balanced_def outstanding_def split: if_splits)
next
  case (RpReap f w)
  obtain r d where r: "bk_reap B (ss_dev st) = (r, d)" by (rule prod.exhaust)
  have o: "ok (ss_dev st)" using assms(1) by (simp add: sess_inv_def)
  consider e where "r = Inl e" | "r = Inr None" | c where "r = Inr (Some c)" by (metis old.sum.exhaust option.exhaust)
  then show ?thesis
  proof cases
    case 1
    then show ?thesis
      using reap_err [OF o, of e d] assms RpReap r
      by (auto simp: reaper_step.simps sess_inv_def balanced_def outstanding_def)
  next
    case 2
    then show ?thesis
      using reap_none [OF o, of d] assms RpReap r
      by (auto simp: reaper_step.simps sess_inv_def balanced_def outstanding_def)
  next
    case 3
    have "ok d" "table (ss_dev st) (uc_seqnum c) \<noteq> None" "table d = (table (ss_dev st))(uc_seqnum c := None)"
      using reap_some [OF o, of c d] r 3 by auto
    then show ?thesis
      using assms RpReap r 3
      by (cases "q = uc_seqnum c") (auto simp: reaper_step.simps sess_inv_def balanced_def outstanding_def)
  qed
next
  case (RpGot c f w)
  obtain fired det c' where s: "screen now (ss_detector st) c = (fired, det, c')" by (metis prod.exhaust)
  note k = screen_keeps [OF s]
  show ?thesis
  proof (cases "owns (uc_seqnum c)")
    case False
    then show ?thesis
      using assms RpGot s k
      by (auto simp: reaper_step.simps on_client_def sess_inv_def balanced_def outstanding_def)
  next
    case True
    obtain r pf d where d: "deliver B (uc_seqnum c') (uc_status c') (uc_data c') (ss_prefetch st, ss_dev st) = (r, pf, d)"
      by (metis prod.exhaust)
    have "ok d \<and> prefetch_inv pf \<and> table d q = table (ss_dev st) q
        \<and> waiting_for q pf + (case r of None \<Rightarrow> 0 | Some (w, _, _) \<Rightarrow> of_bool (w = q)) = waiting_for q (ss_prefetch st)"
      using deliver_effect [OF _ _ d assms(3)] assms(1) by (simp add: sess_inv_def)
    moreover have "uc_seqnum c \<noteq> q" using True assms(3) by auto
    ultimately show ?thesis
      using assms RpGot s d True
      by (auto simp: reaper_step.simps on_internal_def sess_inv_def balanced_def outstanding_def split: option.splits if_splits)
  qed
next
  case (RpPost m f w)
  obtain k st1 where p: "post m st = (k, st1)" by (rule prod.exhaust)
  show ?thesis
    using post_cases [OF p] assms RpPost p
    by (cases k) (auto simp: reaper_step.simps sess_inv_def balanced_def outstanding_def)
next
  case (RpAfter f w)
  then show ?thesis
    using assms by (auto simp: reaper_step.simps sess_inv_def balanced_def outstanding_def)
qed (use assms in \<open>auto simp: reaper_step.simps sess_inv_def balanced_def outstanding_def\<close>)

lemma session_step_fate:
  assumes "session_step B hk busid mt st ev st'" "sess_inv st" "\<not> owns q"
  shows "sess_inv st' \<and> (if ends st st' then ev = [] \<and> outstanding table q st' \<le> outstanding table q st
    else balanced q st ev st')"
  using assms(1)
proof cases
  case (reader down s)
  show ?thesis by (rule reader_step_fate [OF assms(2) read_pdu_cmd reader assms(3)])
next
  case (reaper now)
  then have "sess_inv st' \<and> balanced q st ev st' \<and> ss_reader st' = ss_reader st"
    using reaper_step_fate assms(2,3) by blast
  then show ?thesis by (auto simp: ends_def)
next
  case (writer failed)
  then show ?thesis using assms(2) by (auto simp: ends_def sess_inv_def balanced_def outstanding_def)
qed

lemma session_trace_inv: "session_trace B hk busid mt st0 tr st \<Longrightarrow> sess_inv st0 \<Longrightarrow> sess_inv st"
proof (induction rule: session_trace.induct)
  case (step tr st ev st')
  have "\<not> owns 0" by (simp add: owns_def INTERNAL_BASE_def)
  then show ?case using session_step_fate [OF step.hyps(2)] step by blast
qed

lemma ended_stays: "session_step B hk busid mt st ev st' \<Longrightarrow> ended (ss_reader st) \<Longrightarrow> ss_reader st' = ss_reader st"
proof (induction rule: session_step.induct)
  case (reader down s st ev st')
  then show ?case by (cases "ss_reader st") (auto simp: reader_step.simps)
next
  case (reaper now st ev st')
  then show ?case
    by (auto simp: reaper_step.simps on_internal_def on_client_def post_def Let_def
        split: reaper_pc.splits if_splits sum.splits option.splits prod.splits post_result.splits)
qed simp

lemma session_trace_fate:
  "session_trace B hk busid mt st0 tr st \<Longrightarrow> sess_inv st0 \<Longrightarrow> \<not> owns q \<Longrightarrow>
     (if ended (ss_reader st)
      then answered q tr + dropped q tr + outstanding table q st \<le> asked q tr + outstanding table q st0
      else asked q tr + outstanding table q st0 = answered q tr + dropped q tr + outstanding table q st)"
proof (induction rule: session_trace.induct)
  case (step tr st ev st')
  have f: "if ends st st' then ev = [] \<and> outstanding table q st' \<le> outstanding table q st
      else balanced q st ev st'"
    using session_step_fate [OF step.hyps(2)] session_trace_inv [OF step.hyps(1)] step.prems by blast
  show ?case
  proof (cases "ended (ss_reader st')")
    case True
    then show ?thesis
      using f step.IH [OF step.prems] by (auto simp: append_counts balanced_def split: if_splits)
  next
    case False
    then have "\<not> ended (ss_reader st)" "\<not> ends st st'"
      using ended_stays [OF step.hyps(2)] by (auto simp: ends_def)
    then show ?thesis
      using False f step.IH [OF step.prems] by (simp add: append_counts balanced_def)
  qed
qed simp

subsection \<open>Nothing answers a cancelled submission\<close>

definition silent :: "u32 \<Rightarrow> 's session \<Rightarrow> bool" where
  "silent q st \<longleftrightarrow> table (ss_dev st) q \<noteq> Some False \<and> waiting_for q (ss_prefetch st) = 0
     \<and> reader_holds q (ss_reader st) = 0
     \<and> (case ss_reaper st of RpGot c f w \<Rightarrow> uc_seqnum c = q \<longrightarrow> uc_unlinked c
        | RpPost m f w \<Rightarrow> reply_for q m = 0 | _ \<Rightarrow> True)"

lemma silent_reader:
  assumes "sess_inv st" "\<And>p. r = Inr p \<Longrightarrow> pdu_cmd p" "reader_step B down r st = (ev, st')" "\<not> owns q"
    "silent q st" "asked q ev = 0"
  shows "silent q st' \<and> answered q ev = 0"
proof (cases "ss_reader st")
  case RdRead
  show ?thesis
  proof (cases r)
    case (Inl e)
    then show ?thesis using assms RdRead by (auto simp: reader_step.simps silent_def)
  next
    case (Inr p)
    show ?thesis
    proof (cases "h_body (p_header p)")
      case (CmdSubmit c)
      let ?q = "bh_seqnum (h_base (p_header p))" and ?req = "request_of p c"
      have on: "on_submit B p c st = (ev, st')"
        using assms(3) RdRead Inr CmdSubmit by (simp add: reader_step.simps on_pdu_def)
      have nq: "?q \<noteq> q" "rq_seqnum ?req \<noteq> q"
        using on assms(6) by (auto simp: on_submit_def request_of_def Let_def split: if_splits prod.splits take_result.splits)
      obtain t pf d where t: "take_report B (rq_ep ?req OR 0x80) ?q (rq_buffer_length ?req) (ss_prefetch st, ss_dev st) = (t, pf, d)"
        by (metis prod.exhaust)
      have "table d q = table (ss_dev st) q \<and> waiting_for q pf \<le> waiting_for q (ss_prefetch st)"
        using take_effect [OF _ _ t assms(4)] assms(1) nq by (auto simp: sess_inv_def split: if_splits)
      then show ?thesis
        using on assms(5) t nq
        by (cases t) (auto simp: on_submit_def silent_def Let_def split: if_splits)
    next
      case (CmdUnlink u)
      obtain b pf where un: "prefetch_unlink (cu_unlink_seqnum u) (ss_prefetch st) = (b, pf)" by (rule prod.exhaust)
      show ?thesis
        using assms(3,5) RdRead Inr CmdUnlink un waiting_unlink [OF un, of q]
        by (cases b) (auto simp: reader_step.simps on_pdu_def on_unlink_def silent_def)
    qed (use assms(2) [OF Inr] in \<open>simp_all add: pdu_cmd_def\<close>)
  qed
next
  case (RdSubmit req)
  have pre: "ok (ss_dev st)" "length (rq_setup req) = 8" using assms(1) RdSubmit by (simp_all add: sess_inv_def)
  obtain x d where x: "bk_submit B req (ss_dev st) = (x, d)" by (rule prod.exhaust)
  have nq: "rq_seqnum req \<noteq> q" using assms(5) RdSubmit by (auto simp: silent_def)
  have tb: "table d q = table (ss_dev st) q"
  proof (cases x)
    case (Inl e)
    then show ?thesis using submit_err [OF pre, of e d] x by simp
  next
    case (Inr u)
    then show ?thesis using submit_ok [OF pre, of d] x nq by simp
  qed
  show ?thesis
    using assms(3,5) RdSubmit x tb nq
    by (auto simp: reader_step.simps do_submit_req_def silent_def split: sum.splits submit_error.splits)
next
  case (RdUnlink x y)
  obtain b d where u: "bk_unlink B y (ss_dev st) = (b, d)" by (rule prod.exhaust)
  have "table d q \<noteq> Some False"
    using unlink_law [OF _ u] assms(1,5) by (auto simp: sess_inv_def silent_def split: if_splits)
  then show ?thesis using assms(3,5) RdUnlink u by (auto simp: reader_step.simps silent_def)
next
  case (RdPost m)
  obtain k st1 where p: "post m st = (k, st1)" by (rule prod.exhaust)
  show ?thesis
    using post_cases [OF p] assms(3,5) RdPost p by (cases k) (auto simp: reader_step.simps silent_def)
next
  case (RdShutdown res)
  obtain pf d where s: "prefetch_shutdown B (ss_prefetch st, ss_dev st) = (pf, d)" by (rule prod.exhaust)
  show ?thesis
    using shutdown_effect [OF _ _ s assms(4)] assms(1,3,5) RdShutdown s
    by (auto simp: reader_step.simps silent_def sess_inv_def)
next
  case (RdJoin res)
  then show ?thesis
    using assms(1,3,5) cancel_law [of "ss_dev st" q]
    by (auto simp: reader_step.simps silent_def sess_inv_def split: if_splits)
qed (use assms in \<open>auto simp: reader_step.simps silent_def\<close>)

lemma silent_reaper:
  assumes "sess_inv st" "reaper_step B hk busid now st = (ev, st')" "\<not> owns q" "silent q st"
  shows "silent q st' \<and> answered q ev = 0"
proof (cases "ss_reaper st")
  case RpTop
  obtain w d where w: "bk_wait B (ss_dev st) = (w, d)" by (rule prod.exhaust)
  have "table d = table (ss_dev st)" using wait_law [OF _ w] assms(1) by (simp add: sess_inv_def)
  then show ?thesis
    using assms(2,4) RpTop w by (cases w) (auto simp: reaper_step.simps silent_def split: if_splits)
next
  case (RpReap f w)
  obtain r d where r: "bk_reap B (ss_dev st) = (r, d)" by (rule prod.exhaust)
  have o: "ok (ss_dev st)" using assms(1) by (simp add: sess_inv_def)
  consider e where "r = Inl e" | "r = Inr None" | c where "r = Inr (Some c)" by (metis old.sum.exhaust option.exhaust)
  then show ?thesis
    using reap_err [OF o, of _ d] reap_none [OF o, of d] reap_some [OF o, of _ d] assms(2,4) RpReap r
    by cases (auto simp: reaper_step.simps silent_def split: if_splits)
next
  case (RpGot c f w)
  obtain fired det c' where s: "screen now (ss_detector st) c = (fired, det, c')" by (metis prod.exhaust)
  note k = screen_keeps [OF s]
  show ?thesis
  proof (cases "owns (uc_seqnum c)")
    case False
    then show ?thesis
      using assms(2,4) RpGot s k by (auto simp: reaper_step.simps on_client_def silent_def split: if_splits)
  next
    case True
    obtain r pf d where d: "deliver B (uc_seqnum c') (uc_status c') (uc_data c') (ss_prefetch st, ss_dev st) = (r, pf, d)"
      by (metis prod.exhaust)
    have "table d q = table (ss_dev st) q
        \<and> waiting_for q pf + (case r of None \<Rightarrow> 0 | Some (w, _, _) \<Rightarrow> of_bool (w = q)) = waiting_for q (ss_prefetch st)"
      using deliver_effect [OF _ _ d assms(3)] assms(1) by (simp add: sess_inv_def)
    then show ?thesis
      using assms(2,4) RpGot s d True
      by (auto simp: reaper_step.simps on_internal_def silent_def split: option.splits if_splits)
  qed
next
  case (RpPost m f w)
  obtain k st1 where p: "post m st = (k, st1)" by (rule prod.exhaust)
  show ?thesis
    using post_cases [OF p] assms(2,4) RpPost p by (cases k) (auto simp: reaper_step.simps silent_def)
next
  case (RpAfter f w)
  then show ?thesis
    using assms(2,4) by (auto simp: reaper_step.simps silent_def) (auto simp: after_drain_def)
qed (use assms in \<open>auto simp: reaper_step.simps silent_def\<close>)

lemma silent_trace:
  "session_trace B hk busid mt st0 tr st \<Longrightarrow> sess_inv st0 \<Longrightarrow> silent q st0 \<Longrightarrow> \<not> owns q \<Longrightarrow> asked q tr = 0 \<Longrightarrow>
     silent q st \<and> answered q tr = 0"
proof (induction rule: session_trace.induct)
  case (step tr st ev st')
  have inv: "sess_inv st" using session_trace_inv [OF step.hyps(1)] step.prems by blast
  have a: "asked q tr = 0" "asked q ev = 0" using step.prems by (simp_all add: append_counts)
  have s: "silent q st" "answered q tr = 0" using step.IH step.prems a by auto
  have "silent q st' \<and> answered q ev = 0"
    using step.hyps(2)
  proof cases
    case (reader down x)
    show ?thesis by (rule silent_reader [OF inv read_pdu_cmd reader step.prems(3) s(1) a(2)])
  next
    case (reaper now)
    then show ?thesis using silent_reaper [OF inv] step.prems(3) s by blast
  next
    case (writer failed)
    then show ?thesis using s by (simp add: silent_def)
  qed
  then show ?case using s by (simp add: append_counts)
qed simp

text \<open>
  Cancelling a submission the device holds, when it is the only one of its number, makes it
  silent.
\<close>

lemma cancelled_silent:
  assumes "sess_inv st" "ss_reader st = RdUnlink u q" "fst (bk_unlink B q (ss_dev st))"
    "outstanding table q st \<le> 1" "reader_step B down r st = (ev, st')"
  shows "silent q st' \<and> sess_inv st'"
proof -
  obtain d where d: "bk_unlink B q (ss_dev st) = (True, d)" using assms(3) by (metis prod.collapse)
  have "ok d \<and> table (ss_dev st) q \<noteq> None \<and> table d q = Some True"
    using unlink_law [OF _ d] assms(1) by (auto simp: sess_inv_def split: if_splits)
  then show ?thesis
    using assms(1,2,4,5) d
    by (cases "ss_reaper st") (auto simp: reader_step.simps silent_def outstanding_def sess_inv_def)
qed

lemma start_inv:
  assumes "ok d"
  shows "sess_inv (session_start B opts t d)
    \<and> (\<not> owns q \<longrightarrow> outstanding table q (session_start B opts t d) = of_bool (table d q \<noteq> None))"
proof -
  obtain pf d' where a: "arm B (prefetch_new B (so_prefetch opts) d, d) = (pf, d')" by (rule prod.exhaust)
  have "ok d' \<and> prefetch_inv pf \<and> (\<not> owns q \<longrightarrow> table d' q = table d q)
      \<and> waiting_for q pf = waiting_for q (prefetch_new B (so_prefetch opts) d)"
    by (rule arm_table [OF assms prefetch_new_inv a])
  moreover have "waiting_for q (prefetch_new B e d) = 0" for e
  proof -
    have "list_all (\<lambda>x. wq q (snd x) = 0) es \<Longrightarrow>
        list_all (\<lambda>x. wq q (snd x) = 0) (fold (\<lambda>(a, mp). AList.update a (new_endpoint a mp)) xs es)" for xs es
    proof (induction xs arbitrary: es)
      case (Cons x xs)
      then show ?case by (simp add: split_beta list_all_update new_endpoint_def wq_def)
    qed simp
    from this [of "[]"] show ?thesis
      by (auto simp: prefetch_new_def prefetch_disabled_def waiting_for_Some Let_def list_all_iff)
  qed
  ultimately show ?thesis
    using a by (simp add: session_start_def sess_inv_def outstanding_def)
qed

end

section \<open>The writer keeps the frames\<close>

definition frames_of :: "sess_event list \<Rightarrow> u8 list" where
  "frames_of tr = concat (map (\<lambda>e. case e of Posted m \<Rightarrow> reply_bytes m | _ \<Rightarrow> []) tr)"

text \<open>What was sent, is being sent and is queued is what was posted.\<close>

definition framed :: "sess_event list \<Rightarrow> 's session \<Rightarrow> bool" where
  "framed tr st \<longleftrightarrow> length (ss_outbox st) \<le> OUTBOX_DEPTH \<and> prefix (ss_sent st) (frames_of tr) \<and>
     (case ss_writer st of
        WrTop \<Rightarrow> frames_of tr = ss_sent st @ concat (ss_outbox st)
      | WrSend b \<Rightarrow> frames_of tr = ss_sent st @ b @ concat (ss_outbox st)
      | _ \<Rightarrow> True)"

lemma frames_of_simps [simp]:
  "frames_of [] = []" "frames_of (Asked q # ev) = frames_of ev" "frames_of (Dropped why q # ev) = frames_of ev"
  "frames_of (Posted m # ev) = reply_bytes m @ frames_of ev" "frames_of (ev @ ev') = frames_of ev @ frames_of ev'"
  by (simp_all add: frames_of_def)

lemma frames_of_drops [simp]:
  "frames_of (superseded a p) = []" "frames_of (map (Dropped why) xs) = []" "frames_of (reply_drop why m) = []"
proof -
  show "frames_of (superseded a p) = []" by (simp add: superseded_def split: option.split)
  show "frames_of (map (Dropped why) xs) = []" by (induction xs) simp_all
  show "frames_of (reply_drop why m) = []" by (cases m) simp_all
qed

definition appends :: "'s session \<Rightarrow> sess_event list \<Rightarrow> 's session \<Rightarrow> bool" where
  "appends st ev st' \<longleftrightarrow> ss_sent st' = ss_sent st \<and> ss_writer st' = ss_writer st \<and>
     (frames_of ev = [] \<and> ss_outbox st' = ss_outbox st \<or>
      (\<exists>m. ev = [Posted m] \<and> length (ss_outbox st) < OUTBOX_DEPTH \<and> ss_outbox st' = ss_outbox st @ [reply_bytes m]))"

lemma post_appends: "post m st = (PostDone, st') \<Longrightarrow> appends st [Posted m] st'"
  by (auto simp: post_def appends_def split: if_splits)

lemma on_pdu_appends: "on_pdu B p st = (ev, st') \<Longrightarrow> appends st ev st'"
  by (auto simp: on_pdu_def on_submit_def on_unlink_def appends_def Let_def
      split: body.splits if_splits prod.splits take_result.splits bool.splits)

lemma do_submit_appends: "do_submit_req B req st = (ev, st') \<Longrightarrow> appends st ev st'"
  by (auto simp: do_submit_req_def appends_def split: prod.splits sum.splits submit_error.splits)

lemma appends_pc [simp]:
  "appends st ev (st'\<lparr>ss_reader := pc\<rparr>) = appends st ev st'" "appends st ev (st'\<lparr>ss_reaper := rpc\<rparr>) = appends st ev st'"
  "appends st ev (st'\<lparr>ss_stop := b\<rparr>) = appends st ev st'" "appends st ev (st'\<lparr>ss_dev := d\<rparr>) = appends st ev st'"
  "appends st ev (st'\<lparr>ss_prefetch := pf\<rparr>) = appends st ev st'" "appends st ev (st'\<lparr>ss_detector := dt\<rparr>) = appends st ev st'"
  "appends st ev (count_stat f st') = appends st ev st'" "appends st ev (after_drain hk b' f' w st') = appends st ev st'"
  by (simp_all add: appends_def)

lemma appends_none [simp]: "appends st ev st = (frames_of ev = [])"
  by (auto simp: appends_def)

lemma reader_appends: "reader_step B down r st = (ev, st') \<Longrightarrow> appends st ev st'"
proof (cases "ss_reader st")
  case (RdPost m)
  assume s: "reader_step B down r st = (ev, st')"
  obtain k st1 where p: "post m st = (k, st1)" by (rule prod.exhaust)
  show ?thesis
    using s RdPost p post_cases [OF p] post_appends [of m st st1]
    by (cases k) (auto simp: reader_step.simps)
qed (auto simp: reader_step.simps on_pdu_appends do_submit_appends split: sum.splits prod.splits if_splits)

lemma reaper_appends: "reaper_step B hk busid now st = (ev, st') \<Longrightarrow> appends st ev st'"
proof (cases "ss_reaper st")
  case (RpPost m f w)
  assume s: "reaper_step B hk busid now st = (ev, st')"
  obtain k st1 where p: "post m st = (k, st1)" by (rule prod.exhaust)
  show ?thesis
    using s RpPost p post_cases [OF p] post_appends [of m st st1]
    by (cases k) (auto simp: reaper_step.simps)
qed (auto simp: reaper_step.simps on_internal_def on_client_def Let_def
      split: sum.splits prod.splits if_splits option.splits)

lemma framed_appends: "appends st ev st' \<Longrightarrow> framed tr st \<Longrightarrow> framed (tr @ ev) st'"
  by (auto simp: appends_def framed_def intro: prefix_order.trans split: writer_pc.splits)

lemma prefix_take_append: "prefix (take n xs) (xs @ ys)"
  by (metis prefixI prefix_order.trans take_is_prefix)

lemma framed_writer: "framed tr st \<Longrightarrow> framed tr (writer_step failed st)"
  by (auto simp: framed_def writer_step.simps prefix_take_append take_is_prefix split: writer_pc.split list.split option.split)

lemma session_trace_framed: "session_trace B hk busid mt st0 tr st \<Longrightarrow> framed [] st0 \<Longrightarrow> framed tr st"
proof (induction rule: session_trace.induct)
  case (step tr st ev st')
  from step.hyps(2) step.IH [OF step.prems] show ?case
    by cases (auto intro: framed_appends reader_appends reaper_appends framed_writer)
qed

section \<open>The usbfs device is pumped\<close>

lemma unlink_fold_pend:
  "env_ok v \<Longrightarrow> dev_inv d \<Longrightarrow>
     pend (fold (\<lambda>q d. snd (unlink v q d)) qs d) =
       (\<lambda>q. if q \<in> set qs \<and> pend d q \<noteq> None then Some True else pend d q)"
proof (induction qs arbitrary: d)
  case (Cons x qs)
  obtain b d' where u: "unlink v x d = (b, d')" by (rule prod.exhaust)
  have "dev_inv d'" "pend d' = (if pend d x = None then pend d else (pend d)(x \<mapsto> True))"
    using usbfs.unlink_law [of v d x b d'] Cons.prems u by auto
  then show ?case using Cons.IH [of d'] Cons.prems(1) u by (auto simp: fun_eq_iff)
qed simp

lemma drain_loop_pend:
  "env_ok v \<Longrightarrow> dev_inv d \<Longrightarrow> pend (drain_loop v n d) q = None \<or> pend (drain_loop v n d) q = pend d q"
proof (induction n arbitrary: d)
  case (Suc n)
  obtain r d' where r: "reap v d = (r, d')" by (rule prod.exhaust)
  have d': "dev_inv d'" using reap_step [OF Suc.prems r] by simp
  have w: "dev_inv (snd (wait v d'))" "pend (snd (wait v d')) = pend d'"
    using d' quiet_inv [OF quiet_wait [of d' v]] quiet_pend [OF quiet_wait [of d' v]] by simp_all
  consider e where "r = Inl e" | "r = Inr None" | c where "r = Inr (Some c)" by (metis old.sum.exhaust option.exhaust)
  then show ?case
  proof cases
    case 1
    then show ?thesis using usbfs.reap_err [of v d e d'] Suc.prems r by simp
  next
    case 2
    then show ?thesis
      using usbfs.reap_none [of v d d'] Suc.IH [OF Suc.prems(1) w(1)] Suc.prems r w(2) by simp
  next
    case 3
    then show ?thesis
      using usbfs.reap_some [of v d c d'] Suc.IH [OF Suc.prems(1) d'] Suc.prems r by (auto split: if_splits)
  qed
qed simp

lemma pend_keys: "pend d q \<noteq> None \<longleftrightarrow> q \<in> set (map fst (d_pending d))"
  by (simp add: pend_def map_of_eq_None_iff)

lemma cancel_pending_pend:
  assumes "env_ok v" "dev_inv d"
  shows "pend (cancel_pending v d) q = None \<or> pend d q \<noteq> None \<and> pend (cancel_pending v d) q = Some True"
proof (cases "d_pending d = []")
  case True
  then show ?thesis by (simp add: cancel_pending_def pend_def)
next
  case False
  let ?d1 = "fold (\<lambda>s d. snd (unlink v s d)) (map fst (d_pending d)) d"
  have "pend ?d1 q = None \<or> pend d q \<noteq> None \<and> pend ?d1 q = Some True"
    unfolding unlink_fold_pend [OF assms] using pend_keys [of d q] by (cases "pend d q") auto
  moreover have "cancel_pending v d = drain_loop v (e_ticks v (d_log ?d1)) ?d1"
    using False by (simp add: cancel_pending_def Let_def)
  ultimately show ?thesis
    using drain_loop_pend [OF assms(1) unlink_fold_inv [OF assms(2), of v "map fst (d_pending d)"],
        of "e_ticks v (d_log ?d1)" q]
    by (elim disjE) simp_all
qed

interpretation pump: pumped_device "\<lambda>d. env_ok v \<and> dev_inv d" pend "usbfs_backend v" for v
proof -
  have "urb_backend (\<lambda>d. env_ok v \<and> dev_inv d) pend (bk_submit (usbfs_backend v))
      (bk_unlink (usbfs_backend v)) (bk_reap (usbfs_backend v))"
    using usbfs.urb_backend_axioms by (simp add: usbfs_backend_def)
  moreover have "pumped_device_axioms (\<lambda>d. env_ok v \<and> dev_inv d) pend (usbfs_backend v)"
  proof
    fix s r s' assume "env_ok v \<and> dev_inv s" "bk_wait (usbfs_backend v) s = (r, s')"
    then show "(env_ok v \<and> dev_inv s') \<and> pend s' = pend s"
      using quiet_inv [OF quiet_wait [of s v]] quiet_pend [OF quiet_wait [of s v]] by (simp add: usbfs_backend_def)
  next
    fix s q assume "env_ok v \<and> dev_inv s"
    then show "(env_ok v \<and> dev_inv (bk_cancel_pending (usbfs_backend v) s)) \<and>
       (pend (bk_cancel_pending (usbfs_backend v) s) q = None \<or>
        pend s q \<noteq> None \<and> pend (bk_cancel_pending (usbfs_backend v) s) q = Some True)"
      using cancel_pending_inv cancel_pending_pend [of v s q] by (simp add: usbfs_backend_def)
  qed
  ultimately show "pumped_device (\<lambda>d. env_ok v \<and> dev_inv d) pend (usbfs_backend v)"
    by (rule pumped_device.intro)
qed

section \<open>A session on a schedule\<close>

text \<open>Which thread moves next, and what it is given.\<close>

datatype choice = ReaderReads pdu | ReaderMoves | ReaperMoves nat | WriterMoves

fun do_choice :: "'s backend \<Rightarrow> hotkey option \<Rightarrow> string \<Rightarrow> choice \<Rightarrow> 's session \<Rightarrow> sess_event list \<times> 's session" where
  "do_choice B hk busid (ReaderReads p) st = reader_step B False (Inr p) st"
| "do_choice B hk busid ReaderMoves st = reader_step B False (Inl (Io UnexpectedEof [])) st"
| "do_choice B hk busid (ReaperMoves now) st = reaper_step B hk busid now st"
| "do_choice B hk busid WriterMoves st = ([], writer_step None st)"

fun run_choices :: "'s backend \<Rightarrow> hotkey option \<Rightarrow> string \<Rightarrow> choice list \<Rightarrow> sess_event list \<times> 's session \<Rightarrow> sess_event list \<times> 's session" where
  "run_choices B hk busid [] ts = ts"
| "run_choices B hk busid (c # cs) ts =
     (let (ev, st') = do_choice B hk busid c (snd ts) in run_choices B hk busid cs (fst ts @ ev, st'))"

fun choice_ok :: "nat \<Rightarrow> choice \<Rightarrow> bool" where
  "choice_ok m (ReaderReads p) = pdu_ok m p"
| "choice_ok m _ = True"

lemma read_pdu_frame: "pdu_ok m p \<Longrightarrow>
    rbind (read_pdu m \<lparr>st_bytes = pdu_to_bytes p, st_end = e\<rparr>) (Inr \<circ> fst) = Inr p"
  by (subst framesD [OF pdus.receive_enc, of m p _ "[]"]) auto

lemma read_pdu_eof:
  "rbind (read_pdu m \<lparr>st_bytes = [], st_end = e\<rparr>) (Inr \<circ> fst) = Inl e"
  by (simp add: read_pdu_def io_bind_def read_exact_def SIZE_CMD_HEADER_def)

lemma do_choice_step:
  assumes "choice_ok m c" "do_choice B hk busid c st = (ev, st')"
  shows "session_step B hk busid m st ev st'"
proof (cases c)
  case (ReaderReads p)
  then show ?thesis
    using assms session_step.reader [of B False m "\<lparr>st_bytes = pdu_to_bytes p, st_end = Io UnexpectedEof []\<rparr>"]
      read_pdu_frame [of m p] by simp
next
  case ReaderMoves
  then show ?thesis
    using assms session_step.reader [of B False m "\<lparr>st_bytes = [], st_end = Io UnexpectedEof []\<rparr>"]
      read_pdu_eof [of m] by simp
qed (use assms in \<open>auto intro: session_step.reaper session_step.writer\<close>)

lemma run_choices_trace:
  "list_all (choice_ok m) cs \<Longrightarrow> session_trace B hk busid m st0 (fst ts) (snd ts) \<Longrightarrow>
     session_trace B hk busid m st0 (fst (run_choices B hk busid cs ts)) (snd (run_choices B hk busid cs ts))"
proof (induction cs arbitrary: ts)
  case (Cons c cs)
  obtain ev st' where s: "do_choice B hk busid c (snd ts) = (ev, st')" by (rule prod.exhaust)
  have "session_trace B hk busid m st0 (fst ts @ ev) st'"
    using session_trace.step [OF Cons.prems(2)] do_choice_step [OF _ s] Cons.prems(1) by simp
  then show ?case using Cons.IH [of "(fst ts @ ev, st')"] Cons.prems(1) s by simp
qed simp

definition pump_env :: env where
  "pump_env = sample_env\<lparr>e_kernel := (\<lambda>h q. if q = Poll then KOk 4 else e_kernel sample_env h q)\<rparr>"

lemma pump_env_ok: "env_ok pump_env"
  using sample_env_ok by (auto simp: env_ok_def pump_env_def)

definition in_pdu :: "u32 \<Rightarrow> pdu" where
  "in_pdu q = \<lparr>p_header = header_cmd_submit
     \<lparr>bh_command = 0, bh_seqnum = q, bh_devid = 1, bh_direction = DIR_IN, bh_ep = 1\<rparr>
     \<lparr>cs_transfer_flags = 0, cs_transfer_buffer_length = 64, cs_start_frame = 0,
      cs_number_of_packets = 0, cs_interval = 0, cs_setup = replicate 8 0\<rparr>, p_data = [], p_iso = []\<rparr>"

definition unlink_pdu :: "u32 \<Rightarrow> u32 \<Rightarrow> pdu" where
  "unlink_pdu q x = \<lparr>p_header = \<lparr>h_base = \<lparr>bh_command = USBIP_CMD_UNLINK, bh_seqnum = q, bh_devid = 1,
     bh_direction = 0, bh_ep = 0\<rparr>, h_body = CmdUnlink \<lparr>cu_unlink_seqnum = x\<rparr>\<rparr>, p_data = [], p_iso = []\<rparr>"

lemma sample_pdu_ok: "pdu_ok 65536 (in_pdu q)" "pdu_ok 65536 (unlink_pdu q x)"
  by (simp_all add: in_pdu_def unlink_pdu_def header_cmd_submit_def pdu_ok_def header_ok_def
      iso_count_def is_iso_def cmd_payload_len_def bh_dir_def direction_from_raw_def is_in_def DIR_IN_def)

definition plain_start :: "usbfs_device session" where
  "plain_start = session_start (usbfs_backend pump_env) \<lparr>so_prefetch = False, so_hotkey = None\<rparr> {} sample_usbfs"

section \<open>Properties\<close>

text \<open>
  C1. Every submission has exactly one fate. In every interleaving of the three threads, for
  every sequence number of the client's range, the submissions that arrived are exactly those
  answered, those dropped for a stated reason (the client cancelled it, a newer submission on the
  same prefetched endpoint replaced it, the session was over, the device was gone), and those the
  session still holds; so none is lost and none is answered twice. Only the final cancellation of
  everything still in flight discards some silently.
\<close>

theorem session_accounts:
  assumes "env_ok v" "dev_inv d" "pend d q = None" "\<not> owns q"
    and "session_trace (usbfs_backend v) hk busid mt (session_start (usbfs_backend v) opts t d) tr st"
  shows "if ended (ss_reader st) then answered q tr + dropped q tr \<le> asked q tr
    else asked q tr = answered q tr + dropped q tr + outstanding pend q st"
proof -
  note s = pump.start_inv [of v d opts t q]
  show ?thesis
    using pump.session_trace_fate [OF assms(5), of q] s assms(1-4) by (auto split: if_splits)
qed

text \<open>
  C10. A cancelled submission is never answered. When the client unlinks a submission that the
  device still holds, and it is the only one outstanding under its number, then whatever the
  threads do afterwards no \<open>RET_SUBMIT\<close> for that number is posted until the client uses it again.
\<close>

theorem cancelled_never_answered:
  assumes "env_ok v" "dev_inv d" "\<not> owns q"
    and "session_trace (usbfs_backend v) hk busid mt (session_start (usbfs_backend v) opts t d) tr st"
    and "ss_reader st = RdUnlink u q" "fst (unlink v q (ss_dev st))" "outstanding pend q st \<le> 1"
    and "reader_step (usbfs_backend v) down r st = (ev, st1)"
    and "session_trace (usbfs_backend v) hk busid mt st1 tr' st'" "asked q tr' = 0"
  shows "answered q tr' = 0"
proof -
  have inv: "pump.sess_inv v st"
    using pump.session_trace_inv [OF assms(4)] pump.start_inv [of v d opts t] assms(1,2) by blast
  have "pump.silent q st1 \<and> pump.sess_inv v st1"
    using pump.cancelled_silent [OF inv assms(5) _ assms(7) assms(8)] assms(6) by (simp add: usbfs_backend_def)
  then show ?thesis
    using pump.silent_trace [OF assms(9) _ _ assms(3,10)] by blast
qed

text \<open>
  C11. The bytes that go out are whole replies back to back, in the order they were posted, cut
  short at most at the very end when the connection fails: no two threads ever interleave parts
  of a PDU.
\<close>

theorem session_in_frame:
  assumes "session_trace B hk busid mt (session_start B opts t d) tr st"
  shows "prefix (ss_sent st) (frames_of tr)"
proof -
  have "framed [] (session_start B opts t d)"
    by (simp add: framed_def session_start_def Let_def split_beta)
  then show ?thesis using session_trace_framed [OF assms] by (simp add: framed_def)
qed

text \<open>
  C34. The queue in front of the writer never holds more than 512 replies, and the reader's
  \<open>unreachable!\<close> is unreachable, whatever bytes the client sends.
\<close>

theorem session_bounded:
  assumes "env_ok v" "dev_inv d"
    and "session_trace (usbfs_backend v) hk busid mt (session_start (usbfs_backend v) opts t d) tr st"
  shows "length (ss_outbox st) \<le> OUTBOX_DEPTH \<and> ss_reader st \<noteq> RdPanic"
proof -
  have "framed [] (session_start (usbfs_backend v) opts t d)"
    by (simp add: framed_def session_start_def Let_def split_beta)
  moreover have "pump.sess_inv v st"
    using pump.session_trace_inv [OF assms(3)] pump.start_inv [of v d opts t] assms(1,2) by blast
  ultimately show ?thesis
    using session_trace_framed [OF assms(3)] by (auto simp: framed_def pump.sess_inv_def)
qed

text \<open>
  A race the suppression does not cover: when the reaper has taken a completion off the
  device but not yet posted it, an unlink finds nothing, is answered with status 0, and the
  \<open>RET_SUBMIT\<close> of the same submission follows the \<open>RET_UNLINK\<close>.
\<close>

theorem unlink_race:
  "\<exists>st. session_trace (usbfs_backend pump_env) None [] 65536 plain_start
     [Asked 7, Posted (ReplyUnlink 9 0), Posted (data_reply 7 0 4 [1, 2, 3, 4])] st"
proof -
  let ?cs = "[ReaderMoves, ReaderReads (in_pdu 7), ReaderMoves, ReaperMoves 0, ReaperMoves 0,
    ReaderMoves, ReaderReads (unlink_pdu 9 7), ReaderMoves, ReaderMoves, ReaperMoves 0, ReaperMoves 0]"
  let ?r = "run_choices (usbfs_backend pump_env) None [] ?cs ([], plain_start)"
  have "fst ?r = [Asked 7, Posted (ReplyUnlink 9 0), Posted (data_reply 7 0 4 [1, 2, 3, 4])]"
    by code_simp
  moreover have "session_trace (usbfs_backend pump_env) None [] 65536 plain_start (fst ?r) (snd ?r)"
    by (rule run_choices_trace) (simp_all add: sample_pdu_ok session_trace.start)
  ultimately show ?thesis by metis
qed

definition plain_choices :: "choice list" where
  "plain_choices = [ReaderMoves, ReaderReads (in_pdu 7), ReaderMoves, ReaperMoves 0, ReaperMoves 0,
     ReaperMoves 0, ReaderMoves, ReaderReads (in_pdu 8), ReaperMoves 0, WriterMoves, WriterMoves]"

definition plain_run :: "sess_event list \<times> usbfs_device session" where
  "plain_run = run_choices (usbfs_backend pump_env) None [] plain_choices ([], plain_start)"

lemma plain_run_trace:
  "session_trace (usbfs_backend pump_env) None [] 65536 plain_start (fst plain_run) (snd plain_run)"
  unfolding plain_run_def
  by (rule run_choices_trace) (simp_all add: plain_choices_def sample_pdu_ok session_trace.start)

lemma sample_pend: "pend sample_usbfs q = None"
  by (simp add: pend_def sample_usbfs_def)

theorem session_accounts_witness:
  "asked 7 (fst plain_run) = answered 7 (fst plain_run) + dropped 7 (fst plain_run) + outstanding pend 7 (snd plain_run)
   \<and> fst plain_run = [Asked 7, Asked 8, Posted (data_reply 7 0 4 [1, 2, 3, 4])]"
proof -
  have "\<not> owns 7" by (simp add: owns_def INTERNAL_BASE_def)
  moreover have "\<not> ended (ss_reader (snd plain_run))" by code_simp
  moreover have "fst plain_run = [Asked 7, Asked 8, Posted (data_reply 7 0 4 [1, 2, 3, 4])]" by code_simp
  ultimately show ?thesis
    using session_accounts [where q = 7, OF pump_env_ok sample_usbfs_inv sample_pend _ plain_run_trace [unfolded plain_start_def]]
    by simp
qed

theorem session_in_frame_witness:
  "prefix (ss_sent (snd plain_run)) (frames_of (fst plain_run)) \<and> length (ss_sent (snd plain_run)) = 52"
proof -
  have "length (ss_sent (snd plain_run)) = 52" by code_simp
  with session_in_frame [OF plain_run_trace [unfolded plain_start_def]] show ?thesis by simp
qed

theorem session_bounded_witness:
  "length (ss_outbox (snd plain_run)) \<le> OUTBOX_DEPTH \<and> ss_reader (snd plain_run) \<noteq> RdPanic"
  by (rule session_bounded [OF pump_env_ok sample_usbfs_inv plain_run_trace [unfolded plain_start_def]])

text \<open>
  A session whose threads cannot be started leaves the URBs of its prefetcher in the device's
  table, where the next session on a device that outlives it finds them.
\<close>

lemma unstarted_session_leaves_urbs:
  "\<exists>d'. session_run (usbfs_backend pump_env) \<lparr>so_prefetch = True, so_hotkey = None\<rparr> [] 65536 {} sample_usbfs d' {} (Inl e)
    \<and> d_pending d' \<noteq> []"
proof -
  let ?st = "session_start (usbfs_backend pump_env) \<lparr>so_prefetch = True, so_hotkey = None\<rparr> {} sample_usbfs"
  have "d_pending (ss_dev ?st) \<noteq> []" by code_simp
  then show ?thesis by (blast intro: session_run.NoThreads)
qed

text \<open>A submission cancelled while the device holds it; its completion is then reaped and dropped.\<close>

definition cancel_run :: "sess_event list \<times> usbfs_device session" where
  "cancel_run = run_choices (usbfs_backend pump_env) None []
     [ReaderMoves, ReaderReads (in_pdu 7), ReaderMoves, ReaderMoves, ReaderReads (unlink_pdu 9 7)] ([], plain_start)"

definition cancel_rest :: "sess_event list \<times> usbfs_device session" where
  "cancel_rest = run_choices (usbfs_backend pump_env) None []
     [ReaderMoves, ReaperMoves 0, ReaperMoves 0, ReaperMoves 0]
     ([], snd (reader_step (usbfs_backend pump_env) False (Inr (in_pdu 7)) (snd cancel_run)))"

theorem cancelled_never_answered_witness:
  "answered 7 (fst cancel_rest) = 0
   \<and> fst cancel_rest = [Posted (ReplyUnlink 9 (word_of_int (- ECONNRESET))), Dropped ByUnlink 7]"
proof -
  have own: "\<not> owns 7" by (simp add: owns_def INTERNAL_BASE_def)
  have tr: "session_trace (usbfs_backend pump_env) None [] 65536 plain_start (fst cancel_run) (snd cancel_run)"
    unfolding cancel_run_def by (rule run_choices_trace) (simp_all add: sample_pdu_ok session_trace.start)
  have rd: "ss_reader (snd cancel_run) = RdUnlink 9 7" by code_simp
  have un: "fst (unlink pump_env 7 (ss_dev (snd cancel_run)))" by code_simp
  have out: "outstanding pend 7 (snd cancel_run) \<le> 1" by code_simp
  obtain ev st1 where r: "reader_step (usbfs_backend pump_env) False (Inr (in_pdu 7)) (snd cancel_run) = (ev, st1)"
    by (rule prod.exhaust)
  have rest: "session_trace (usbfs_backend pump_env) None [] 65536 st1 (fst cancel_rest) (snd cancel_rest)"
    unfolding cancel_rest_def using r by (intro run_choices_trace) (simp_all add: session_trace.start)
  have ev: "fst cancel_rest = [Posted (ReplyUnlink 9 (word_of_int (- ECONNRESET))), Dropped ByUnlink 7]" by code_simp
  then have "asked 7 (fst cancel_rest) = 0" by (simp add: asked_def)
  from cancelled_never_answered [OF pump_env_ok sample_usbfs_inv own tr [unfolded plain_start_def] rd un out r rest this] ev
  show ?thesis by simp
qed

end
