(* ===== verification/Server.thy ===== *)
theory Server
  imports Registry Session "HOL-Library.Multiset"
begin

text \<open>
  The server of \<open>usbfwd-server/src/lib.rs\<close>: where devices come from, one connection from its
  first request to the end of its session, and the accept loop over any number of connections.
  A connection is a thread with a program counter; one step is the code between two accesses to
  state that other connections share (the lease registry, the toggle). The session in the middle
  is any complete run of the model of \<open>session.rs\<close>.
\<close>

definition MAX_SESSIONS :: nat where "MAX_SESSIONS = 16"

section \<open>Device sources\<close>

definition sysfs_devices :: "fs \<Rightarrow> probe \<Rightarrow> device_filter \<Rightarrow> nat \<Rightarrow> usbfs_device source" where
  "sysfs_devices f pb flt max_transfer =
     \<lparr>src_list = list_devices f flt,
      src_open = (\<lambda>busid. rbind (open_busid f pb busid) (\<lambda>d. Inr (d\<lparr>d_max_transfer := max_transfer\<rparr>)))\<rparr>"

definition single_device :: "usbfs_device \<Rightarrow> usbfs_device source" where
  "single_device d =
     \<lparr>src_list = Inr [d_summary d],
      src_open = (\<lambda>busid. if busid = sm_busid (d_summary d) then Inr d
        else Inl (Failed (Io NotFound (''this exporter only offers '' @ sm_busid (d_summary d)))))\<rparr>"

section \<open>One connection\<close>

datatype conn_end = Finished "io_error + unit" | ThreadPanicked

datatype conn_pc =
    CnStart
  | CnImport string
  | CnListed string
  | CnLeased string
  | CnOpened string usbfs_device
  | CnClaimed string usbfs_device
  | CnRunning string usbfs_device
  | CnEnded string usbfs_device "io_error + unit"
  | CnReleased string usbfs_device "io_error + unit"
  | CnUnwind "string option" "usbfs_device option" conn_end
  | CnDone conn_end

record conn =
  cn_pc :: conn_pc
  cn_out :: "u8 list"
  cn_dev :: "usbfs_device option"

definition conn_new :: conn where
  "conn_new = \<lparr>cn_pc = CnStart, cn_out = [], cn_dev = None\<rparr>"

text \<open>
  What a step is given: the source as it is at the time, the request read from the stream (or the
  error of reading it, or of setting the connection up before), the error of clearing the read
  timeout before an import, and the error of a failing write.
\<close>

record conn_input =
  ci_source :: "usbfs_device source"
  ci_request :: "io_error + op_request option"
  ci_untimed :: "io_error option"
  ci_write :: "io_error option"

text \<open>\<open>write_all\<close>, and then on to \<open>next\<close>, or out with the error.\<close>

definition write_then :: "io_error option \<Rightarrow> u8 list \<Rightarrow> conn_pc \<Rightarrow> (io_error \<Rightarrow> conn_pc) \<Rightarrow> conn \<Rightarrow> conn" where
  "write_then failed bs ok_pc err_pc c = (case failed of
     None \<Rightarrow> c\<lparr>cn_out := cn_out c @ bs, cn_pc := ok_pc\<rparr>
   | Some e \<Rightarrow> c\<lparr>cn_pc := err_pc e\<rparr>)"

definition refuse :: "io_error option \<Rightarrow> string option \<Rightarrow> usbfs_device option \<Rightarrow> conn \<Rightarrow> conn" where
  "refuse failed lease dev =
     write_then failed (encode_import_reply None)
       (CnUnwind lease dev (Finished (Inr ()))) (\<lambda>e. CnUnwind lease dev (Finished (Inl e)))"

fun enum_end :: "enum_error \<Rightarrow> conn_end" where
  "enum_end (Failed e) = Finished (Inl e)"
| "enum_end Panicked = ThreadPanicked"

definition on_request :: "conn_input \<Rightarrow> conn \<Rightarrow> conn" where
  "on_request inp c = (case ci_request inp of
     Inl e \<Rightarrow> c\<lparr>cn_pc := CnDone (Finished (Inl e))\<rparr>
   | Inr None \<Rightarrow> c\<lparr>cn_pc := CnDone (Finished (Inr ()))\<rparr>
   | Inr (Some DevList) \<Rightarrow>
       (case src_list (ci_source inp) of
          Inl e \<Rightarrow> c\<lparr>cn_pc := CnDone (enum_end e)\<rparr>
        | Inr ds \<Rightarrow> write_then (ci_write inp) (encode_devlist_reply (map to_usbip ds))
            (CnDone (Finished (Inr ()))) (\<lambda>e. CnDone (Finished (Inl e))) c)
   | Inr (Some (Import busid)) \<Rightarrow> c\<lparr>cn_pc := (case ci_untimed inp of
         None \<Rightarrow> CnImport busid | Some e \<Rightarrow> CnDone (Finished (Inl e)))\<rparr>)"

text \<open>
  Dropping the locals of \<open>import\<close>: the device first, which closes it unless the source keeps it
  open (\<open>keeps\<close>), then the lease.
\<close>

definition drop_dev :: "env \<Rightarrow> bool \<Rightarrow> usbfs_device \<Rightarrow> usbfs_device" where
  "drop_dev v keeps d = (if keeps then d else drop_device v d)"

fun conn_step :: "env \<Rightarrow> bool \<Rightarrow> conn_input \<Rightarrow> registry \<times> conn \<Rightarrow> registry \<times> conn" where
  "conn_step v keeps inp (reg, c) = (case cn_pc c of
     CnStart \<Rightarrow> (reg, on_request inp c)
   | CnImport b \<Rightarrow> (case src_list (ci_source inp) of
       Inl e \<Rightarrow> (reg, c\<lparr>cn_pc := CnDone (enum_end e)\<rparr>)
     | Inr ds \<Rightarrow> if list_ex (\<lambda>d. sm_busid d = b) ds then (reg, c\<lparr>cn_pc := CnListed b\<rparr>)
                 else (reg, refuse (ci_write inp) None None c))
   | CnListed b \<Rightarrow> (case acquire b reg of
       (True, reg') \<Rightarrow> (reg', c\<lparr>cn_pc := CnLeased b\<rparr>)
     | (False, reg') \<Rightarrow> (reg', refuse (ci_write inp) None None c))
   | CnLeased b \<Rightarrow> (case src_open (ci_source inp) b of
       Inr d \<Rightarrow> (reg, c\<lparr>cn_pc := CnOpened b d\<rparr>)
     | Inl (Failed e) \<Rightarrow> (reg, refuse (ci_write inp) (Some b) None c)
     | Inl Panicked \<Rightarrow> (reg, c\<lparr>cn_pc := CnUnwind (Some b) None ThreadPanicked\<rparr>))
   | CnOpened b d \<Rightarrow> (case claim_all v d of
       (Inr u, d') \<Rightarrow> (reg, c\<lparr>cn_pc := CnClaimed b d'\<rparr>)
     | (Inl e, d') \<Rightarrow> (reg, refuse (ci_write inp) (Some b) (Some d') c))
   | CnClaimed b d \<Rightarrow>
       (reg, write_then (ci_write inp) (encode_import_reply (Some (to_usbip (d_summary d))))
          (CnRunning b d) (\<lambda>e. CnUnwind (Some b) (Some d) (Finished (Inl e))) c)
   | CnRunning b d \<Rightarrow> (reg, c)
   | CnEnded b d res \<Rightarrow> (reg, c\<lparr>cn_pc := CnReleased b (release_all v d) res\<rparr>)
   | CnReleased b d res \<Rightarrow> (drop_lease b reg, c\<lparr>cn_pc := CnUnwind None (Some d) (Finished res)\<rparr>)
   | CnUnwind lease (Some d) res \<Rightarrow> (reg, c\<lparr>cn_dev := Some (drop_dev v keeps d), cn_pc := CnUnwind lease None res\<rparr>)
   | CnUnwind (Some b) None res \<Rightarrow> (drop_lease b reg, c\<lparr>cn_pc := CnDone res\<rparr>)
   | CnUnwind None None res \<Rightarrow> (reg, c\<lparr>cn_pc := CnDone res\<rparr>)
   | CnDone res \<Rightarrow> (reg, c))"

section \<open>The accept loop\<close>

record server =
  sv_registry :: registry
  sv_toggle :: toggle
  sv_sessions :: nat
  sv_conns :: "(nat \<times> conn) list"
  sv_next :: nat

definition server_new :: server where
  "server_new = \<lparr>sv_registry = registry_new, sv_toggle = toggle_new, sv_sessions = 0, sv_conns = [], sv_next = 0\<rparr>"

text \<open>A connection is accepted, unless too many are open or its thread cannot be spawned.\<close>

definition accept_conn :: "bool \<Rightarrow> server \<Rightarrow> server" where
  "accept_conn spawned s =
     (if MAX_SESSIONS \<le> sv_sessions s then s
      else if spawned
      then s\<lparr>sv_sessions := sv_sessions s + 1, sv_conns := (sv_next s, conn_new) # sv_conns s, sv_next := sv_next s + 1\<rparr>
      else s\<lparr>sv_next := sv_next s + 1\<rparr>)"

text \<open>The end of a connection's thread: only a normal return gives its slot back.\<close>

definition reap_conn :: "nat \<Rightarrow> server \<Rightarrow> server" where
  "reap_conn i s = s\<lparr>sv_sessions := sv_sessions s - 1, sv_conns := AList.delete i (sv_conns s)\<rparr>"

definition put_conn :: "nat \<Rightarrow> conn \<Rightarrow> server \<Rightarrow> server" where
  "put_conn i c s = s\<lparr>sv_conns := AList.update i c (sv_conns s)\<rparr>"

inductive server_step :: "env \<Rightarrow> bool \<Rightarrow> session_opts \<Rightarrow> server \<Rightarrow> server \<Rightarrow> bool"
  for v :: env and keeps :: bool and opts :: session_opts where
  Accept: "server_step v keeps opts s (accept_conn spawned s)"
| Move: "map_of (sv_conns s) i = Some c \<Longrightarrow>
    conn_step v keeps (inp\<lparr>ci_source := gated (ci_source inp) (sv_toggle s)\<rparr>) (sv_registry s, c) = (reg, c') \<Longrightarrow>
    server_step v keeps opts s ((put_conn i c' s)\<lparr>sv_registry := reg\<rparr>)"
| Pump: "map_of (sv_conns s) i = Some c \<Longrightarrow> cn_pc c = CnRunning b d \<Longrightarrow>
    session_run (usbfs_backend v) opts (sm_busid (d_summary d)) (d_max_transfer d) (sv_toggle s) d d' t res \<Longrightarrow>
    server_step v keeps opts s ((put_conn i (c\<lparr>cn_pc := CnEnded b d' res\<rparr>) s)\<lparr>
      sv_toggle := sv_toggle s \<union> t\<rparr>)"
| Finish: "map_of (sv_conns s) i = Some c \<Longrightarrow> cn_pc c = CnDone (Finished r) \<Longrightarrow>
    server_step v keeps opts s (reap_conn i s)"
| Resume: "server_step v keeps opts s (s\<lparr>sv_toggle := sv_toggle s - T\<rparr>)"

declare conn_step.simps [simp del]

section \<open>Invariant\<close>

text \<open>The lease a connection holds, and the device it has open under it.\<close>

fun lease_of :: "conn_pc \<Rightarrow> string list" where
  "lease_of (CnLeased b) = [b]"
| "lease_of (CnOpened b d) = [b]"
| "lease_of (CnClaimed b d) = [b]"
| "lease_of (CnRunning b d) = [b]"
| "lease_of (CnEnded b d r) = [b]"
| "lease_of (CnReleased b d r) = [b]"
| "lease_of (CnUnwind (Some b) d r) = [b]"
| "lease_of _ = []"

fun uses_device :: "conn_pc \<Rightarrow> string \<Rightarrow> bool" where
  "uses_device (CnOpened b d) x = (b = x)"
| "uses_device (CnClaimed b d) x = (b = x)"
| "uses_device (CnRunning b d) x = (b = x)"
| "uses_device (CnEnded b d r) x = (b = x)"
| "uses_device (CnReleased b d r) x = (b = x)"
| "uses_device (CnUnwind (Some b) (Some d) r) x = (b = x)"
| "uses_device _ x = False"

definition leases_of :: "server \<Rightarrow> string list" where
  "leases_of s = concat (map (lease_of \<circ> cn_pc \<circ> snd) (sv_conns s))"

definition handed_back :: "bool \<Rightarrow> conn \<Rightarrow> bool" where
  "handed_back keeps c \<longleftrightarrow> keeps \<or> (case cn_dev c of None \<Rightarrow> True | Some d \<Rightarrow> d_claimed d = [] \<and> \<not> d_open d)"

definition server_inv :: "bool \<Rightarrow> server \<Rightarrow> bool" where
  "server_inv keeps s \<longleftrightarrow> sv_sessions s = length (sv_conns s) \<and> sv_sessions s \<le> MAX_SESSIONS
     \<and> distinct (map fst (sv_conns s)) \<and> list_all (\<lambda>x. fst x < sv_next s \<and> handed_back keeps (snd x)) (sv_conns s)
     \<and> sv_registry s = set (leases_of s) \<and> distinct (leases_of s)"

lemma alist_split:
  "map_of es i = Some c \<Longrightarrow> distinct (map fst es) \<Longrightarrow>
     \<exists>xs ys. es = xs @ (i, c) # ys \<and> (\<forall>c'. AList.update i c' es = xs @ (i, c') # ys) \<and> AList.delete i es = xs @ ys"
proof (induction es)
  case (Cons e es)
  show ?case
  proof (cases "fst e = i")
    case True
    then have "i \<notin> fst ` set es" using Cons.prems by auto
    then have "AList.delete i es = es" by (induction es) auto
    then show ?thesis
      using True Cons.prems by (intro exI [of _ "[]"] exI [of _ es]) (auto split: if_splits)
  next
    case False
    then obtain xs ys where "es = xs @ (i, c) # ys" "\<forall>c'. AList.update i c' es = xs @ (i, c') # ys" "AList.delete i es = xs @ ys"
      using Cons.IH Cons.prems by (auto split: if_splits)
    then show ?thesis
      using False by (intro exI [of _ "e # xs"] exI [of _ ys]) (cases e, auto)
  qed
qed simp

lemma write_then_lease:
  "lease_of ok_pc = L \<Longrightarrow> (\<And>e. lease_of (err_pc e) = L) \<Longrightarrow> lease_of (cn_pc (write_then f bs ok_pc err_pc c)) = L"
  "cn_dev (write_then f bs ok_pc err_pc c) = cn_dev c"
  by (auto simp: write_then_def split: option.split)

lemma refuse_lease:
  "lease_of (cn_pc (refuse f l d c)) = (case l of None \<Rightarrow> [] | Some b \<Rightarrow> [b])" "cn_dev (refuse f l d c) = cn_dev c"
  by (auto simp: refuse_def write_then_lease intro!: write_then_lease(1) split: option.split)

lemma on_request_lease: "lease_of (cn_pc (on_request inp c)) = []" "cn_dev (on_request inp c) = cn_dev c"
  by (auto simp: on_request_def write_then_lease intro!: write_then_lease(1)
      split: sum.split option.split op_request.split)

lemma free_fold_sel:
  "d_claimed (fold (\<lambda>e. free (en_ptr (snd e))) xs d) = d_claimed d"
  "d_open (fold (\<lambda>e. free (en_ptr (snd e))) xs d) = d_open d"
  by (induction xs arbitrary: d) (simp_all add: free_def)

lemma call_claimed: "d_claimed (snd (call v q d)) = d_claimed d"
  by (simp add: call_def Let_def)

lemma reconnect_claimed: "d_claimed (snd (reconnect_loop v k n e d)) = d_claimed d"
proof (induction k arbitrary: e d)
  case (Suc k)
  obtain a d' where c: "call v (Connect n) d = (a, d')" by (rule prod.exhaust)
  then have "d_claimed d' = d_claimed d" using call_claimed [of v "Connect n" d] by simp
  then show ?case using Suc c by (auto split: sum.split)
qed simp

lemma release_all_claimed: "d_claimed (release_all v d) = []"
proof -
  have "d_claimed (fold (release_one v) ns x) = d_claimed x" for ns x
    by (induction ns arbitrary: x) (simp_all add: release_one_def call_claimed)
  moreover have "d_claimed (fold (\<lambda>n d. snd (reconnect_one v n d)) ns x) = d_claimed x" for ns x
    by (induction ns arbitrary: x) (simp_all add: reconnect_one_def reconnect_claimed)
  ultimately show ?thesis by (simp add: release_all_def Let_def)
qed

lemma drop_device_sel: "d_claimed (drop_device v d) = [] \<and> \<not> d_open (drop_device v d)"
  by (simp add: drop_device_def close_fd_def Let_def free_fold_sel call_claimed release_all_claimed)

text \<open>What one step of a connection does to its lease and the registry.\<close>

lemma conn_step_lease:
  assumes "conn_step v keeps inp (reg, c) = (reg', c')"
  shows "(lease_of (cn_pc c') = lease_of (cn_pc c) \<and> reg' = reg)
    \<or> (\<exists>b. lease_of (cn_pc c) = [] \<and> lease_of (cn_pc c') = [b] \<and> b \<notin> reg \<and> reg' = insert b reg)
    \<or> (\<exists>b. lease_of (cn_pc c) = [b] \<and> lease_of (cn_pc c') = [] \<and> reg' = reg - {b})"
proof (cases "cn_pc c")
  case (CnUnwind l d r)
  then show ?thesis
    using assms by (cases l; cases d) (auto simp: conn_step.simps drop_lease_def)
next
  case (CnClaimed b d)
  then show ?thesis
    using assms write_then_lease(1) [where L = "[b]"] by (auto simp: conn_step.simps)
qed (use assms in \<open>auto simp: conn_step.simps on_request_lease refuse_lease acquire_def drop_lease_def
      split: sum.splits if_splits enum_error.splits prod.splits\<close>)

lemma conn_step_handed:
  assumes "conn_step v keeps inp (reg, c) = (reg', c')" "handed_back keeps c"
  shows "handed_back keeps c'"
proof (cases "cn_pc c")
  case (CnUnwind l d r)
  then show ?thesis
    using assms by (cases l; cases d; cases keeps) (auto simp: conn_step.simps handed_back_def drop_dev_def drop_device_sel)
qed (use assms in \<open>auto simp: conn_step.simps handed_back_def on_request_lease refuse_lease write_then_lease
      split: sum.splits if_splits enum_error.splits prod.splits bool.splits\<close>)

lemma leases_of_split: "sv_conns s = xs @ (i, c) # ys \<Longrightarrow> leases_of s =
    concat (map (lease_of \<circ> cn_pc \<circ> snd) xs) @ lease_of (cn_pc c) @ concat (map (lease_of \<circ> cn_pc \<circ> snd) ys)"
  by (simp add: leases_of_def)

text \<open>Replacing one connection, with its lease and the registry moving together, keeps the invariant.\<close>

lemma server_inv_put:
  assumes inv: "server_inv keeps s" and look: "map_of (sv_conns s) i = Some c" and hb: "handed_back keeps c'"
    and lease: "(lease_of (cn_pc c') = lease_of (cn_pc c) \<and> reg = sv_registry s)
      \<or> (\<exists>b. lease_of (cn_pc c) = [] \<and> lease_of (cn_pc c') = [b] \<and> b \<notin> sv_registry s \<and> reg = insert b (sv_registry s))
      \<or> (\<exists>b. lease_of (cn_pc c) = [b] \<and> lease_of (cn_pc c') = [] \<and> reg = sv_registry s - {b})"
  shows "server_inv keeps ((put_conn i c' s)\<lparr>sv_registry := reg\<rparr>)"
proof -
  have d: "distinct (map fst (sv_conns s))" using inv by (simp add: server_inv_def)
  obtain xs ys where es: "sv_conns s = xs @ (i, c) # ys"
    and up: "\<forall>c'. AList.update i c' (sv_conns s) = xs @ (i, c') # ys"
    using alist_split [OF look d] by blast
  let ?s = "(put_conn i c' s)\<lparr>sv_registry := reg\<rparr>"
  have es': "sv_conns ?s = xs @ (i, c') # ys" by (simp add: put_conn_def up)
  note old = leases_of_split [OF es] and new = leases_of_split [OF es']
  have reg: "sv_registry s = set (leases_of s)" and dist: "distinct (leases_of s)"
    using inv by (simp_all add: server_inv_def)
  have "reg = set (leases_of ?s) \<and> distinct (leases_of ?s)"
    using lease reg dist unfolding old new by (elim disjE exE conjE) auto
  moreover have "sv_sessions ?s = sv_sessions s" "sv_next ?s = sv_next s" by (simp_all add: put_conn_def)
  ultimately show ?thesis
    using inv hb unfolding server_inv_def es es' by simp
qed

lemma server_inv_reap:
  assumes inv: "server_inv keeps s" and look: "map_of (sv_conns s) i = Some c" and pc: "lease_of (cn_pc c) = []"
  shows "server_inv keeps (reap_conn i s)"
proof -
  have d: "distinct (map fst (sv_conns s))" using inv by (simp add: server_inv_def)
  obtain xs ys where es: "sv_conns s = xs @ (i, c) # ys" and del: "AList.delete i (sv_conns s) = xs @ ys"
    using alist_split [OF look d] by blast
  have "leases_of (reap_conn i s) = leases_of s"
    using es del pc by (simp add: leases_of_def reap_conn_def)
  then show ?thesis
    using inv del unfolding server_inv_def by (simp add: reap_conn_def es)
qed

lemma server_inv_new: "server_inv keeps server_new"
  by (simp add: server_inv_def server_new_def registry_new_def leases_of_def)

lemma server_inv_accept: "server_inv keeps s \<Longrightarrow> server_inv keeps (accept_conn spawned s)"
  by (auto simp: server_inv_def accept_conn_def leases_of_def conn_new_def handed_back_def list_all_iff)

lemma server_step_inv:
  assumes "server_step v keeps opts s s'" "server_inv keeps s"
  shows "server_inv keeps s'"
  using assms
proof (induction rule: server_step.induct)
  case (Move s i c inp reg c')
  have hb: "handed_back keeps c"
    using Move.prems map_of_SomeD [OF Move.hyps(1)] by (force simp: server_inv_def list_all_iff)
  show ?case
    by (rule server_inv_put [OF Move.prems Move.hyps(1) conn_step_handed [OF Move.hyps(2) hb] conn_step_lease [OF Move.hyps(2)]])
next
  case (Pump s i c b d d' t res)
  have hb: "handed_back keeps c"
    using Pump.prems map_of_SomeD [OF Pump.hyps(1)] by (force simp: server_inv_def list_all_iff)
  let ?c = "c\<lparr>cn_pc := CnEnded b d' res\<rparr>"
  have "server_inv keeps ((put_conn i ?c s)\<lparr>sv_registry := sv_registry s\<rparr>)"
    using hb Pump.hyps(2) by (intro server_inv_put [OF Pump.prems Pump.hyps(1)]) (simp_all add: handed_back_def)
  then show ?case by (simp add: server_inv_def leases_of_def put_conn_def)
next
  case (Finish s i c r)
  then show ?case by (intro server_inv_reap [OF Finish.prems Finish.hyps(1)]) simp
next
  case (Resume s T)
  then show ?case by (simp add: server_inv_def leases_of_def)
qed (rule server_inv_accept)

lemma server_reach_inv: "(server_step v keeps opts)\<^sup>*\<^sup>* server_new s \<Longrightarrow> server_inv keeps s"
  by (induction rule: rtranclp_induct) (simp_all add: server_inv_new server_step_inv)

lemma uses_lease: "uses_device pc b \<Longrightarrow> b \<in> set (lease_of pc)"
  by (cases "(pc, b)" rule: uses_device.cases) auto

lemma distinct_concat_users:
  "distinct (concat (map f xs)) \<Longrightarrow> (\<And>x. P x \<Longrightarrow> b \<in> set (f x)) \<Longrightarrow> length (filter P xs) \<le> 1"
proof (induction xs)
  case (Cons x xs)
  show ?case
  proof (cases "P x")
    case True
    then have "b \<notin> set (concat (map f xs))" using Cons.prems by auto
    then have "filter P xs = []" using Cons.prems(2) by (auto simp: filter_empty_conv)
    with True show ?thesis by simp
  qed (use Cons in simp)
qed simp

section \<open>Refinement of the lease registry\<close>

text \<open>
  The server as a client of the registry: the leases of its connections, wherever they stand,
  are the live leases of the abstract transition system.
\<close>

definition lease_sim :: "server \<Rightarrow> string list \<Rightarrow> bool" where
  "lease_sim s ls \<longleftrightarrow> mset ls = mset (leases_of s)"

lemma leases_put_conn:
  assumes "map_of (sv_conns s) i = Some c" "distinct (map fst (sv_conns s))"
  shows "mset (leases_of (put_conn i c' s)) + mset (lease_of (cn_pc c)) = mset (leases_of s) + mset (lease_of (cn_pc c'))"
proof -
  obtain xs ys where "sv_conns s = xs @ (i, c) # ys" "AList.update i c' (sv_conns s) = xs @ (i, c') # ys"
    using alist_split [OF assms] by blast
  then show ?thesis by (simp add: leases_of_def put_conn_def)
qed

lemma leases_reap_conn:
  assumes "map_of (sv_conns s) i = Some c" "distinct (map fst (sv_conns s))" "lease_of (cn_pc c) = []"
  shows "leases_of (reap_conn i s) = leases_of s"
proof -
  obtain xs ys where "sv_conns s = xs @ (i, c) # ys" "AList.delete i (sv_conns s) = xs @ ys"
    using alist_split [OF assms(1,2)] by blast
  then show ?thesis using assms(3) by (simp add: leases_of_def reap_conn_def)
qed

lemma leases_of_registry [simp]:
  "leases_of (s\<lparr>sv_registry := r\<rparr>) = leases_of s" "leases_of (s\<lparr>sv_toggle := t\<rparr>) = leases_of s"
  by (simp_all add: leases_of_def)

lemma registry_move:
  assumes sim: "lease_sim s ls" and look: "map_of (sv_conns s) i = Some c" and inv: "server_inv keeps s"
    and step: "conn_step v keeps inp (sv_registry s, c) = (reg, c')"
  shows "\<exists>ls'. registry_step\<^sup>*\<^sup>* (sv_registry s, ls) (reg, ls') \<and> lease_sim ((put_conn i c' s)\<lparr>sv_registry := reg\<rparr>) ls'"
proof -
  let ?L = "mset (leases_of (put_conn i c' s))"
  have d: "distinct (map fst (sv_conns s))" using inv by (simp add: server_inv_def)
  have eq: "?L + mset (lease_of (cn_pc c)) = mset ls + mset (lease_of (cn_pc c'))"
    using leases_put_conn [OF look d, of c'] sim by (simp add: lease_sim_def)
  from conn_step_lease [OF step] show ?thesis
  proof (elim disjE exE conjE)
    assume "lease_of (cn_pc c') = lease_of (cn_pc c)" "reg = sv_registry s"
    then show ?thesis using eq by (intro exI [of _ ls]) (simp add: lease_sim_def)
  next
    fix b assume b: "lease_of (cn_pc c) = []" "lease_of (cn_pc c') = [b]" "b \<notin> sv_registry s" "reg = insert b (sv_registry s)"
    then have "registry_step (sv_registry s, ls) (reg, b # ls)" by (intro Granted) (simp add: acquire_def)
    then show ?thesis using eq b by (intro exI [of _ "b # ls"]) (simp add: lease_sim_def r_into_rtranclp)
  next
    fix b assume b: "lease_of (cn_pc c) = [b]" "lease_of (cn_pc c') = []" "reg = sv_registry s - {b}"
    then have "mset ls = add_mset b ?L" using eq by simp
    then have "b \<in> set ls" "mset (remove1 b ls) = ?L" by (metis set_mset_mset union_single_eq_member, simp)
    moreover from this(1) have "registry_step (sv_registry s, ls) (drop_lease b (sv_registry s), remove1 b ls)" by (rule Dropped)
    ultimately show ?thesis using b
      by (intro exI [of _ "remove1 b ls"]) (simp add: lease_sim_def drop_lease_def r_into_rtranclp)
  qed
qed

lemma registry_simulates:
  assumes "server_step v keeps opts s s'" "server_inv keeps s" "lease_sim s ls"
  shows "\<exists>ls'. registry_step\<^sup>*\<^sup>* (sv_registry s, ls) (sv_registry s', ls') \<and> lease_sim s' ls'"
  using assms
proof (induction rule: server_step.induct)
  case (Accept s spawned)
  then show ?case
    by (intro exI [of _ ls]) (simp add: lease_sim_def accept_conn_def leases_of_def conn_new_def)
next
  case (Move s i c inp reg c')
  then show ?case using registry_move [OF Move.prems(2) Move.hyps(1) Move.prems(1) Move.hyps(2)] by simp
next
  case (Pump s i c b d d' t res)
  have "distinct (map fst (sv_conns s))" using Pump.prems by (simp add: server_inv_def)
  from leases_put_conn [OF Pump.hyps(1) this, of "c\<lparr>cn_pc := CnEnded b d' res\<rparr>"] show ?case
    using Pump by (intro exI [of _ ls]) (simp add: lease_sim_def put_conn_def)
next
  case (Finish s i c r)
  have "distinct (map fst (sv_conns s))" using Finish.prems by (simp add: server_inv_def)
  then have "leases_of (reap_conn i s) = leases_of s"
    using Finish.hyps by (intro leases_reap_conn [OF Finish.hyps(1)]) simp_all
  then show ?case using Finish by (intro exI [of _ ls]) (simp add: lease_sim_def reap_conn_def)
next
  case (Resume s T)
  then show ?case by (intro exI [of _ ls]) (simp add: lease_sim_def)
qed

section \<open>Panicked threads\<close>

definition crash_conns :: "server \<Rightarrow> nat" where
  "crash_conns s = length (filter (\<lambda>x. cn_pc (snd x) = CnDone ThreadPanicked) (sv_conns s))"

lemma crash_conns_step:
  assumes "server_step v keeps opts s s'" "server_inv keeps s"
  shows "crash_conns s \<le> crash_conns s'"
  using assms
proof (induction rule: server_step.induct)
  case (Accept s spawned)
  show ?case by (simp add: crash_conns_def accept_conn_def)
next
  case (Move s i c inp reg c')
  have "distinct (map fst (sv_conns s))" using Move.prems by (simp add: server_inv_def)
  then obtain xs ys where "sv_conns s = xs @ (i, c) # ys" "AList.update i c' (sv_conns s) = xs @ (i, c') # ys"
    using alist_split [OF Move.hyps(1)] by blast
  moreover have "cn_pc c = CnDone ThreadPanicked \<Longrightarrow> cn_pc c' = CnDone ThreadPanicked"
    using Move.hyps(2) by (simp add: conn_step.simps)
  ultimately show ?case by (simp add: crash_conns_def put_conn_def)
next
  case (Pump s i c b d d' t res)
  have "distinct (map fst (sv_conns s))" using Pump.prems by (simp add: server_inv_def)
  then obtain xs ys where "sv_conns s = xs @ (i, c) # ys" "\<forall>c'. AList.update i c' (sv_conns s) = xs @ (i, c') # ys"
    using alist_split [OF Pump.hyps(1)] by blast
  then show ?case using Pump.hyps(2) by (simp add: crash_conns_def put_conn_def)
next
  case (Finish s i c r)
  have "distinct (map fst (sv_conns s))" using Finish.prems by (simp add: server_inv_def)
  then obtain xs ys where "sv_conns s = xs @ (i, c) # ys" "AList.delete i (sv_conns s) = xs @ ys"
    using alist_split [OF Finish.hyps(1)] by blast
  then show ?case using Finish.hyps(2) by (simp add: crash_conns_def reap_conn_def)
next
  case (Resume s T)
  show ?case by (simp add: crash_conns_def)
qed

lemma crash_conns_reach:
  assumes "(server_step v keeps opts)\<^sup>*\<^sup>* s s'" "server_inv keeps s"
  shows "server_inv keeps s' \<and> crash_conns s \<le> crash_conns s'"
  using assms by (induction rule: rtranclp_induct) (auto dest: server_step_inv crash_conns_step)

lemma crash_conns_full: "server_inv keeps s \<Longrightarrow> MAX_SESSIONS \<le> crash_conns s \<Longrightarrow> MAX_SESSIONS \<le> sv_sessions s"
  by (auto simp: server_inv_def crash_conns_def intro: order_trans [OF _ length_filter_le])

lemma crash_reach:
  fixes src :: "usbfs_device source"
  assumes panics: "src_list src = Inl Panicked"
  shows "n \<le> MAX_SESSIONS \<Longrightarrow> \<exists>s. (server_step v keeps opts)\<^sup>*\<^sup>* server_new s \<and> crash_conns s = n \<and> sv_sessions s = n"
proof (induction n)
  case 0
  show ?case by (intro exI [of _ server_new]) (simp add: crash_conns_def server_new_def)
next
  case (Suc n)
  then obtain s where s: "(server_step v keeps opts)\<^sup>*\<^sup>* server_new s" "crash_conns s = n" "sv_sessions s = n" by auto
  let ?a = "accept_conn True s"
  let ?inp = "\<lparr>ci_source = src, ci_request = Inr (Some DevList), ci_untimed = None, ci_write = None\<rparr>"
  let ?c = "conn_new\<lparr>cn_pc := CnDone ThreadPanicked\<rparr>"
  let ?b = "(put_conn (sv_next s) ?c ?a)\<lparr>sv_registry := sv_registry ?a\<rparr>"
  have a: "sv_conns ?a = (sv_next s, conn_new) # sv_conns s" "sv_sessions ?a = Suc n"
    using s Suc.prems by (simp_all add: accept_conn_def)
  have "conn_step v keeps (?inp\<lparr>ci_source := gated (ci_source ?inp) (sv_toggle ?a)\<rparr>) (sv_registry ?a, conn_new) = (sv_registry ?a, ?c)"
    by (simp add: conn_step.simps conn_new_def on_request_def gated_def panics)
  then have "server_step v keeps opts ?a ?b" using a by (intro Move [where inp = ?inp and c = conn_new]) simp_all
  with s(1) Accept have "(server_step v keeps opts)\<^sup>*\<^sup>* server_new ?b"
    by (meson rtranclp.rtrancl_into_rtrancl)
  then show ?case
    using a s by (intro exI [of _ ?b]) (simp add: crash_conns_def put_conn_def)
qed

section \<open>Concrete runs\<close>

definition move_conn :: "env \<Rightarrow> bool \<Rightarrow> nat \<times> conn_input \<Rightarrow> server \<Rightarrow> server" where
  "move_conn v keeps m s = (case map_of (sv_conns s) (fst m) of
     None \<Rightarrow> s
   | Some c \<Rightarrow> (case conn_step v keeps ((snd m)\<lparr>ci_source := gated (ci_source (snd m)) (sv_toggle s)\<rparr>) (sv_registry s, c) of
       (reg, c') \<Rightarrow> (put_conn (fst m) c' s)\<lparr>sv_registry := reg\<rparr>))"

lemma move_conn_reach: "(server_step v keeps opts)\<^sup>*\<^sup>* s (move_conn v keeps m s)"
  by (auto simp: move_conn_def split: option.split prod.split intro: Move)

lemma moves_reach: "(server_step v keeps opts)\<^sup>*\<^sup>* s (fold (move_conn v keeps) ms s)"
  by (induction ms arbitrary: s) (auto intro: rtranclp_trans move_conn_reach)

lemma run_reach: "(server_step v keeps opts)\<^sup>*\<^sup>* server_new (fold (move_conn v keeps) ms ((accept_conn True ^^ n) server_new))"
proof -
  have "(server_step v keeps opts)\<^sup>*\<^sup>* server_new ((accept_conn True ^^ n) server_new)"
    by (induction n) (auto intro: rtranclp.rtrancl_into_rtrancl Accept)
  then show ?thesis using moves_reach rtranclp_trans by fast
qed

definition sample_input :: conn_input where
  "sample_input = \<lparr>ci_source = single_device sample_usbfs, ci_request = Inr (Some (Import ''3-12'')), ci_untimed = None, ci_write = None\<rparr>"

text \<open>Two clients import the same device; the second comes while the first has it claimed.\<close>

definition sample_run :: "nat \<Rightarrow> server" where
  "sample_run n = fold (move_conn sample_env False) (map (\<lambda>i. (i, sample_input)) (take n ([0, 0, 0, 0, 0, 1, 1, 1, 1, 1] )))
     ((accept_conn True ^^ 2) server_new)"

section \<open>Properties\<close>

text \<open>
  C3. Whatever the connections do and however their steps interleave, at most one of them
  has a given device in hand: between opening it under its lease and giving the lease back
  a second connection can neither open nor claim it.
\<close>

theorem server_exclusive:
  assumes "(server_step v keeps opts)\<^sup>*\<^sup>* server_new s"
  shows "length (filter (\<lambda>x. uses_device (cn_pc (snd x)) b) (sv_conns s)) \<le> 1"
proof (rule distinct_concat_users [where f = "lease_of \<circ> cn_pc \<circ> snd" and b = b])
  show "distinct (concat (map (lease_of \<circ> cn_pc \<circ> snd) (sv_conns s)))"
    using server_reach_inv [OF assms] by (simp add: server_inv_def leases_of_def)
qed (simp add: uses_lease)

theorem server_exclusive_witness:
  "map (\<lambda>x. uses_device (cn_pc (snd x)) ''3-12'') (sv_conns (sample_run 9)) = [False, True]
   \<and> length (filter (\<lambda>x. uses_device (cn_pc (snd x)) ''3-12'') (sv_conns (sample_run 9))) \<le> 1"
proof
  show "length (filter (\<lambda>x. uses_device (cn_pc (snd x)) ''3-12'') (sv_conns (sample_run 9))) \<le> 1"
    unfolding sample_run_def by (rule server_exclusive [OF run_reach [where opts = "\<lparr>so_prefetch = True, so_hotkey = None\<rparr>"]])
qed code_simp

text \<open>
  C4. The server refines the lease registry: whatever its connections do, each of its steps is a
  grant, a refusal or a drop of the abstract registry, or invisible to it, so that the bus ids it
  holds busy and the leases of its connections are a reachable state of that transition system.
\<close>

theorem server_refines_registry:
  assumes "(server_step v keeps opts)\<^sup>*\<^sup>* server_new s"
  shows "\<exists>ls. registry_step\<^sup>*\<^sup>* (registry_new, []) (sv_registry s, ls) \<and> mset ls = mset (leases_of s)"
  using assms
proof (induction rule: rtranclp_induct)
  case base
  show ?case by (intro exI [of _ "[]"]) (simp add: server_new_def leases_of_def)
next
  case (step s s')
  then obtain ls where ls: "registry_step\<^sup>*\<^sup>* (registry_new, []) (sv_registry s, ls)" "lease_sim s ls"
    by (auto simp: lease_sim_def)
  obtain ls' where "registry_step\<^sup>*\<^sup>* (sv_registry s, ls) (sv_registry s', ls')" "lease_sim s' ls'"
    using registry_simulates [OF step.hyps(2) server_reach_inv [OF step.hyps(1)] ls(2)] by blast
  then show ?case using ls(1) rtranclp_trans unfolding lease_sim_def by metis
qed

theorem server_refines_registry_witness:
  "leases_of (sample_run 9) = [''3-12'']
   \<and> (\<exists>ls. registry_step\<^sup>*\<^sup>* (registry_new, []) (sv_registry (sample_run 9), ls) \<and> mset ls = mset (leases_of (sample_run 9)))"
proof
  show "\<exists>ls. registry_step\<^sup>*\<^sup>* (registry_new, []) (sv_registry (sample_run 9), ls) \<and> mset ls = mset (leases_of (sample_run 9))"
    unfolding sample_run_def
    by (rule server_refines_registry [OF run_reach [where opts = "\<lparr>so_prefetch = True, so_hotkey = None\<rparr>"]])
qed code_simp


definition is_done :: "conn_pc \<Rightarrow> bool" where
  "is_done pc = (case pc of CnDone r \<Rightarrow> True | _ \<Rightarrow> False)"

lemma all_done: "map (\<lambda>x. is_done (cn_pc (snd x))) es = [True] \<Longrightarrow> \<forall>x \<in> set es. \<exists>r. cn_pc (snd x) = CnDone r"
proof -
  have "is_done pc \<Longrightarrow> \<exists>r. pc = CnDone r" for pc by (cases pc) (simp_all add: is_done_def)
  then show "map (\<lambda>x. is_done (cn_pc (snd x))) es = [True] \<Longrightarrow> \<forall>x \<in> set es. \<exists>r. cn_pc (snd x) = CnDone r" by auto
qed


text \<open>
  C36. A connection whose thread panics keeps its slot for good: once \<open>MAX_SESSIONS\<close> of them
  have, no connection is ever accepted again.
\<close>

theorem panicked_slots_lost:
  assumes "(server_step v keeps opts)\<^sup>*\<^sup>* server_new s" "MAX_SESSIONS \<le> crash_conns s"
    and "(server_step v keeps opts)\<^sup>*\<^sup>* s s'"
  shows "accept_conn spawned s' = s'"
proof -
  have "server_inv keeps s' \<and> crash_conns s \<le> crash_conns s'"
    by (rule crash_conns_reach [OF assms(3) server_reach_inv [OF assms(1)]])
  then have "MAX_SESSIONS \<le> sv_sessions s'" using assms(2) crash_conns_full by fastforce
  then show ?thesis by (simp add: accept_conn_def)
qed

definition short_total_fs :: fs where
  "short_total_fs = sample_fs\<lparr>fs_read := (\<lambda>p. Inr (device_bytes (ds_device sample_descriptors)
     @ [9, DT_CONFIG, 0, 0, 1, 1, 0, 0xa0, 250]))\<rparr>"

lemma short_total_list: "src_list (sysfs_devices short_total_fs pb flt mt) = Inl Panicked"
proof -
  have "parse (device_bytes (ds_device sample_descriptors) @ [9, DT_CONFIG, 0, 0, 1, 1, 0, 0xa0, 250]) = Inl Panic"
    by code_simp
  moreover have "is_valid_busid ''3-12''" by code_simp
  ultimately have "summary_from_sysfs short_total_fs ''3-12'' = Inl Panicked"
    by (simp add: summary_from_sysfs_def short_total_fs_def)
  moreover have "fs_read_dir short_total_fs p = Inr [Some ''usb1'', None, Some ''3-12:1.0'', Some ''3-12'']" for p
    by (simp add: short_total_fs_def sample_fs_def)
  ultimately show ?thesis
    by (simp add: sysfs_devices_def list_devices_def list_all_devices_def starts_with_def)
qed

theorem panicked_slots_lost_witness:
  "\<exists>s. (server_step sample_env False \<lparr>so_prefetch = True, so_hotkey = None\<rparr>)\<^sup>*\<^sup>* server_new s
     \<and> sv_sessions s = 16 \<and> accept_conn True s = s"
proof -
  let ?o = "\<lparr>so_prefetch = True, so_hotkey = None\<rparr>"
  obtain s where s: "(server_step sample_env False ?o)\<^sup>*\<^sup>* server_new s" "crash_conns s = 16" "sv_sessions s = 16"
    using crash_reach [OF short_total_list, of 16 sample_env False ?o] by (auto simp: MAX_SESSIONS_def)
  then have "accept_conn True s = s"
    by (intro panicked_slots_lost [OF s(1), of s]) (simp_all add: MAX_SESSIONS_def)
  with s show ?thesis by blast
qed

text \<open>
  C13. The bus id of an import request comes from the network. It gets past the check only when
  it names a device that sysfs lists, that the allow-list admits and that is not suspended;
  any other bus id leaves the registry alone and opens nothing.
\<close>

theorem import_allow_listed:
  assumes "cn_pc c = CnImport b"
    and "conn_step v keeps (inp\<lparr>ci_source := gated (sysfs_devices f pb flt mt) t\<rparr>) (reg, c) = (reg', c')"
    and "\<not> (\<exists>ds. list_all_devices f = Inr ds \<and> (\<exists>d \<in> set ds. sm_busid d = b
           \<and> filter_matches flt (fst (vid_pid d)) (snd (vid_pid d))) \<and> \<not> is_suspended b t)"
  shows "reg' = reg \<and> (\<exists>r. cn_pc c' \<in> {CnDone r, CnUnwind None None r})"
proof (cases "list_all_devices f")
  case (Inl e)
  then show ?thesis
    using assms(1,2) by (auto simp: conn_step.simps gated_def sysfs_devices_def list_devices_def)
next
  case (Inr ds)
  let ?ds = "filter (\<lambda>d. \<not> is_suspended (sm_busid d) t) (filter (\<lambda>d. filter_matches flt (fst (vid_pid d)) (snd (vid_pid d))) ds)"
  have "src_list (gated (sysfs_devices f pb flt mt) t) = Inr ?ds"
    by (simp add: gated_def sysfs_devices_def list_devices_def Inr)
  moreover have "\<not> list_ex (\<lambda>d. sm_busid d = b) ?ds" using assms(3) Inr by (auto simp: list_ex_iff)
  ultimately show ?thesis
    using assms(1,2) by (auto simp: conn_step.simps refuse_def write_then_def split: option.splits)
qed

definition sample_probe :: probe where
  "sample_probe = \<lparr>pb_open = None, pb_seek = None, pb_reads = [], pb_speed = 3, pb_caps = None, pb_control = (\<lambda>_. Inl EPIPE)\<rparr>"

theorem import_allow_listed_witness:
  "let c = conn_new\<lparr>cn_pc := CnImport ''3-12''\<rparr>;
       src = gated (sysfs_devices sample_fs sample_probe filter_default 64) {''3-12''};
       st = conn_step sample_env False (sample_input\<lparr>ci_source := src\<rparr>) ({}, c)
   in fst st = {}"
proof -
  let ?c = "conn_new\<lparr>cn_pc := CnImport ''3-12''\<rparr>"
  let ?i = "sample_input\<lparr>ci_source := gated (sysfs_devices sample_fs sample_probe filter_default 64) {''3-12''}\<rparr>"
  obtain reg c' where st: "conn_step sample_env False ?i ({}, ?c) = (reg, c')" by (rule prod.exhaust)
  then have "reg = {} \<and> (\<exists>r. cn_pc c' \<in> {CnDone r, CnUnwind None None r})"
    by (rule import_allow_listed [rotated]) (simp_all add: is_suspended_def)
  with st show ?thesis by (simp add: Let_def)
qed

text \<open>
  The reply to an import is written after the interfaces were claimed, and a failure to write
  it returns without \<open>release_all\<close>. Where the source keeps the device open, as the Android
  exporter does, the interfaces stay claimed after the connection is gone.
\<close>

theorem import_write_failure_keeps_claims:
  assumes "cn_pc c = CnClaimed b d" "ci_write inp = Some e"
  shows "(conn_step v True inp ^^ 3) (reg, c) =
    (reg - {b}, c\<lparr>cn_pc := CnDone (Finished (Inl e)), cn_dev := Some d\<rparr>)"
  using assms by (simp add: numeral_3_eq_3 conn_step.simps write_then_def drop_dev_def drop_lease_def)

end
