(* ===== verification/Listen.thy ===== *)
theory Listen
  imports Netif Server
begin

text \<open>
  Which addresses the server listens on, the first half of \<open>usbfwd-server/src/lib.rs\<close>: the
  configuration with its defaults, the resolution of bind options to addresses and the loop
  that waits for the tailnet.
\<close>

datatype bind = Tailscale | Any | Addr ip_addr

definition DEFAULT_TOGGLE_HOLD :: nat where "DEFAULT_TOGGLE_HOLD = 1000"

record server_config =
  cf_binds :: "bind list"
  cf_port :: u16
  cf_filter :: device_filter
  cf_max_transfer :: nat
  cf_mdns :: bool
  cf_name :: "string option"
  cf_prefetch :: bool
  cf_toggle_chord :: "chord option"
  cf_toggle_hold :: nat

definition server_config_default :: server_config where
  "server_config_default = \<lparr>cf_binds = [Tailscale], cf_port = USBIP_PORT, cf_filter = filter_default,
     cf_max_transfer = DEFAULT_MAX_TRANSFER, cf_mdns = False, cf_name = None, cf_prefetch = False,
     cf_toggle_chord = None, cf_toggle_hold = DEFAULT_TOGGLE_HOLD\<rparr>"

definition V4_UNSPECIFIED :: ip_addr where "V4_UNSPECIFIED = V4 0"
definition V6_UNSPECIFIED :: ip_addr where "V6_UNSPECIFIED = V6 (replicate 16 0)"

definition no_tailnet :: io_error where
  "no_tailnet = Io AddrNotAvailable (''no Tailscale address found. Start tailscale, or pass ''
     @ ''--bind <addr> for a specific interface (or --bind any, ''
     @ ''which puts plaintext USB traffic on every network).'')"

fun resolve_loop :: "io_error + ifaddrs list \<Rightarrow> bind list \<Rightarrow> ip_addr list \<Rightarrow> io_error + ip_addr list" where
  "resolve_loop ifs [] out = Inr out"
| "resolve_loop ifs (Addr a # bs) out = resolve_loop ifs bs (out @ [a])"
| "resolve_loop ifs (Any # bs) out = resolve_loop ifs bs (out @ [V4_UNSPECIFIED, V6_UNSPECIFIED])"
| "resolve_loop ifs (Tailscale # bs) out = rbind (tailscale_addrs ifs) (\<lambda>found.
     if found = [] then Inl no_tailnet else resolve_loop ifs bs (out @ found))"

definition resolve_binds :: "io_error + ifaddrs list \<Rightarrow> bind list \<Rightarrow> io_error + ip_addr list" where
  "resolve_binds ifs binds = rbind (resolve_loop ifs binds []) (\<lambda>out. Inr (remdups_adj out))"

text \<open>A listener is the socket address it is bound to; \<open>tcp\<close> is what \<open>TcpListener::bind\<close> answers.\<close>

definition bind_all :: "(ip_addr \<times> u16 \<Rightarrow> io_error option) \<Rightarrow> io_error + ifaddrs list \<Rightarrow> server_config
    \<Rightarrow> io_error + (ip_addr \<times> u16) list" where
  "bind_all tcp ifs args = rbind (resolve_binds ifs (cf_binds args)) (\<lambda>addrs.
     let listeners = filter (\<lambda>sa. tcp sa = None) (map (\<lambda>a. (a, cf_port args)) addrs)
     in if listeners = [] then Inl (Io AddrNotAvailable ''no address could be bound'') else Inr listeners)"

record attempt =
  at_tcp :: "ip_addr \<times> u16 \<Rightarrow> io_error option"
  at_ifs :: "io_error + ifaddrs list"
  at_shutdown :: bool

text \<open>One entry per turn of the loop; \<open>None\<close> when it is still waiting after the last of them.\<close>

fun bind_when_ready :: "server_config \<Rightarrow> attempt list \<Rightarrow> (io_error + (ip_addr \<times> u16) list) option" where
  "bind_when_ready args [] = None"
| "bind_when_ready args (t # ts) =
     (case bind_all (at_tcp t) (at_ifs t) args of
        Inr l \<Rightarrow> Some (Inr l)
      | Inl e \<Rightarrow>
          if Tailscale \<in> set (cf_binds args) \<and> io_error_kind e = AddrNotAvailable
          then if at_shutdown t then Some (Inl e) else bind_when_ready args ts
          else Some (Inl e))"

section \<open>What is listened on\<close>

lemma resolve_loop_sound:
  "resolve_loop ifs bs out = Inr as \<Longrightarrow> a \<in> set as \<Longrightarrow> a \<in> set out \<or> Addr a \<in> set bs
     \<or> (Any \<in> set bs \<and> a \<in> {V4_UNSPECIFIED, V6_UNSPECIFIED})
     \<or> (Tailscale \<in> set bs \<and> (\<exists>found. tailscale_addrs ifs = Inr found \<and> a \<in> set found))"
  by (induction ifs bs out rule: resolve_loop.induct) (auto simp: rbind_Inr_iff split: if_splits)

lemma bind_when_ready_attempt:
  "bind_when_ready args ts = Some (Inr l) \<Longrightarrow> \<exists>t \<in> set ts. bind_all (at_tcp t) (at_ifs t) args = Inr l"
  by (induction ts) (auto split: sum.splits if_splits)

text \<open>
  With the default configuration, and with any that binds only to the tailnet, the server
  listens on nothing else: every listener has the configured port and an address that was on
  an interface at the time and is in \<open>100.64.0.0/10\<close> or the Tailscale prefix or belongs to an
  interface named \<open>tailscale\<close>, and is neither loopback nor link-local; however long it waited.
\<close>

theorem default_bind_stays_on_tailnet:
  assumes "cf_binds args = [Tailscale]" "bind_when_ready args ts = Some (Inr ls)"
  shows "ls \<noteq> [] \<and> (\<exists>t \<in> set ts. \<forall>(a, p) \<in> set ls. p = cf_port args \<and> bindable a
    \<and> (\<exists>l i. at_ifs t = Inr l \<and> i \<in> set (if_list l) \<and> if_addr i = a
         \<and> (starts_with (if_name i) ''tailscale''
            \<or> (case a of V4 n \<Rightarrow> 0x64400000 \<le> n \<and> n \<le> 0x647fffff | V6 bs \<Rightarrow> take 6 bs = TAILSCALE_V6_PREFIX))))"
proof -
  obtain t where t: "t \<in> set ts" and b: "bind_all (at_tcp t) (at_ifs t) args = Inr ls"
    using bind_when_ready_attempt [OF assms(2)] by blast
  then obtain as where as: "resolve_loop (at_ifs t) [Tailscale] [] = Inr as"
    and ls: "ls = filter (\<lambda>sa. at_tcp t sa = None) (map (\<lambda>a. (a, cf_port args)) (remdups_adj as))" "ls \<noteq> []"
    using assms(1) by (auto simp: bind_all_def resolve_binds_def rbind_Inr_iff Let_def split: if_splits)
  have "p = cf_port args \<and> (\<exists>found. tailscale_addrs (at_ifs t) = Inr found \<and> a \<in> set found)"
    if "(a, p) \<in> set ls" for a p
    using that ls(1) resolve_loop_sound [OF as, of a] by auto
  moreover have "is_tailscale_addr a \<longleftrightarrow>
      (case a of V4 n \<Rightarrow> 0x64400000 \<le> n \<and> n \<le> 0x647fffff | V6 bs \<Rightarrow> take 6 bs = TAILSCALE_V6_PREFIX)" for a
    by (cases a) (simp_all add: tailscale_v4_range is_tailscale_v6_def)
  ultimately show ?thesis
    using t ls(2) tailscale_addrs_sound [of "at_ifs t"] by (intro conjI bexI [of _ t]) (auto, blast+)
qed

definition sample_ifs :: "ifaddrs list" where
  "sample_ifs = [\<lparr>ifa_name = Some ''lo'', ifa_addr = Some (AfInet 127 0 0 1)\<rparr>,
     \<lparr>ifa_name = Some ''wlan0'', ifa_addr = Some (AfInet 192 168 1 10)\<rparr>,
     \<lparr>ifa_name = Some ''tailscale0'', ifa_addr = Some AfOther\<rparr>,
     \<lparr>ifa_name = Some ''tailscale0'', ifa_addr = Some (AfInet6 ([0xfd, 0x7a, 0x11, 0x5c, 0xa1, 0xe0] @ replicate 9 0 @ [5]))\<rparr>,
     \<lparr>ifa_name = Some ''ts'', ifa_addr = Some (AfInet 100 101 102 103)\<rparr>]"

definition sample_attempts :: "attempt list" where
  "sample_attempts = [\<lparr>at_tcp = (\<lambda>_. None), at_ifs = Inr (take 2 sample_ifs), at_shutdown = False\<rparr>,
     \<lparr>at_tcp = (\<lambda>_. None), at_ifs = Inr sample_ifs, at_shutdown = False\<rparr>]"

lemma sample_binds: "bind_when_ready server_config_default sample_attempts =
    Some (Inr [(V4 0x64656667, 3240), (V6 ([0xfd, 0x7a, 0x11, 0x5c, 0xa1, 0xe0] @ replicate 9 0 @ [5]), 3240)])"
  by (simp add: sample_attempts_def sample_ifs_def server_config_default_def bind_all_def resolve_binds_def
      tailscale_addrs_def tailscale_v4_range is_tailscale_v6_def TAILSCALE_V6_PREFIX_def
      ipv4_def of_be32_def starts_with_def v4_loopback_def v6_loopback_def v6_link_local_def of_be16_def
      no_tailnet_def USBIP_PORT_def Let_def)

theorem default_bind_stays_on_tailnet_witness:
  "\<exists>ls. bind_when_ready server_config_default sample_attempts = Some (Inr ls) \<and> ls \<noteq> []"
proof -
  have "cf_binds server_config_default = [Tailscale]" by (simp add: server_config_default_def)
  then show ?thesis using default_bind_stays_on_tailnet [OF _ sample_binds] sample_binds by blast
qed

end
