(* ===== verification/Sources.thy ===== *)
theory Sources
  imports Server
begin

text \<open>
  The interface \<open>DeviceSource\<close> between the server's connections and where devices come from, and its
  three providers: \<open>SysfsDevices\<close>, \<open>SingleDevice\<close> and the gate of the toggle around either. What a
  connection does with a source is proved once, of any source that lists allowed devices only.
\<close>

locale device_source =
  fixes src :: "usbfs_device source" and allowed :: "device_summary \<Rightarrow> bool"
  assumes listed_allowed: "src_list src = Inr ds \<Longrightarrow> d \<in> set ds \<Longrightarrow> allowed d"
begin

text \<open>An import goes on to ask for a lease only when an allowed device has the bus id.\<close>

lemma import_listed:
  assumes "conn_step v keeps inp (reg, c) = (reg', c')" "ci_source inp = src"
    "cn_pc c = CnImport b" "cn_pc c' = CnListed b'"
  shows "b' = b \<and> reg' = reg \<and> (\<exists>d. allowed d \<and> sm_busid d = b)"
proof (cases "src_list src")
  case (Inl e)
  then show ?thesis using assms by (auto simp: conn_step.simps)
next
  case (Inr ds)
  show ?thesis
  proof (cases "list_ex (\<lambda>d. sm_busid d = b) ds")
    case True
    then have "\<exists>d. allowed d \<and> sm_busid d = b" using listed_allowed [OF Inr] by (auto simp: list_ex_iff)
    then show ?thesis using assms Inr True by (auto simp: conn_step.simps)
  next
    case False
    then show ?thesis
      using assms Inr by (auto simp: conn_step.simps refuse_def write_then_def split: option.splits)
  qed
qed

text \<open>What a device list tells a client are records of allowed devices.\<close>

lemma devlist_allowed:
  assumes "ci_source inp = src" "ci_request inp = Inr (Some DevList)" "cn_out (on_request inp c) \<noteq> cn_out c"
  shows "\<exists>ds. list_all allowed ds \<and> cn_out (on_request inp c) = cn_out c @ encode_devlist_reply (map to_usbip ds)"
proof (cases "src_list src")
  case (Inr ds)
  then have "list_all allowed ds" using listed_allowed by (auto simp: list_all_iff)
  then show ?thesis using assms Inr by (auto simp: on_request_def write_then_def split: option.splits)
qed (use assms in \<open>simp add: on_request_def\<close>)

end

text \<open>The gate keeps the contract, and what it lists is not suspended.\<close>

locale gated_source = device_source +
  fixes t :: toggle

sublocale gated_source \<subseteq> gate: device_source "gated src t" "\<lambda>d. allowed d \<and> \<not> is_suspended (sm_busid d) t"
  by unfold_locales (auto simp: gated_def rbind_Inr_iff dest: listed_allowed)

text \<open>A source that can open whatever it lists, for as long as the device is there.\<close>

locale openable_source = device_source +
  assumes opens_listed: "src_list src = Inr ds \<Longrightarrow> d \<in> set ds \<Longrightarrow> \<exists>x. src_open src (sm_busid d) = Inr x \<and> d_summary x = d"
begin

lemma leased_opens:
  assumes "src_list src = Inr ds" "d \<in> set ds" "ci_source inp = src" "cn_pc c = CnLeased (sm_busid d)"
  shows "\<exists>x. conn_step v keeps inp (reg, c) = (reg, c\<lparr>cn_pc := CnOpened (sm_busid d) x\<rparr>) \<and> d_summary x = d"
  using opens_listed [OF assms(1,2)] assms(3,4) by (auto simp: conn_step.simps)

end

interpretation sysfs_source: gated_source "sysfs_devices f pb flt mt"
    "\<lambda>d. filter_matches flt (fst (vid_pid d)) (snd (vid_pid d))" t for f pb flt mt t
  by unfold_locales (auto simp: sysfs_devices_def list_devices_def rbind_Inr_iff)

interpretation single_source: openable_source "single_device d" "\<lambda>x. x = d_summary d" for d
  by unfold_locales (auto simp: single_device_def)

text \<open>
  With no device suspended the gate is not there: this is how a server without a toggle chord,
  whose source is not wrapped, is covered by the model of one that is.
\<close>

lemma gated_nothing: "src_list (gated src {}) = src_list src" "src_open (gated src {}) = src_open src"
  by (cases "src_list src") (simp_all add: gated_def is_suspended_def)

end
