(* ===== verification/Ip_Addr.thy ===== *)
theory Ip_Addr
  imports Netif
begin

text \<open>
  \<open>IpAddr::from_str\<close> of the standard library, which \<open>--bind\<close> hands its value to: decimal octets
  without leading zeros, or groups of up to four hexadecimal digits with one \<open>::\<close> and, at the
  end, the last two groups in dotted form. A reader returns what it read and what is left.
\<close>

type_synonym 'a ip_reader = "string \<Rightarrow> ('a \<times> string) option"

text \<open>The digits at the front, at most \<open>limit\<close> of them; a longer run is an error.\<close>

definition read_digits :: "nat \<Rightarrow> nat \<Rightarrow> string ip_reader" where
  "read_digits radix limit s =
     (let ds = takeWhile (\<lambda>c. to_digit radix c \<noteq> None) s
      in if ds = [] \<or> limit < length ds then None else Some (ds, drop (length ds) s))"

definition read_octet :: "nat ip_reader" where
  "read_octet s = (case read_digits 10 3 s of
     None \<Rightarrow> None
   | Some (ds, r) \<Rightarrow>
       if take 1 ds = ''0'' \<and> 1 < length ds then None
       else (case radix_loop 255 10 0 ds of None \<Rightarrow> None | Some n \<Rightarrow> Some (n, r)))"

definition read_char :: "char \<Rightarrow> string \<Rightarrow> string option" where
  "read_char c s = (case s of x # r \<Rightarrow> if x = c then Some r else None | [] \<Rightarrow> None)"

fun read_octets :: "nat \<Rightarrow> (nat list) ip_reader" where
  "read_octets 0 s = Some ([], s)"
| "read_octets (Suc k) s =
     (case read_octet s of
        None \<Rightarrow> None
      | Some (n, r) \<Rightarrow>
          if k = 0 then Some ([n], r)
          else (case read_char (CHR ''.'') r of
                  None \<Rightarrow> None
                | Some r' \<Rightarrow> (case read_octets k r' of None \<Rightarrow> None | Some (ns, r'') \<Rightarrow> Some (n # ns, r''))))"

definition read_ipv4 :: "(u8 list) ip_reader" where
  "read_ipv4 s = (case read_octets 4 s of None \<Rightarrow> None | Some (ns, r) \<Rightarrow> Some (map of_nat ns, r))"

definition read_group :: "u16 ip_reader" where
  "read_group s = (case read_digits 16 4 s of
     None \<Rightarrow> None
   | Some (ds, r) \<Rightarrow> map_option (\<lambda>n. (of_nat n, r)) (radix_loop 0xffff 16 0 ds))"

text \<open>A reader behind a separator, which stands before every item but the first.\<close>

definition read_separated :: "bool \<Rightarrow> 'a ip_reader \<Rightarrow> 'a ip_reader" where
  "read_separated first rd s = (if first then rd s
     else case read_char (CHR '':'') s of None \<Rightarrow> None | Some r \<Rightarrow> rd r)"

text \<open>Up to \<open>k\<close> groups; \<open>True\<close> when the last two came from a dotted address.\<close>

fun read_groups :: "nat \<Rightarrow> bool \<Rightarrow> string \<Rightarrow> (u16 list \<times> bool) \<times> string" where
  "read_groups 0 first s = (([], False), s)"
| "read_groups (Suc k) first s =
     (case (if 0 < k then read_separated first read_ipv4 s else None) of
        Some (os, r) \<Rightarrow> (([of_be16 (os ! 0) (os ! 1), of_be16 (os ! 2) (os ! 3)], True), r)
      | None \<Rightarrow>
          (case read_separated first read_group s of
             None \<Rightarrow> (([], False), s)
           | Some (g, r) \<Rightarrow> (case read_groups k False r of ((gs, v4), r') \<Rightarrow> ((g # gs, v4), r'))))"

definition read_ipv6 :: "(u16 list) ip_reader" where
  "read_ipv6 s =
     (case read_groups 8 True s of ((hd_gs, v4), r) \<Rightarrow>
        if length hd_gs = 8 then Some (hd_gs, r)
        else if v4 then None
        else case Option.bind (read_char (CHR '':'') r) (read_char (CHR '':'')) of
          None \<Rightarrow> None
        | Some r' \<Rightarrow>
            (case read_groups (7 - length hd_gs) True r' of ((tl_gs, _), r'') \<Rightarrow>
               Some (hd_gs @ replicate (8 - length hd_gs - length tl_gs) 0 @ tl_gs, r'')))"

definition ip_from_str :: "string \<Rightarrow> ip_addr option" where
  "ip_from_str s =
     (case read_ipv4 s of
        Some (os, r) \<Rightarrow> if r = [] then Some (V4 (of_be32 (os ! 0) (os ! 1) (os ! 2) (os ! 3))) else None
      | None \<Rightarrow>
          (case read_ipv6 s of
             Some (gs, []) \<Rightarrow> Some (V6 (concat (map be16 gs)))
           | _ \<Rightarrow> None))"

section \<open>Reading a printed address\<close>

lemma digit_char_zero: "d < 10 \<Longrightarrow> digit_char d = CHR ''0'' \<longleftrightarrow> d = 0"
proof -
  assume "d < 10"
  then have "to_digit 10 (digit_char d) = Some d" "to_digit 10 (digit_char 0) = Some 0"
    using to_digit_digit_char [of d 10] to_digit_digit_char [of 0 10] by simp_all
  moreover have "digit_char 0 = CHR ''0''" by code_simp
  ultimately show ?thesis by auto
qed

lemma show_loop_length: "n < 10 ^ Suc k \<Longrightarrow> length (show_loop 10 n) \<le> Suc k"
proof (induction k arbitrary: n)
  case 0
  then show ?case by (subst show_loop.simps) simp
next
  case (Suc k)
  from Suc.prems have "n div 10 < 10 ^ Suc k" by (simp add: less_mult_imp_div_less)
  from Suc.IH [OF this] show ?case by (subst show_loop.simps) simp
qed

lemma show_loop_leading: "0 < n \<Longrightarrow> hd (show_loop 10 n) \<noteq> CHR ''0''"
proof (induction n rule: less_induct)
  case (less n)
  show ?case
  proof (cases "n < 10")
    case True
    then show ?thesis using less.prems by (subst show_loop.simps) (simp add: digit_char_zero)
  next
    case False
    with less.IH [of "n div 10"] show ?thesis by (subst show_loop.simps) simp
  qed
qed

lemma show_octet:
  assumes "n < 256"
  shows "length (show_nat n) \<le> 3" "take 1 (show_nat n) = ''0'' \<longrightarrow> length (show_nat n) = 1"
proof -
  show "length (show_nat n) \<le> 3"
    using show_loop_length [of n "Suc (Suc 0)"] assms by (simp add: show_nat_def)
  have "length (show_nat n) = 1" if "n = 0" using that by (simp add: show_nat_def) (subst show_loop.simps, simp)
  moreover have "take 1 (show_nat n) \<noteq> ''0''" if "0 < n"
    using show_loop_leading [OF that] by (cases "show_loop 10 n") (simp_all add: show_nat_def)
  ultimately show "take 1 (show_nat n) = ''0'' \<longrightarrow> length (show_nat n) = 1" by blast
qed

lemma read_octet_show:
  assumes "n < 256" "r = [] \<or> to_digit 10 (hd r) = None"
  shows "read_octet (show_nat n @ r) = Some (n, r)"
proof -
  have all: "\<forall>c \<in> set (show_nat n). to_digit 10 c \<noteq> None"
    using show_nat_chars [of n] by (simp add: list_all_iff)
  then have "takeWhile (\<lambda>c. to_digit 10 c \<noteq> None) (show_nat n @ r) = show_nat n"
    using assms(2) by (cases r) auto
  then have "read_digits 10 3 (show_nat n @ r) = Some (show_nat n, r)"
    using show_octet(1) [OF assms(1)] by (simp add: read_digits_def Let_def) (simp add: show_nat_def)
  moreover have "radix_loop 255 10 0 (show_nat n) = Some n"
    using assms(1) unfolding show_nat_def by (intro radix_loop_show) simp_all
  ultimately show ?thesis
    using show_octet(2) [OF assms(1)] by (auto simp: read_octet_def)
qed

lemma dot_not_digit: "to_digit 10 (CHR ''.'') = None"
  by (simp add: to_digit_def digit_value_def)

text \<open>What \<open>Display\<close> writes for an IPv4 address is read back as that address.\<close>

definition print_octets :: "u8 \<Rightarrow> u8 \<Rightarrow> u8 \<Rightarrow> u8 \<Rightarrow> string" where
  "print_octets a b c d = show_nat (unat a) @ ''.'' @ show_nat (unat b) @ ''.'' @ show_nat (unat c) @ ''.'' @ show_nat (unat d)"

lemma ipv4_print_parse: "ip_from_str (print_octets a b c d) = Some (V4 (of_be32 a b c d))"
proof -
  have small: "unat x < 256" for x :: u8 using unsigned_less [of x] by simp
  have dotted: "read_octet (show_nat (unat x) @ CHR ''.'' # r) = Some (unat x, CHR ''.'' # r)" for x :: u8 and r
    by (rule read_octet_show [OF small]) (simp add: dot_not_digit)
  have last: "read_octet (show_nat (unat x)) = Some (unat x, [])" for x :: u8
    using read_octet_show [OF small, of "[]"] by simp
  have "read_octets (Suc (Suc (Suc (Suc 0)))) (print_octets a b c d) = Some ([unat a, unat b, unat c, unat d], [])"
    by (simp add: print_octets_def read_char_def dotted last)
  then have "read_octets 4 (print_octets a b c d) = Some ([unat a, unat b, unat c, unat d], [])"
    by (simp only: eval_nat_numeral BitM.simps)
  then have "read_ipv4 (print_octets a b c d) = Some ([a, b, c, d], [])"
    by (simp add: read_ipv4_def)
  then show ?thesis by (simp add: ip_from_str_def)
qed

end
