(* ===== verification/Mdns.thy ===== *)
theory Mdns
  imports Netif Wire
begin

text \<open>
  LAN discovery, \<open>usbfwd-common/src/mdns.rs\<close>: the DNS wire format, the responder that answers
  for one service instance and the browser that collects answers. Sockets are parameters: what
  the responder sends is a value, and what the browser receives within its time is a list.
\<close>

definition SERVICE :: string where "SERVICE = ''_usbip._tcp.local''"
definition MDNS_PORT :: u16 where "MDNS_PORT = 5353"
definition MDNS_GROUP :: u32 where "MDNS_GROUP = ipv4 224 0 0 251"

definition TYPE_A :: u16 where "TYPE_A = 1"
definition TYPE_PTR :: u16 where "TYPE_PTR = 12"
definition TYPE_TXT :: u16 where "TYPE_TXT = 16"
definition TYPE_SRV :: u16 where "TYPE_SRV = 33"
definition TYPE_ANY :: u16 where "TYPE_ANY = 255"
definition CLASS_IN :: u16 where "CLASS_IN = 1"
definition FLAG_UNICAST_OR_FLUSH :: u16 where "FLAG_UNICAST_OR_FLUSH = 0x8000"
definition TTL_HOST :: u32 where "TTL_HOST = 120"
definition TTL_PTR :: u32 where "TTL_PTR = 4500"
definition MAX_PACKET :: nat where "MAX_PACKET = 9000"

section \<open>Wire format\<close>

text \<open>
  \<open>String::from_utf8_lossy\<close>: each maximal piece that is the start of no character becomes the
  replacement character. \<open>broken\<close> is the length of such a piece at the front.
\<close>

definition replacement :: string where
  "replacement = [CHR 0xEF, CHR 0xBF, CHR 0xBD]"

fun broken :: "u8 list \<Rightarrow> nat" where
  "broken [] = 1"
| "broken (a # bs) =
     (case bs of
        [] \<Rightarrow> 1
      | b # cs \<Rightarrow>
          if utf8_width a < 2 \<or> \<not> utf8_second a b then 1
          else case cs of c # _ \<Rightarrow> if 3 < utf8_width a \<and> cont c then 3 else 2 | [] \<Rightarrow> 2)"

function from_utf8_lossy :: "u8 list \<Rightarrow> string" where
  "from_utf8_lossy [] = []"
| "from_utf8_lossy (a # bs) =
     (case utf8_char (a # bs) of
        Some n \<Rightarrow> text_of (take n (a # bs)) @ from_utf8_lossy (drop (n - 1) bs)
      | None \<Rightarrow> replacement @ from_utf8_lossy (drop (broken (a # bs) - 1) bs))"
  by pat_completeness auto
termination
  by (relation "measure length") auto

declare from_utf8_lossy.simps [simp del]

definition encode_label :: "string \<Rightarrow> u8 list" where
  "encode_label l = (let n = min (length l) 63 in of_nat n # take n (as_bytes l))"

definition encode_name :: "string \<Rightarrow> u8 list" where
  "encode_name name = concat (map encode_label (filter (\<lambda>l. l \<noteq> []) (split_on (\<lambda>c. c = CHR ''.'') name))) @ [0]"

definition get_at :: "'a list \<Rightarrow> nat \<Rightarrow> 'a option" where
  "get_at xs i = (if i < length xs then Some (xs ! i) else None)"

definition get_slice :: "'a list \<Rightarrow> nat \<Rightarrow> nat \<Rightarrow> 'a list option" where
  "get_slice xs i n = (if i + n \<le> length xs then Some (take n (drop i xs)) else None)"

text \<open>
  \<open>fin\<close> is where the name ends in the message, known once a pointer was followed. A pointer
  may point anywhere, but no more than sixteen of them are followed.
\<close>

function read_name_loop :: "u8 list \<Rightarrow> nat \<Rightarrow> nat option \<Rightarrow> nat \<Rightarrow> string \<Rightarrow> (string \<times> nat) option" where
  "read_name_loop buf p fin hops out =
     (case get_at buf p of
        None \<Rightarrow> None
      | Some len \<Rightarrow>
          if len AND 0xc0 = 0xc0 then
            (case get_at buf (p + 1) of
               None \<Rightarrow> None
             | Some lo \<Rightarrow>
                 if 16 < hops + 1 then None
                 else read_name_loop buf (256 * unat (len AND 0x3f) + unat lo)
                   (Some (case fin of None \<Rightarrow> p + 2 | Some f \<Rightarrow> f)) (hops + 1) out)
          else if len = 0 then Some (out, case fin of None \<Rightarrow> p + 1 | Some f \<Rightarrow> f)
          else
            (case get_slice buf (p + 1) (unat len) of
               None \<Rightarrow> None
             | Some label \<Rightarrow>
                 read_name_loop buf (p + 1 + unat len) fin hops
                   (out @ (if out = [] then [] else ''.'') @ from_utf8_lossy label)))"
  by pat_completeness auto
termination
  by (relation "measures [\<lambda>(buf, p, fin, hops, out). 17 - hops, \<lambda>(buf, p, fin, hops, out). length buf - p]")
    (auto simp: get_at_def get_slice_def split: if_splits)

declare read_name_loop.simps [simp del]

definition read_name :: "u8 list \<Rightarrow> nat \<Rightarrow> (string \<times> nat) option" where
  "read_name buf pos = read_name_loop buf pos None 0 []"

record message =
  ms_buf :: "u8 list"
  ms_questions :: u16
  ms_answers :: u16
  ms_additional :: u16

definition message_new :: "u16 \<Rightarrow> u16 \<Rightarrow> message" where
  "message_new ident flags =
     \<lparr>ms_buf = be16 ident @ be16 flags @ replicate 8 0, ms_questions = 0, ms_answers = 0, ms_additional = 0\<rparr>"

definition message_question :: "string \<Rightarrow> u16 \<Rightarrow> u16 \<Rightarrow> message \<Rightarrow> message" where
  "message_question name qtype qclass m =
     m\<lparr>ms_buf := ms_buf m @ encode_name name @ be16 qtype @ be16 qclass, ms_questions := ms_questions m + 1\<rparr>"

definition record_bytes :: "string \<Rightarrow> u16 \<Rightarrow> u16 \<Rightarrow> u32 \<Rightarrow> u8 list \<Rightarrow> u8 list" where
  "record_bytes name rtype class ttl rdata =
     encode_name name @ be16 rtype @ be16 class @ be32 ttl @ be16 (of_nat (length rdata)) @ rdata"

definition message_record :: "string \<Rightarrow> u16 \<Rightarrow> u16 \<Rightarrow> u32 \<Rightarrow> u8 list \<Rightarrow> bool \<Rightarrow> message \<Rightarrow> message" where
  "message_record name rtype class ttl rdata extra m =
     (let m' = m\<lparr>ms_buf := ms_buf m @ record_bytes name rtype class ttl rdata\<rparr> in
      if extra then m'\<lparr>ms_additional := ms_additional m' + 1\<rparr> else m'\<lparr>ms_answers := ms_answers m' + 1\<rparr>)"

definition message_finish :: "message \<Rightarrow> u8 list" where
  "message_finish m = take 4 (ms_buf m) @ be16 (ms_questions m) @ be16 (ms_answers m)
     @ take 2 (drop 8 (ms_buf m)) @ be16 (ms_additional m) @ drop 12 (ms_buf m)"

definition ptr_rdata :: "string \<Rightarrow> u8 list" where
  "ptr_rdata name = encode_name name"

definition srv_rdata :: "u16 \<Rightarrow> string \<Rightarrow> u8 list" where
  "srv_rdata port target = be16 0 @ be16 0 @ be16 port @ encode_name target"

definition txt_entry :: "string \<Rightarrow> u8 list" where
  "txt_entry e = (let n = min (length e) 255 in of_nat n # take n (as_bytes e))"

definition txt_rdata :: "string list \<Rightarrow> u8 list" where
  "txt_rdata entries = (if entries = [] then [0] else concat (map txt_entry entries))"

function parse_txt :: "u8 list \<Rightarrow> string list" where
  "parse_txt [] = []"
| "parse_txt (n # r) =
     (if n = 0 \<or> length r < unat n then []
      else from_utf8_lossy (take (unat n) r) # parse_txt (drop (unat n) r))"
  by pat_completeness auto
termination
  by (relation "measure length") auto

declare parse_txt.simps [simp del]

section \<open>Responder\<close>

record responder =
  rs_instance_fqdn :: string
  rs_host_fqdn :: string
  rs_port :: u16
  rs_addrs :: "u32 list"
  rs_txt :: "string list"

definition responder_new :: "string \<Rightarrow> string \<Rightarrow> u16 \<Rightarrow> u32 list \<Rightarrow> string list \<Rightarrow> responder" where
  "responder_new inst host port addrs txts =
     \<lparr>rs_instance_fqdn = inst @ ''.'' @ SERVICE, rs_host_fqdn = host @ ''.local'', rs_port = port,
      rs_addrs = addrs, rs_txt = txts\<rparr>"

definition answer_msg :: "responder \<Rightarrow> bool \<Rightarrow> u32 option \<Rightarrow> u8 list" where
  "answer_msg r include_ptr ttl_override =
     (let ttl_host = (case ttl_override of None \<Rightarrow> TTL_HOST | Some t \<Rightarrow> t);
          ttl_ptr = (case ttl_override of None \<Rightarrow> TTL_PTR | Some t \<Rightarrow> t);
          flush = CLASS_IN OR FLAG_UNICAST_OR_FLUSH;
          m0 = message_new 0 0x8400;
          m1 = (if include_ptr then message_record SERVICE TYPE_PTR CLASS_IN ttl_ptr (ptr_rdata (rs_instance_fqdn r)) False m0 else m0);
          m2 = message_record (rs_instance_fqdn r) TYPE_SRV flush ttl_host (srv_rdata (rs_port r) (rs_host_fqdn r)) False m1;
          m3 = message_record (rs_instance_fqdn r) TYPE_TXT flush ttl_host (txt_rdata (rs_txt r)) False m2;
          m4 = fold (\<lambda>a. message_record (rs_host_fqdn r) TYPE_A flush ttl_host (be32 a) True) (rs_addrs r) m3
      in message_finish m4)"

definition be16_at :: "u8 list \<Rightarrow> nat \<Rightarrow> u16 option" where
  "be16_at buf i = (case (get_at buf i, get_at buf (i + 1)) of
     (Some a, Some b) \<Rightarrow> Some (of_be16 a b) | _ \<Rightarrow> None)"

fun match_loop :: "responder \<Rightarrow> u8 list \<Rightarrow> nat \<Rightarrow> nat \<Rightarrow> bool \<times> bool \<times> bool \<Rightarrow> (bool \<times> bool \<times> bool) option" where
  "match_loop r buf 0 pos (p, svc, unicast) = Some (p, svc, unicast)"
| "match_loop r buf (Suc k) pos (p, svc, unicast) =
     (case read_name buf pos of
        None \<Rightarrow> None
      | Some (name0, pos') \<Rightarrow>
          (case (be16_at buf pos', be16_at buf (pos' + 2)) of
             (Some qtype, Some qclass) \<Rightarrow>
               let unicast' = (unicast \<or> qclass AND FLAG_UNICAST_OR_FLUSH \<noteq> 0);
                   name = to_ascii_lowercase name0
               in if name = SERVICE \<and> (qtype = TYPE_PTR \<or> qtype = TYPE_ANY)
                  then match_loop r buf k (pos' + 4) (True, svc, unicast')
                  else if name = to_ascii_lowercase (rs_instance_fqdn r) \<and> qtype \<in> {TYPE_SRV, TYPE_TXT, TYPE_ANY}
                       \<or> name = to_ascii_lowercase (rs_host_fqdn r) \<and> qtype \<in> {TYPE_A, TYPE_ANY}
                  then match_loop r buf k (pos' + 4) (p, True, unicast')
                  else match_loop r buf k (pos' + 4) (p, svc, unicast')
           | _ \<Rightarrow> None))"

definition match_questions :: "responder \<Rightarrow> u8 list \<Rightarrow> (bool \<times> bool \<times> bool) option" where
  "match_questions r buf =
     (if length buf < 12 then None
      else if of_be16 (buf ! 2) (buf ! 3) AND 0x8000 \<noteq> 0 then None
      else match_loop r buf (unat (of_be16 (buf ! 4) (buf ! 5))) 12 (False, False, False))"

datatype destination = Asker | Group

text \<open>What a received packet makes the responder send, and where.\<close>

definition poll_reply :: "responder \<Rightarrow> u8 list \<Rightarrow> (u8 list \<times> destination) option" where
  "poll_reply r buf =
     (case match_questions r buf of
        None \<Rightarrow> None
      | Some (wants_ptr, wants_service, unicast) \<Rightarrow>
          if \<not> wants_ptr \<and> \<not> wants_service then None
          else Some (answer_msg r wants_ptr None, if unicast then Asker else Group))"

section \<open>Browser\<close>

record discovered =
  dv_instance :: string
  dv_host :: string
  dv_port :: u16
  dv_addrs :: "ip_addr list"
  dv_txt :: "string list"

definition show_ipv4 :: "u32 \<Rightarrow> string" where
  "show_ipv4 a = (case be32 a of [w, x, y, z] \<Rightarrow>
     show_nat (unat w) @ ''.'' @ show_nat (unat x) @ ''.'' @ show_nat (unat y) @ ''.'' @ show_nat (unat z) | _ \<Rightarrow> [])"

text \<open>The browser only ever records IPv4 addresses.\<close>

definition dv_endpoint :: "discovered \<Rightarrow> string" where
  "dv_endpoint d = (case dv_addrs d of V4 a # _ \<Rightarrow> show_ipv4 a | _ \<Rightarrow> dv_host d)"

record browse_state =
  bs_instances :: "string list"
  bs_srv :: "(string \<times> u16 \<times> string) list"
  bs_txts :: "(string \<times> string list) list"
  bs_addrs :: "(string \<times> ip_addr) list"

definition browse_new :: browse_state where
  "browse_new = \<lparr>bs_instances = [], bs_srv = [], bs_txts = [], bs_addrs = []\<rparr>"

definition eq_ignore_case :: "string \<Rightarrow> string \<Rightarrow> bool" where
  "eq_ignore_case a b \<longleftrightarrow> to_ascii_lowercase a = to_ascii_lowercase b"

definition collect_record :: "u8 list \<Rightarrow> string \<Rightarrow> u16 \<Rightarrow> nat \<Rightarrow> u8 list \<Rightarrow> browse_state \<Rightarrow> browse_state" where
  "collect_record buf name rtype pos rdata b =
     (if rtype = TYPE_PTR \<and> eq_ignore_case name SERVICE then
        (case read_name buf pos of
           Some (target, _) \<Rightarrow>
             if list_ex (\<lambda>i. eq_ignore_case i target) (bs_instances b) then b
             else b\<lparr>bs_instances := bs_instances b @ [target]\<rparr>
         | None \<Rightarrow> b)
      else if rtype = TYPE_SRV \<and> 7 \<le> length rdata then
        (case read_name buf (pos + 6) of
           Some (target, _) \<Rightarrow> b\<lparr>bs_srv := bs_srv b @ [(name, of_be16 (rdata ! 4) (rdata ! 5), target)]\<rparr>
         | None \<Rightarrow> b)
      else if rtype = TYPE_TXT then b\<lparr>bs_txts := bs_txts b @ [(name, parse_txt rdata)]\<rparr>
      else if rtype = TYPE_A \<and> length rdata = 4 then
        b\<lparr>bs_addrs := bs_addrs b @ [(name, V4 (of_be32 (rdata ! 0) (rdata ! 1) (rdata ! 2) (rdata ! 3)))]\<rparr>
      else b)"

fun skip_questions :: "u8 list \<Rightarrow> nat \<Rightarrow> nat \<Rightarrow> nat option" where
  "skip_questions buf 0 pos = Some pos"
| "skip_questions buf (Suc k) pos =
     (case read_name buf pos of None \<Rightarrow> None | Some (_, pos') \<Rightarrow> skip_questions buf k (pos' + 4))"

text \<open>A record that cannot be read ends the packet; what was collected before it stays.\<close>

fun collect_records :: "u8 list \<Rightarrow> nat \<Rightarrow> nat \<Rightarrow> browse_state \<Rightarrow> browse_state" where
  "collect_records buf 0 pos b = b"
| "collect_records buf (Suc k) pos b =
     (case read_name buf pos of
        None \<Rightarrow> b
      | Some (name, p) \<Rightarrow>
          (case (be16_at buf p, be16_at buf (p + 8)) of
             (Some rtype, Some rdlen) \<Rightarrow>
               (case get_slice buf (p + 10) (unat rdlen) of
                  None \<Rightarrow> b
                | Some rdata \<Rightarrow>
                    collect_records buf k (p + 10 + unat rdlen) (collect_record buf name rtype (p + 10) rdata b))
           | _ \<Rightarrow> b))"

definition collect :: "u8 list \<Rightarrow> browse_state \<Rightarrow> browse_state" where
  "collect buf b =
     (if length buf < 12 then b
      else let count = (\<lambda>i. unat (of_be16 (buf ! i) (buf ! (i + 1))))
           in case skip_questions buf (count 4) 12 of
                None \<Rightarrow> b
              | Some pos \<Rightarrow> collect_records buf (count 6 + count 8 + count 10) pos b)"

datatype recv = Received "u8 list" | RecvRetry | RecvFailed io_error

fun browse_recv :: "recv list \<Rightarrow> browse_state \<Rightarrow> io_error + browse_state" where
  "browse_recv [] b = Inr b"
| "browse_recv (Received bs # rs) b = browse_recv rs (collect (take MAX_PACKET bs) b)"
| "browse_recv (RecvRetry # rs) b = browse_recv rs b"
| "browse_recv (RecvFailed e # rs) b = Inl e"

lemma strip_suffix_str_shorter: "strip_suffix_str p s = Some t \<Longrightarrow> s = t @ p"
  by (auto simp: strip_suffix_str_def strip_prefix_str_def split: if_splits)
    (metis append_take_drop_id rev_append rev_rev_ident)

function trim_end_matches :: "string \<Rightarrow> string \<Rightarrow> string" where
  "trim_end_matches p s = (case strip_suffix_str p s of
     Some t \<Rightarrow> if p = [] then s else trim_end_matches p t | None \<Rightarrow> s)"
  by pat_completeness auto
termination
  by (relation "measure (\<lambda>(p, s). length s)") (auto dest: strip_suffix_str_shorter)

declare trim_end_matches.simps [simp del]

fun resolve_instances :: "browse_state \<Rightarrow> string list \<Rightarrow> discovered list" where
  "resolve_instances b [] = []"
| "resolve_instances b (inst # is) =
     (case find (\<lambda>e. fst e = inst) (bs_srv b) of
        None \<Rightarrow> resolve_instances b is
      | Some (_, port, target) \<Rightarrow>
          \<lparr>dv_instance = trim_end_matches (''.'' @ SERVICE) inst, dv_host = target, dv_port = port,
           dv_addrs = map snd (filter (\<lambda>e. eq_ignore_case (fst e) target) (bs_addrs b)),
           dv_txt = (case find (\<lambda>e. fst e = inst) (bs_txts b) of None \<Rightarrow> [] | Some (_, t) \<Rightarrow> t)\<rparr>
          # resolve_instances b is)"

text \<open>\<open>dedup_by\<close>: of neighbours with the same key the first stays.\<close>

fun dedup_by :: "('a \<Rightarrow> 'b) \<Rightarrow> 'a list \<Rightarrow> 'a list" where
  "dedup_by f (x # y # xs) = (if f x = f y then dedup_by f (x # xs) else x # dedup_by f (y # xs))"
| "dedup_by f xs = xs"

definition browse_query :: "u8 list" where
  "browse_query = message_finish (message_question SERVICE TYPE_PTR (CLASS_IN OR FLAG_UNICAST_OR_FLUSH) (message_new 0 0))"

definition browse :: "recv list \<Rightarrow> io_error + discovered list" where
  "browse packets = rbind (browse_recv packets browse_new) (\<lambda>b.
     Inr (dedup_by dv_instance (resolve_instances b (bs_instances b))))"

section \<open>Names\<close>

lemma utf8_char_range: "utf8_char (a # bs) = Some n \<Longrightarrow> 1 \<le> n \<and> n \<le> Suc (length bs)"
  by (auto simp: Let_def utf8_width_def Suc_le_eq split: if_splits)

lemma lossy_valid: "utf8_valid bs \<Longrightarrow> from_utf8_lossy bs = text_of bs"
proof (induction bs rule: utf8_valid.induct)
  case (2 a bs)
  then obtain n where n: "utf8_char (a # bs) = Some n" by (auto split: option.splits)
  with 2 have "from_utf8_lossy (drop (n - 1) bs) = text_of (drop (n - 1) bs)" by (simp del: utf8_char.simps)
  moreover have "take n (a # bs) @ drop (n - 1) bs = a # bs"
    using utf8_char_range [OF n] by (cases n) simp_all
  ultimately show ?case
    using n by (simp add: from_utf8_lossy.simps text_of_def del: utf8_char.simps flip: map_append)
qed (simp add: from_utf8_lossy.simps text_of_def)

definition label_ok :: "string \<Rightarrow> bool" where
  "label_ok l \<longleftrightarrow> l \<noteq> [] \<and> length l \<le> 63 \<and> utf8_valid (as_bytes l)"

definition name_ok :: "string \<Rightarrow> bool" where
  "name_ok name \<longleftrightarrow> list_all label_ok (split_on (\<lambda>c. c = CHR ''.'') name)"

lemma label_byte:
  assumes "0 < n" "n \<le> 63"
  shows "(of_nat n :: u8) AND 0xc0 \<noteq> 0xc0" "(of_nat n :: u8) \<noteq> 0" "unat (of_nat n :: u8) = n"
proof -
  show u: "unat (of_nat n :: u8) = n" using assms by (simp add: unat_of_nat)
  show "(of_nat n :: u8) \<noteq> 0" using u assms by auto
  have "bit (of_nat n :: u8) 7 \<longleftrightarrow> bit (unat (of_nat n :: u8)) 7" by (simp add: bit_unsigned_iff)
  then have "\<not> bit (of_nat n :: u8) 7" using assms by (simp only: u) (simp add: bit_iff_odd)
  then have "\<not> bit ((of_nat n :: u8) AND 0xc0) 7" by (simp add: bit_and_iff)
  moreover have "bit (0xc0 :: u8) 7" by simp
  ultimately show "(of_nat n :: u8) AND 0xc0 \<noteq> 0xc0" by metis
qed

lemma nth_mid: "(pre @ x # post) ! length pre = x"
  by simp

fun join_out :: "string \<Rightarrow> string list \<Rightarrow> string" where
  "join_out out [] = out"
| "join_out out (l # ls) = join_out (out @ (if out = [] then [] else ''.'') @ l) ls"

lemma read_labels:
  "list_all label_ok ls \<Longrightarrow>
     read_name_loop (pre @ concat (map encode_label ls) @ 0 # post) (length pre) None hops out =
       Some (join_out out ls, length pre + length (concat (map encode_label ls)) + 1)"
proof (induction ls arbitrary: pre out)
  case Nil
  show ?case by (subst read_name_loop.simps) (simp add: get_at_def)
next
  case (Cons l ls)
  let ?buf = "pre @ concat (map encode_label (l # ls)) @ 0 # post"
  have l: "0 < length l" "length l \<le> 63" "utf8_valid (as_bytes l)" using Cons.prems by (simp_all add: label_ok_def)
  have enc: "encode_label l = of_nat (length l) # as_bytes l"
    using l by (simp add: encode_label_def Let_def min_absorb1)
  have buf: "?buf = (pre @ of_nat (length l) # as_bytes l) @ concat (map encode_label ls) @ 0 # post"
    by (simp add: enc)
  have at: "get_at ?buf (length pre) = Some (of_nat (length l))"
    by (simp add: get_at_def enc)
  have slice: "get_slice ?buf (length pre + 1) (length l) = Some (as_bytes l)"
    by (simp add: get_slice_def enc)
  have "read_name_loop ?buf (length pre) None hops out =
      read_name_loop ?buf (length pre + 1 + length l) None hops (out @ (if out = [] then [] else ''.'') @ l)"
    by (subst read_name_loop.simps) (simp only: at slice option.case label_byte [OF l(1,2)] if_False lossy_valid [OF l(3)] text_of_as_bytes)
  also have "\<dots> = Some (join_out (out @ (if out = [] then [] else ''.'') @ l) ls,
      length (pre @ of_nat (length l) # as_bytes l) + length (concat (map encode_label ls)) + 1)"
    using Cons.IH [of "pre @ of_nat (length l) # as_bytes l"] Cons.prems unfolding buf by simp
  finally show ?case by (simp add: enc)
qed

lemma join_out_ne: "out \<noteq> [] \<Longrightarrow> join_out out ls = out @ concat (map (\<lambda>l. ''.'' @ l) ls)"
  by (induction ls arbitrary: out) simp_all

lemma split_on_cons: "\<exists>x xs. split_on p s = x # xs"
  by (induction s) (auto split: list.splits)

lemma split_on_concat: "split_on (\<lambda>c. c = CHR ''.'') s = x # xs \<Longrightarrow> x @ concat (map (\<lambda>l. ''.'' @ l) xs) = s"
proof (induction s arbitrary: x xs)
  case (Cons c s)
  obtain y ys where y: "split_on (\<lambda>c. c = CHR ''.'') s = y # ys" using split_on_cons by blast
  have "x = [] \<and> xs = y # ys \<and> c = CHR ''.'' \<or> x = c # y \<and> xs = ys"
    using Cons.prems y by (cases "c = CHR ''.''") simp_all
  then show ?case using Cons.IH [OF y] by (elim disjE conjE) simp_all
qed simp

lemma join_out_split:
  assumes "name_ok name"
  shows "join_out [] (split_on (\<lambda>c. c = CHR ''.'') name) = name"
proof -
  obtain x xs where x: "split_on (\<lambda>c. c = CHR ''.'') name = x # xs" using split_on_cons by blast
  then have "x \<noteq> []" using assms by (simp add: name_ok_def label_ok_def)
  then show ?thesis using split_on_concat [OF x] x by (simp add: join_out_ne)
qed

lemma encode_name_ok: "name_ok name \<Longrightarrow> encode_name name = concat (map encode_label (split_on (\<lambda>c. c = CHR ''.'') name)) @ [0]"
proof -
  assume "name_ok name"
  then have "filter (\<lambda>l. l \<noteq> []) (split_on (\<lambda>c. c = CHR ''.'') name) = split_on (\<lambda>c. c = CHR ''.'') name"
    by (auto simp: name_ok_def label_ok_def list_all_iff intro!: filter_True)
  then show ?thesis by (simp add: encode_name_def)
qed

lemma read_name_encode:
  assumes "name_ok name"
  shows "read_name (pre @ encode_name name @ post) (length pre) = Some (name, length pre + length (encode_name name))"
  using read_labels [of "split_on (\<lambda>c. c = CHR ''.'') name" pre post 0 "[]"] assms
  by (simp add: read_name_def encode_name_ok join_out_split name_ok_def [symmetric])

section \<open>What the browser makes of an announcement\<close>

lemma length_name: "name_ok name \<Longrightarrow> encode_name name \<noteq> []"
  by (simp add: encode_name_def)

lemma be16_at_mid: "be16_at (pre @ be16 v @ post) (length pre) = Some v"
proof -
  have "be16 v = [ucast (drop_bit 8 v), ucast v]" by (simp add: be16_def)
  then show ?thesis by (simp add: be16_at_def get_at_def nth_append)
qed

text \<open>One record of a message, after \<open>pre\<close> and before \<open>post\<close>.\<close>

lemma collect_records_step:
  assumes "name_ok name" "length rdata < 65536"
  shows "collect_records (pre @ record_bytes name ty cl ttl rdata @ post) (Suc k) (length pre) b =
    collect_records (pre @ record_bytes name ty cl ttl rdata @ post) k (length (pre @ record_bytes name ty cl ttl rdata))
      (collect_record (pre @ record_bytes name ty cl ttl rdata @ post) name ty (length (pre @ encode_name name) + 10) rdata b)"
proof -
  let ?buf = "pre @ record_bytes name ty cl ttl rdata @ post"
  let ?n = "pre @ encode_name name" and ?len = "of_nat (length rdata) :: u16"
  let ?r = "be16 ty @ be16 cl @ be32 ttl @ be16 ?len @ rdata @ post"
  have buf: "?buf = ?n @ ?r" by (simp add: record_bytes_def)
  have name: "read_name ?buf (length pre) = Some (name, length ?n)"
    using read_name_encode [OF assms(1), of pre ?r] by (simp add: record_bytes_def)
  have ty: "be16_at ?buf (length ?n) = Some ty"
    unfolding buf by (rule be16_at_mid)
  have len: "be16_at ?buf (length ?n + 8) = Some ?len"
    using be16_at_mid [of "?n @ be16 ty @ be16 cl @ be32 ttl" ?len "rdata @ post"] by (simp add: buf add.assoc)
  have u: "unat ?len = length rdata" using assms(2) by (simp add: unat_of_nat)
  have slice: "get_slice ?buf (length ?n + 10) (length rdata) = Some rdata"
    unfolding buf by (simp add: get_slice_def)
  have end_pos: "length ?n + 10 + length rdata = length (pre @ record_bytes name ty cl ttl rdata)"
    by (simp add: record_bytes_def)
  show ?thesis
    by (simp only: collect_records.simps name ty len u slice option.case prod.case end_pos)
qed

lemma collect_record_ptr:
  assumes "name_ok target" "bs_instances b = []"
  shows "collect_record (pre @ record_bytes SERVICE TYPE_PTR cl ttl (ptr_rdata target) @ post) SERVICE TYPE_PTR
      (length (pre @ encode_name SERVICE) + 10) (ptr_rdata target) b = b\<lparr>bs_instances := [target]\<rparr>"
proof -
  let ?h = "pre @ encode_name SERVICE @ be16 TYPE_PTR @ be16 cl @ be32 ttl @ be16 (of_nat (length (ptr_rdata target)))"
  have "read_name (pre @ record_bytes SERVICE TYPE_PTR cl ttl (ptr_rdata target) @ post) (length (pre @ encode_name SERVICE) + 10)
      = Some (target, length ?h + length (encode_name target))"
    using read_name_encode [OF assms(1), of ?h post] by (simp add: record_bytes_def ptr_rdata_def add.assoc)
  then show ?thesis using assms(2) by (simp add: collect_record_def eq_ignore_case_def)
qed

lemma collect_record_srv:
  assumes "name_ok target"
  shows "collect_record (pre @ record_bytes name TYPE_SRV cl ttl (srv_rdata port target) @ post) name TYPE_SRV
      (length (pre @ encode_name name) + 10) (srv_rdata port target) b = b\<lparr>bs_srv := bs_srv b @ [(name, port, target)]\<rparr>"
proof -
  let ?h = "pre @ encode_name name @ be16 TYPE_SRV @ be16 cl @ be32 ttl @ be16 (of_nat (length (srv_rdata port target))) @ be16 0 @ be16 0 @ be16 port"
  have "read_name (pre @ record_bytes name TYPE_SRV cl ttl (srv_rdata port target) @ post) (length (pre @ encode_name name) + 10 + 6)
      = Some (target, length ?h + length (encode_name target))"
    using read_name_encode [OF assms, of ?h post] by (simp add: record_bytes_def srv_rdata_def ac_simps)
  moreover have "7 \<le> length (srv_rdata port target)"
    using length_name [OF assms] by (cases "encode_name target") (simp_all add: srv_rdata_def)
  moreover have "of_be16 (srv_rdata port target ! 4) (srv_rdata port target ! 5) = port"
    by (simp add: srv_rdata_def be16_def)
  ultimately show ?thesis by (simp add: collect_record_def TYPE_SRV_def TYPE_PTR_def)
qed

lemma collect_record_a:
  "collect_record buf name TYPE_A pos (be32 a) b = b\<lparr>bs_addrs := bs_addrs b @ [(name, V4 a)]\<rparr>"
proof -
  have "of_be32 (be32 a ! 0) (be32 a ! 1) (be32 a ! 2) (be32 a ! 3) = a" by (simp add: be32_def)
  then show ?thesis by (simp add: collect_record_def TYPE_A_def TYPE_SRV_def TYPE_PTR_def TYPE_TXT_def)
qed

definition txt_ok :: "string \<Rightarrow> bool" where
  "txt_ok e \<longleftrightarrow> e \<noteq> [] \<and> length e \<le> 255 \<and> utf8_valid (as_bytes e)"

lemma parse_txt_entries: "list_all txt_ok es \<Longrightarrow> parse_txt (concat (map txt_entry es)) = es"
proof (induction es)
  case (Cons e es)
  have e: "0 < length e" "length e \<le> 255" "utf8_valid (as_bytes e)" using Cons.prems by (simp_all add: txt_ok_def)
  then have "unat (of_nat (length e) :: u8) = length e" by (simp add: unat_of_nat)
  moreover from this have "(of_nat (length e) :: u8) \<noteq> 0" using e(1) by (metis less_irrefl unat_0)
  moreover have "txt_entry e = of_nat (length e) # as_bytes e"
    using e by (simp add: txt_entry_def Let_def min_absorb1)
  ultimately show ?case
    using Cons lossy_valid [OF e(3)] by (simp add: parse_txt.simps)
qed (simp add: parse_txt.simps)

lemma parse_txt_rdata: "list_all txt_ok es \<Longrightarrow> parse_txt (txt_rdata es) = es"
  using parse_txt_entries [of es] by (simp add: txt_rdata_def parse_txt.simps)

lemma collect_record_txt:
  "list_all txt_ok es \<Longrightarrow> collect_record buf name TYPE_TXT pos (txt_rdata es) b = b\<lparr>bs_txts := bs_txts b @ [(name, es)]\<rparr>"
  by (simp add: collect_record_def parse_txt_rdata TYPE_TXT_def TYPE_SRV_def TYPE_PTR_def)

lemma collect_records_a:
  assumes "name_ok host"
  shows "collect_records (pre @ concat (map (\<lambda>a. record_bytes host TYPE_A cl ttl (be32 a)) as)) (length as) (length pre) b =
    b\<lparr>bs_addrs := bs_addrs b @ map (\<lambda>a. (host, V4 a)) as\<rparr>"
proof (induction as arbitrary: pre b)
  case (Cons a as)
  let ?r = "record_bytes host TYPE_A cl ttl (be32 a)" and ?rest = "concat (map (\<lambda>a. record_bytes host TYPE_A cl ttl (be32 a)) as)"
  have "collect_records (pre @ ?r @ ?rest) (Suc (length as)) (length pre) b =
      collect_records ((pre @ ?r) @ ?rest) (length as) (length (pre @ ?r)) (b\<lparr>bs_addrs := bs_addrs b @ [(host, V4 a)]\<rparr>)"
    using collect_records_step [OF assms, of "be32 a" pre TYPE_A cl ttl ?rest "length as" b]
    by (simp add: collect_record_a)
  also have "\<dots> = b\<lparr>bs_addrs := bs_addrs b @ map (\<lambda>a. (host, V4 a)) (a # as)\<rparr>"
    by (simp only: Cons.IH) simp
  finally show ?case by simp
qed simp

lemma fold_record_a:
  "fold (\<lambda>a. message_record host TYPE_A cl ttl (be32 a) True) as m =
     m\<lparr>ms_buf := ms_buf m @ concat (map (\<lambda>a. record_bytes host TYPE_A cl ttl (be32 a)) as),
       ms_additional := ms_additional m + of_nat (length as)\<rparr>"
  by (induction as arbitrary: m) (simp_all add: message_record_def)

lemma length_records: "length as \<le> length (concat (map (\<lambda>a. record_bytes host ty cl ttl (f a)) as))"
  by (induction as) (simp_all add: record_bytes_def)

text \<open>The announcement, written out: the header, three records and one more for each address.\<close>

definition flush_class :: u16 where "flush_class = CLASS_IN OR FLAG_UNICAST_OR_FLUSH"

definition answer_header :: "nat \<Rightarrow> u8 list" where
  "answer_header n = be16 0 @ be16 0x8400 @ be16 0 @ be16 3 @ be16 0 @ be16 (of_nat n)"

lemma answer_msg_bytes:
  "answer_msg r True None = answer_header (length (rs_addrs r))
     @ record_bytes SERVICE TYPE_PTR CLASS_IN TTL_PTR (ptr_rdata (rs_instance_fqdn r))
     @ record_bytes (rs_instance_fqdn r) TYPE_SRV flush_class TTL_HOST (srv_rdata (rs_port r) (rs_host_fqdn r))
     @ record_bytes (rs_instance_fqdn r) TYPE_TXT flush_class TTL_HOST (txt_rdata (rs_txt r))
     @ concat (map (\<lambda>a. record_bytes (rs_host_fqdn r) TYPE_A flush_class TTL_HOST (be32 a)) (rs_addrs r))"
proof -
  have "take 4 (be16 a @ be16 b @ replicate 8 0 @ z) = be16 a @ be16 b"
    "take 2 (drop 8 (be16 a @ be16 b @ replicate 8 0 @ z)) = be16 0"
    "drop 12 (be16 a @ be16 b @ replicate 8 0 @ z) = z" for a b z
    by (simp_all add: be16_def numeral_eq_Suc)
  then show ?thesis
    by (simp add: answer_msg_def Let_def fold_record_a message_finish_def message_record_def message_new_def
        answer_header_def flush_class_def)
qed

lemma collect_records_answer:
  assumes ok: "name_ok (rs_instance_fqdn r)" "name_ok (rs_host_fqdn r)" "list_all txt_ok (rs_txt r)"
    and len: "length (answer_msg r True None) \<le> MAX_PACKET"
  shows "collect_records (answer_msg r True None) (Suc (Suc (Suc (length (rs_addrs r))))) (length (answer_header (length (rs_addrs r)))) browse_new =
    \<lparr>bs_instances = [rs_instance_fqdn r], bs_srv = [(rs_instance_fqdn r, rs_port r, rs_host_fqdn r)],
     bs_txts = [(rs_instance_fqdn r, rs_txt r)], bs_addrs = map (\<lambda>a. (rs_host_fqdn r, V4 a)) (rs_addrs r)\<rparr>"
proof -
  let ?i = "rs_instance_fqdn r" and ?h = "rs_host_fqdn r" and ?n = "length (rs_addrs r)"
  let ?p = "ptr_rdata ?i" and ?s = "srv_rdata (rs_port r) ?h" and ?t = "txt_rdata (rs_txt r)"
  let ?H = "answer_header ?n" and ?P = "record_bytes SERVICE TYPE_PTR CLASS_IN TTL_PTR ?p"
  let ?S = "record_bytes ?i TYPE_SRV flush_class TTL_HOST ?s" and ?T = "record_bytes ?i TYPE_TXT flush_class TTL_HOST ?t"
  let ?A = "concat (map (\<lambda>a. record_bytes ?h TYPE_A flush_class TTL_HOST (be32 a)) (rs_addrs r))"
  let ?buf = "?H @ ?P @ ?S @ ?T @ ?A"
  have lens: "length ?p < 65536" "length ?s < 65536" "length ?t < 65536"
    using len by (simp_all add: answer_msg_bytes MAX_PACKET_def record_bytes_def)
  have svc: "name_ok SERVICE" by (simp add: SERVICE_def) code_simp
  have "collect_records (answer_msg r True None) (Suc (Suc (Suc ?n))) (length ?H) browse_new =
      collect_records ?buf (Suc (Suc (Suc ?n))) (length ?H) browse_new"
    by (simp only: answer_msg_bytes)
  also have "\<dots> =
      collect_records ?buf (Suc (Suc ?n)) (length (?H @ ?P)) (browse_new\<lparr>bs_instances := [?i]\<rparr>)"
    using collect_records_step [OF svc lens(1), of ?H TYPE_PTR CLASS_IN TTL_PTR "?S @ ?T @ ?A"]
      collect_record_ptr [OF ok(1), of browse_new ?H CLASS_IN TTL_PTR "?S @ ?T @ ?A"]
    by (simp add: browse_new_def)
  also have "\<dots> = collect_records ?buf (Suc ?n) (length (?H @ ?P @ ?S))
      (browse_new\<lparr>bs_instances := [?i], bs_srv := [(?i, rs_port r, ?h)]\<rparr>)"
    using collect_records_step [OF ok(1) lens(2), of "?H @ ?P" TYPE_SRV flush_class TTL_HOST "?T @ ?A"]
      collect_record_srv [OF ok(2), of "?H @ ?P" ?i flush_class TTL_HOST "rs_port r" "?T @ ?A"]
    by (simp add: browse_new_def)
  also have "\<dots> = collect_records ?buf ?n (length (?H @ ?P @ ?S @ ?T))
      (browse_new\<lparr>bs_instances := [?i], bs_srv := [(?i, rs_port r, ?h)], bs_txts := [(?i, rs_txt r)]\<rparr>)"
    using collect_records_step [OF ok(1) lens(3), of "?H @ ?P @ ?S" TYPE_TXT flush_class TTL_HOST ?A]
    by (simp add: collect_record_txt [OF ok(3)] browse_new_def)
  also have "\<dots> = \<lparr>bs_instances = [?i], bs_srv = [(?i, rs_port r, ?h)], bs_txts = [(?i, rs_txt r)],
      bs_addrs = map (\<lambda>a. (?h, V4 a)) (rs_addrs r)\<rparr>"
    using collect_records_a [OF ok(2), of "?H @ ?P @ ?S @ ?T" flush_class TTL_HOST "rs_addrs r"]
    by (simp add: browse_new_def)
  finally show ?thesis .
qed

lemma answer_header_counts:
  "of_be16 ((answer_header n @ z) ! 4) ((answer_header n @ z) ! 5) = 0"
  "of_be16 ((answer_header n @ z) ! 6) ((answer_header n @ z) ! 7) = 3"
  "of_be16 ((answer_header n @ z) ! 8) ((answer_header n @ z) ! 9) = 0"
  "of_be16 ((answer_header n @ z) ! 10) ((answer_header n @ z) ! 11) = of_nat n"
  "length (answer_header n) = 12"
proof -
  have h: "answer_header n = [0, 0, 0x84, 0, 0, 0, 0, 3, 0, 0, ucast (drop_bit 8 (of_nat n :: u16)), ucast (of_nat n :: u16)]"
    by (simp add: answer_header_def be16_def)
  show "length (answer_header n) = 12"
    "of_be16 ((answer_header n @ z) ! 4) ((answer_header n @ z) ! 5) = 0"
    "of_be16 ((answer_header n @ z) ! 6) ((answer_header n @ z) ! 7) = 3"
    "of_be16 ((answer_header n @ z) ! 8) ((answer_header n @ z) ! 9) = 0"
    unfolding h by (simp_all add: of_be16_def)
  show "of_be16 ((answer_header n @ z) ! 10) ((answer_header n @ z) ! 11) = of_nat n"
    unfolding h by (simp only: append_Cons nth_Cons_numeral pred_numeral_simps nth_Cons_Suc nth_Cons_0 of_be16_be16 BitM.simps numeral_One One_nat_def) (simp add: of_be16_be16)
qed

lemma collect_answer:
  assumes "name_ok (rs_instance_fqdn r)" "name_ok (rs_host_fqdn r)" "list_all txt_ok (rs_txt r)"
    and len: "length (answer_msg r True None) \<le> MAX_PACKET"
  shows "collect (answer_msg r True None) browse_new =
    \<lparr>bs_instances = [rs_instance_fqdn r], bs_srv = [(rs_instance_fqdn r, rs_port r, rs_host_fqdn r)],
     bs_txts = [(rs_instance_fqdn r, rs_txt r)], bs_addrs = map (\<lambda>a. (rs_host_fqdn r, V4 a)) (rs_addrs r)\<rparr>"
proof -
  let ?n = "length (rs_addrs r)"
  obtain z where z: "answer_msg r True None = answer_header ?n @ z" "?n \<le> length z"
    using length_records [where as = "rs_addrs r" and host = "rs_host_fqdn r" and ty = TYPE_A and cl = flush_class
        and ttl = TTL_HOST and f = be32]
    by (simp add: answer_msg_bytes)
  then have n: "unat (of_nat ?n :: u16) = ?n"
    using len by (simp add: unat_of_nat MAX_PACKET_def)
  have "collect (answer_msg r True None) browse_new = collect_records (answer_msg r True None) (3 + ?n) 12 browse_new"
    unfolding z(1) collect_def Let_def
    using answer_header_counts(1-4) [of ?n z] answer_header_counts(5) [of ?n] n by (simp del: collect_records.simps)
  then show ?thesis using collect_records_answer [OF assms] answer_header_counts(5) [of ?n]
    by (simp add: numeral_3_eq_3 del: collect_records.simps)
qed

lemma trim_end_matches_once:
  assumes "p \<noteq> []" "strip_suffix_str p s = None"
  shows "trim_end_matches p (s @ p) = s"
proof -
  have "strip_suffix_str p (s @ p) = Some s" by (rule strip_suffix_append)
  then have "trim_end_matches p (s @ p) = trim_end_matches p s"
    using assms(1) by (subst trim_end_matches.simps) simp
  also have "\<dots> = s" using assms(2) by (subst trim_end_matches.simps) simp
  finally show ?thesis .
qed

text \<open>
  C20. A browser that hears an exporter's announcement finds that exporter: the announcement of
  an instance whose names are well formed and fit, decoded on the other side, is one service
  with the instance's name, host, port, texts and all its addresses in order.
\<close>

theorem mdns_announce_discovered:
  assumes "name_ok (inst @ ''.'' @ SERVICE)" "name_ok (host @ ''.local'')" "list_all txt_ok txts"
    and "length (answer_msg (responder_new inst host port addrs txts) True None) \<le> MAX_PACKET"
    and "strip_suffix_str (''.'' @ SERVICE) inst = None"
  shows "browse [Received (answer_msg (responder_new inst host port addrs txts) True None), RecvRetry] =
    Inr [\<lparr>dv_instance = inst, dv_host = host @ ''.local'', dv_port = port, dv_addrs = map V4 addrs, dv_txt = txts\<rparr>]"
proof -
  let ?r = "responder_new inst host port addrs txts"
  have r: "rs_instance_fqdn ?r = inst @ ''.'' @ SERVICE" "rs_host_fqdn ?r = host @ ''.local''" "rs_port ?r = port"
    "rs_addrs ?r = addrs" "rs_txt ?r = txts"
    by (simp_all add: responder_new_def)
  have c: "collect (answer_msg ?r True None) browse_new =
      \<lparr>bs_instances = [inst @ ''.'' @ SERVICE], bs_srv = [(inst @ ''.'' @ SERVICE, port, host @ ''.local'')],
       bs_txts = [(inst @ ''.'' @ SERVICE, txts)], bs_addrs = map (\<lambda>a. (host @ ''.local'', V4 a)) addrs\<rparr>"
    using collect_answer [of ?r] assms(1-4) unfolding r by simp
  have "trim_end_matches (''.'' @ SERVICE) (inst @ ''.'' @ SERVICE) = inst"
    using assms(5) by (intro trim_end_matches_once) simp_all
  then show ?thesis
    using assms(4) c by (simp add: browse_def eq_ignore_case_def comp_def)
qed

theorem mdns_announce_discovered_witness:
  "browse [Received (answer_msg (responder_new ''steamdeck'' ''deck'' 3240 [0xc0a8010a] [''allow=28de:*'']) True None), RecvRetry] =
    Inr [\<lparr>dv_instance = ''steamdeck'', dv_host = ''deck.local'', dv_port = 3240, dv_addrs = [V4 0xc0a8010a],
          dv_txt = [''allow=28de:*'']\<rparr>]"
proof -
  have a: "name_ok (''steamdeck'' @ ''.'' @ SERVICE)" "name_ok (''deck'' @ ''.local'')" "list_all txt_ok [''allow=28de:*'']"
    "strip_suffix_str (''.'' @ SERVICE) ''steamdeck'' = None"
    by code_simp+
  moreover have "length (answer_msg (responder_new ''steamdeck'' ''deck'' 3240 [0xc0a8010a] [''allow=28de:*'']) True None) \<le> MAX_PACKET"
    by (simp add: answer_msg_bytes responder_new_def record_bytes_def answer_header_def ptr_rdata_def srv_rdata_def txt_rdata_def
        txt_entry_def encode_name_def encode_label_def SERVICE_def MAX_PACKET_def Let_def)
  ultimately show ?thesis
    using mdns_announce_discovered [of "''steamdeck''" "''deck''" "[''allow=28de:*'']" 3240 "[0xc0a8010a]"] by simp
qed

end
