(* ===== verification/Log.thy ===== *)
theory Log
  imports Rust_Str
begin

text \<open>
  The process-wide flags of \<open>usbfwd-common\<close>: the logger of \<open>log.rs\<close> (a level and a sink) and the
  signals of \<open>signal.rs\<close> (a shutdown flag and a hang-up flag). Their atomics are fields of a state.
\<close>

section \<open>Log levels\<close>

datatype level = Error | Warn | Info | Debug | Trace

fun level_num :: "level \<Rightarrow> nat" where
  "level_num Error = 0"
| "level_num Warn = 1"
| "level_num Info = 2"
| "level_num Debug = 3"
| "level_num Trace = 4"

instantiation level :: linorder
begin

definition less_eq_level :: "level \<Rightarrow> level \<Rightarrow> bool" where
  "less_eq_level a b \<longleftrightarrow> level_num a \<le> level_num b"

definition less_level :: "level \<Rightarrow> level \<Rightarrow> bool" where
  "less_level a b \<longleftrightarrow> level_num a < level_num b"

instance
proof
  fix a b :: level
  show "a \<le> b \<Longrightarrow> b \<le> a \<Longrightarrow> a = b"
    by (cases a; cases b) (simp_all add: less_eq_level_def)
qed (auto simp: less_eq_level_def less_level_def)

end

definition level_parse :: "string \<Rightarrow> level option" where
  "level_parse s = (let t = to_ascii_lowercase (trim s) in
     if t = ''error'' then Some Error
     else if t = ''warn'' \<or> t = ''warning'' then Some Warn
     else if t = ''info'' then Some Info
     else if t = ''debug'' then Some Debug
     else if t = ''trace'' then Some Trace
     else None)"

fun level_tag :: "level \<Rightarrow> string" where
  "level_tag Error = ''error''"
| "level_tag Warn = ''warn''"
| "level_tag Info = ''info''"
| "level_tag Debug = ''debug''"
| "level_tag Trace = ''trace''"

section \<open>The logger\<close>

text \<open>Lines go to the sink where one is installed, and to the standard error otherwise.\<close>

record logger =
  lg_level :: level
  lg_sink :: bool
  lg_sunk :: "(level \<times> string) list"
  lg_stderr :: "string list"

definition logger_new :: logger where
  "logger_new = \<lparr>lg_level = Info, lg_sink = False, lg_sunk = [], lg_stderr = []\<rparr>"

definition set_sink :: "logger \<Rightarrow> logger" where
  "set_sink l = l\<lparr>lg_sink := True\<rparr>"

definition set_level :: "level \<Rightarrow> logger \<Rightarrow> logger" where
  "set_level v l = l\<lparr>lg_level := v\<rparr>"

definition enabled :: "level \<Rightarrow> logger \<Rightarrow> bool" where
  "enabled v l \<longleftrightarrow> v \<le> lg_level l"

definition log_from_env :: "string option \<Rightarrow> logger \<Rightarrow> logger" where
  "log_from_env var l = (case var of
     None \<Rightarrow> l
   | Some s \<Rightarrow> (case level_parse s of Some v \<Rightarrow> set_level v l | None \<Rightarrow> l))"

definition emit :: "level \<Rightarrow> string \<Rightarrow> logger \<Rightarrow> logger" where
  "emit v msg l =
     (if lg_sink l then l\<lparr>lg_sunk := lg_sunk l @ [(v, msg)]\<rparr>
      else l\<lparr>lg_stderr := lg_stderr l @ [''['' @ level_tag v @ ''] '' @ msg]\<rparr>)"

definition log_at :: "level \<Rightarrow> string \<Rightarrow> logger \<Rightarrow> logger" where
  "log_at v msg l = (if enabled v l then emit v msg l else l)"

section \<open>Signals\<close>

record signals =
  sg_shutdown :: bool
  sg_hangup :: bool

definition signals_new :: signals where
  "signals_new = \<lparr>sg_shutdown = False, sg_hangup = False\<rparr>"

text \<open>The handlers, for \<open>SIGINT\<close> and \<open>SIGTERM\<close>, and for \<open>SIGHUP\<close>.\<close>

definition on_terminate :: "signals \<Rightarrow> signals" where
  "on_terminate s = s\<lparr>sg_shutdown := True\<rparr>"

definition on_hangup :: "signals \<Rightarrow> signals" where
  "on_hangup s = s\<lparr>sg_hangup := True\<rparr>"

definition take_hangup :: "signals \<Rightarrow> bool \<times> signals" where
  "take_hangup s = (sg_hangup s, s\<lparr>sg_hangup := False\<rparr>)"

definition shutting_down :: "signals \<Rightarrow> bool" where
  "shutting_down s = sg_shutdown s"

definition request_shutdown :: "signals \<Rightarrow> signals" where
  "request_shutdown s = s\<lparr>sg_shutdown := True\<rparr>"

text \<open>
  What \<open>install\<close> asks for, one \<open>signal\<close> call after another, and what the arrival of a signal
  then does. A signal whose disposition was not changed, such as one of those four before
  \<open>install\<close>, kills the process.
\<close>

datatype signo = SIGINT | SIGTERM | SIGPIPE | SIGHUP

datatype disposition = Default | Ignore | Terminates | HangsUp

definition install :: "(signo \<Rightarrow> disposition) \<Rightarrow> signo \<Rightarrow> disposition" where
  "install d = d(SIGINT := Terminates, SIGTERM := Terminates, SIGPIPE := Ignore, SIGHUP := HangsUp)"

fun arrives :: "(signo \<Rightarrow> disposition) \<Rightarrow> signo \<Rightarrow> signals \<Rightarrow> signals option" where
  "arrives d n s = (case d n of
     Default \<Rightarrow> None | Ignore \<Rightarrow> Some s | Terminates \<Rightarrow> Some (on_terminate s) | HangsUp \<Rightarrow> Some (on_hangup s))"

fun all_arrive :: "(signo \<Rightarrow> disposition) \<Rightarrow> signo list \<Rightarrow> signals \<Rightarrow> signals option" where
  "all_arrive d [] s = Some s"
| "all_arrive d (n # ns) s = Option.bind (arrives d n s) (all_arrive d ns)"

section \<open>Verbosity\<close>

text \<open>Both programs turn their \<open>-v\<close> and \<open>-q\<close> options into a level the same way.\<close>

definition verbosity_level :: "int \<Rightarrow> level option" where
  "verbosity_level n = (if n < 0 then Some Error else if n = 0 then None else if n = 1 then Some Debug else Some Trace)"

definition is_v_cluster :: "string \<Rightarrow> bool" where
  "is_v_cluster s \<longleftrightarrow> 2 \<le> length s \<and> take 1 s = ''-'' \<and> list_all (\<lambda>c. c = CHR ''v'') (drop 1 s)"

lemma level_parse_tag: "level_parse (level_tag v) = Some v"
proof -
  have "trim (level_tag v) = level_tag v" by (cases v) (simp_all add: trim_graphic graphic_def)
  moreover have "to_ascii_lowercase (level_tag v) = level_tag v"
    by (cases v) (simp_all add: to_ascii_lowercase_def ascii_upper_def)
  ultimately show ?thesis by (cases v) (simp_all add: level_parse_def)
qed

text \<open>A line is written exactly when its level is at or below the one set, and once.\<close>

lemma log_at_lines:
  "length (lg_sunk (log_at v msg l)) + length (lg_stderr (log_at v msg l)) =
     length (lg_sunk l) + length (lg_stderr l) + (if v \<le> lg_level l then 1 else 0)"
  by (simp add: log_at_def emit_def enabled_def)

text \<open>A hang-up is taken once, and none that arrives before the take is lost.\<close>

lemma hangup_taken_once: "fst (take_hangup (on_hangup s)) \<and> \<not> fst (take_hangup (snd (take_hangup s)))"
  by (simp add: take_hangup_def on_hangup_def)

text \<open>
  Once the handlers are installed no signal of the four kills the process; the flags say which
  kinds have arrived, however often and in whatever order. Installing twice is harmless.
\<close>

lemma install_idem: "install (install d) = install d"
  by (auto simp: install_def)

lemma signals_recorded:
  "all_arrive (install d) ns s = Some
     \<lparr>sg_shutdown = (sg_shutdown s \<or> SIGINT \<in> set ns \<or> SIGTERM \<in> set ns), sg_hangup = (sg_hangup s \<or> SIGHUP \<in> set ns)\<rparr>"
proof (induction ns arbitrary: s)
  case (Cons n ns)
  then show ?case by (cases n) (auto simp: install_def on_terminate_def on_hangup_def)
qed simp

end
