(* ===== verification/Server_Cli.thy ===== *)
theory Server_Cli
  imports Listen Sources Ip_Addr Mdns Log
begin

text \<open>
  The server program around its accept loop: the command line of \<open>usbfwd-server/src/main.rs\<close>, the
  start and the end of \<open>run\<close> in \<open>lib.rs\<close> (options of a session, advertising, draining, the device
  listing) and, from \<open>toggle.rs\<close>, the check before the watcher starts and the chord probe. What
  is printed is a list of lines; those printed before an error are left out.
\<close>

section \<open>Options\<close>

record server_args =
  sa_cfg :: server_config
  sa_list :: bool
  sa_probe :: bool
  sa_level :: "level option"

definition server_args_default :: server_args where
  "server_args_default = \<lparr>sa_cfg = server_config_default\<lparr>cf_binds := []\<rparr>, sa_list = False, sa_probe = False, sa_level = None\<rparr>"

datatype server_option =
    SoHelp | SoBind | SoPort | SoAllow | SoMaxTransfer | SoMdns | SoToggleChord | SoToggleHold
  | SoProbe | SoPrefetch | SoName | SoList | SoVerbosity int | SoUnknown

definition server_option_of :: "string \<Rightarrow> server_option" where
  "server_option_of arg =
     (if arg \<in> {''-h'', ''--help'', ''-V'', ''--version''} then SoHelp
      else if arg = ''--bind'' then SoBind
      else if arg = ''--port'' then SoPort
      else if arg = ''--allow'' then SoAllow
      else if arg = ''--max-transfer'' then SoMaxTransfer
      else if arg = ''--mdns'' then SoMdns
      else if arg = ''--toggle-chord'' then SoToggleChord
      else if arg = ''--toggle-hold'' then SoToggleHold
      else if arg = ''--chord-probe'' then SoProbe
      else if arg = ''--prefetch'' then SoPrefetch
      else if arg = ''--name'' then SoName
      else if arg = ''--list'' then SoList
      else if arg = ''--verbose'' then SoVerbosity 1
      else if is_v_cluster arg then SoVerbosity (int (length arg - 1))
      else if arg \<in> {''-q'', ''--quiet''} then SoVerbosity (- 2)
      else SoUnknown)"

fun takes_value :: "server_option \<Rightarrow> bool" where
  "takes_value opt = (opt \<in> {SoBind, SoPort, SoAllow, SoMaxTransfer, SoToggleChord, SoToggleHold, SoName})"

definition parse_bind :: "string \<Rightarrow> string + bind" where
  "parse_bind v =
     (if v \<in> {''tailscale'', ''auto''} then Inr Tailscale
      else if v \<in> {''any'', ''all''} then Inr Any
      else case ip_from_str v of
        Some a \<Rightarrow> Inr (Addr a)
      | None \<Rightarrow> Inl (quoted v @ '' is not an IP address''))"

definition parse_or :: "nat \<Rightarrow> string \<Rightarrow> string \<Rightarrow> string + nat" where
  "parse_or bound what v =
     (case parse_unsigned bound v of Some n \<Rightarrow> Inr n | None \<Rightarrow> Inl (quoted v @ '' is not '' @ what))"

fun set_option :: "server_option \<Rightarrow> string \<Rightarrow> server_config \<Rightarrow> string + server_config" where
  "set_option SoBind v c = rbind (parse_bind v) (\<lambda>b. Inr (c\<lparr>cf_binds := cf_binds c @ [b]\<rparr>))"
| "set_option SoPort v c = rbind (parse_or 65535 ''a port'' v) (\<lambda>n. Inr (c\<lparr>cf_port := of_nat n\<rparr>))"
| "set_option SoAllow v c = rbind (filter_from_str v) (\<lambda>f. Inr (c\<lparr>cf_filter := f\<rparr>))"
| "set_option SoMaxTransfer v c = rbind (parse_or (2 ^ 64 - 1) ''a size'' v) (\<lambda>n. Inr (c\<lparr>cf_max_transfer := n\<rparr>))"
| "set_option SoToggleChord v c = rbind (chord_from_str v) (\<lambda>ch. Inr (c\<lparr>cf_toggle_chord := Some ch\<rparr>))"
| "set_option SoToggleHold v c =
     rbind (parse_or (2 ^ 64 - 1) ''a number of milliseconds'' v) (\<lambda>ms. Inr (c\<lparr>cf_toggle_hold := ms\<rparr>))"
| "set_option SoName v c = Inr (c\<lparr>cf_name := Some v\<rparr>)"
| "set_option _ v c = Inr c"

definition set_switch :: "server_option \<Rightarrow> server_args \<Rightarrow> server_args" where
  "set_switch opt a =
     (case opt of
        SoProbe \<Rightarrow> a\<lparr>sa_probe := True\<rparr>
      | SoList \<Rightarrow> a\<lparr>sa_list := True\<rparr>
      | SoMdns \<Rightarrow> a\<lparr>sa_cfg := (sa_cfg a)\<lparr>cf_mdns := True\<rparr>\<rparr>
      | SoPrefetch \<Rightarrow> a\<lparr>sa_cfg := (sa_cfg a)\<lparr>cf_prefetch := True\<rparr>\<rparr>
      | _ \<Rightarrow> a)"

definition finish_args :: "server_args \<Rightarrow> int \<Rightarrow> server_args" where
  "finish_args a verbosity =
     (let c = sa_cfg a in
      a\<lparr>sa_cfg := (if cf_binds c = [] then c\<lparr>cf_binds := [Tailscale]\<rparr> else c), sa_level := verbosity_level verbosity\<rparr>)"

text \<open>\<open>Inr None\<close> when only the help or the version was asked for.\<close>

fun server_args_loop :: "string list \<Rightarrow> server_args \<Rightarrow> int \<Rightarrow> string + server_args option" where
  "server_args_loop [] a verbosity = Inr (Some (finish_args a verbosity))"
| "server_args_loop (arg # it) a verbosity =
     (let opt = server_option_of arg in
      if opt = SoHelp then Inr None
      else if opt = SoUnknown then Inl (''unknown option '' @ quoted arg @ '' (try --help)'')
      else if takes_value opt then
        (case it of
           [] \<Rightarrow> Inl (arg @ '' needs a value'')
         | v # it' \<Rightarrow>
             (case set_option opt v (sa_cfg a) of
                Inl e \<Rightarrow> Inl e
              | Inr c \<Rightarrow> server_args_loop it' (a\<lparr>sa_cfg := c\<rparr>) verbosity))
      else server_args_loop it (set_switch opt a) (case opt of SoVerbosity n \<Rightarrow> verbosity + n | _ \<Rightarrow> verbosity))"

definition server_parse_args :: "string list \<Rightarrow> string + server_args option" where
  "server_parse_args argv = server_args_loop (drop 1 argv) server_args_default 0"

datatype server_action = DoList device_filter | DoProbe device_filter | DoRun server_config

text \<open>\<open>main\<close> up to the call it makes; \<open>Inl\<close> is the exit code when it makes none.\<close>

definition server_main :: "string list \<Rightarrow> nat + server_action" where
  "server_main argv =
     (case server_parse_args argv of
        Inl e \<Rightarrow> Inl 2
      | Inr None \<Rightarrow> Inl 0
      | Inr (Some a) \<Rightarrow>
          Inr (if sa_list a then DoList (cf_filter (sa_cfg a))
               else if sa_probe a then DoProbe (cf_filter (sa_cfg a)) else DoRun (sa_cfg a)))"

section \<open>Listing and probing\<close>

definition hex_id :: "u16 \<times> u16 \<Rightarrow> string" where
  "hex_id vp = pad_left 4 (show_loop 16 (unat (fst vp))) @ '':'' @ pad_left 4 (show_loop 16 (unat (snd vp)))"

definition hex2 :: "u8 \<Rightarrow> string" where
  "hex2 b = pad_left 2 (show_loop 16 (unat b))"

fun speed_lowercase :: "speed \<Rightarrow> string" where
  "speed_lowercase Unknown = ''unknown''"
| "speed_lowercase Low = ''low''"
| "speed_lowercase Full = ''full''"
| "speed_lowercase High = ''high''"
| "speed_lowercase Wireless = ''wireless''"
| "speed_lowercase Super = ''super''"
| "speed_lowercase SuperPlus = ''superplus''"

definition interface_text :: "interface_summary \<Rightarrow> string" where
  "interface_text i = show_nat (unat (is_number i)) @ '':'' @ hex2 (is_class i) @ ''/'' @ hex2 (is_sub_class i)
     @ ''/'' @ hex2 (is_protocol i)"

definition device_line :: "device_summary \<Rightarrow> string" where
  "device_line d = pad_right 10 (sm_busid d) @ '' '' @ hex_id (vid_pid d) @ ''  ''
     @ pad_right 8 (speed_lowercase (sm_speed d)) @ '' '' @ join '' '' (map interface_text (sm_interfaces d))"

definition print_list :: "fs \<Rightarrow> device_filter \<Rightarrow> enum_error + string list" where
  "print_list f flt = rbind (list_devices f flt) (\<lambda>devs.
     if devs = [] then
       rbind (list_all_devices f) (\<lambda>every.
         Inr ((''No device matches '' @ filter_to_string flt @ ''.'')
           # (if every = [] then []
              else [[], ''On this machine, but not allowed by the filter:'']
                @ map (\<lambda>d. ''  '' @ pad_right 10 (sm_busid d) @ '' '' @ hex_id (vid_pid d)) every)))
     else Inr ((pad_right 10 ''BUSID'' @ '' '' @ pad_right 10 ''VID:PID'' @ '' '' @ pad_right 8 ''SPEED'' @ '' INTERFACES'')
       # map device_line devs))"

text \<open>
  The devices the check before the watcher warns about: they have \<open>hidraw\<close> nodes and none of
  them can be opened. An enumeration error counts as no device; a panic ends the program.
\<close>

definition unreadable :: "fs \<Rightarrow> (string \<Rightarrow> io_error option) \<Rightarrow> device_summary \<Rightarrow> bool" where
  "unreadable f opn d =
     (case nodes_for_busid f (sm_busid d) of
        Inl e \<Rightarrow> False
      | Inr nodes \<Rightarrow> nodes \<noteq> [] \<and> fst (tap_open opn nodes) = [])"

fun preflight :: "fs \<Rightarrow> (string \<Rightarrow> io_error option) \<Rightarrow> device_filter \<Rightarrow> string list option" where
  "preflight f opn flt =
     (case list_devices f flt of
        Inl Panicked \<Rightarrow> None
      | Inl (Failed e) \<Rightarrow> Some []
      | Inr ds \<Rightarrow> Some (map sm_busid (filter (unreadable f opn) ds)))"

text \<open>The taps of the probe, with what it prints on the way.\<close>

definition probe_device :: "fs \<Rightarrow> (string \<Rightarrow> io_error option) \<Rightarrow> device_summary \<Rightarrow> string list \<times> tap" where
  "probe_device f opn d =
     (let b = sm_busid d; nodes = or_default (nodes_for_busid f b); label = b @ '' '' @ hex_id (vid_pid d)
      in if nodes = [] then
           ([label @ '': no hidraw node '' @ [CHR 0xE2, CHR 0x80, CHR 0x94] @ '' it is claimed by usbfwd right now, or its driver is not bound''], [])
         else case tap_open opn nodes of (t, errors) \<Rightarrow>
           (map (\<lambda>(path, e). b @ '': cannot open '' @ path @ '': '' @ io_error_text e) errors
             @ [if t = [] then b @ '': no readable hidraw node. Install packaging/99-usbfwd.rules.''
                else label @ '': watching '' @ join '', '' t], t))"

definition probe_taps :: "fs \<Rightarrow> (string \<Rightarrow> io_error option) \<Rightarrow> device_summary list \<Rightarrow> (string \<times> tap) list" where
  "probe_taps f opn ds = filter (\<lambda>(b, t). t \<noteq> []) (map (\<lambda>d. (sm_busid d, snd (probe_device f opn d))) ds)"

definition mask_lines :: "string \<Rightarrow> u64 \<Rightarrow> string list" where
  "mask_lines busid bm =
     (busid @ ''  0x'' @ pad_left 16 (show_loop 16 (unat bm)) @ ''  '' @ describe bm)
     # (if bm = 0 then [] else [''          --toggle-chord '' @ [CHR 0x27] @ describe bm @ [CHR 0x27]])"

text \<open>The reports of one read; a report is printed when its buttons are not those printed last.\<close>

fun probe_reports :: "string \<Rightarrow> u8 list list \<Rightarrow> (string \<rightharpoonup> u64) \<Rightarrow> string list \<times> (string \<rightharpoonup> u64)" where
  "probe_reports busid [] seen = ([], seen)"
| "probe_reports busid (r # rs) seen =
     (case buttons r of
        None \<Rightarrow> probe_reports busid rs seen
      | Some bm \<Rightarrow>
          if seen busid = Some bm then probe_reports busid rs seen
          else case probe_reports busid rs (seen(busid \<mapsto> bm)) of (ls, seen') \<Rightarrow> (mask_lines busid bm @ ls, seen'))"

text \<open>One reading of every tap; an error and a tap that is gone are passed over.\<close>

fun probe_pass :: "(string \<Rightarrow> io_error + u8 list list option) \<Rightarrow> (string \<times> tap) list \<Rightarrow> (string \<rightharpoonup> u64)
    \<Rightarrow> string list \<times> (string \<rightharpoonup> u64)" where
  "probe_pass rd [] seen = ([], seen)"
| "probe_pass rd ((busid, t) # ts) seen =
     (case rd busid of
        Inr (Some reports) \<Rightarrow>
          (case probe_reports busid reports seen of (ls, seen1) \<Rightarrow>
             case probe_pass rd ts seen1 of (ls', seen2) \<Rightarrow> (ls @ ls', seen2))
      | _ \<Rightarrow> probe_pass rd ts seen)"

fun probe_loop :: "(string \<Rightarrow> io_error + u8 list list option) list \<Rightarrow> (string \<times> tap) list \<Rightarrow> (string \<rightharpoonup> u64) \<Rightarrow> string list" where
  "probe_loop [] ts seen = []"
| "probe_loop (rd # rds) ts seen = (case probe_pass rd ts seen of (ls, seen') \<Rightarrow> ls @ probe_loop rds ts seen')"

definition chord_probe :: "fs \<Rightarrow> (string \<Rightarrow> io_error option) \<Rightarrow> device_filter \<Rightarrow> (string \<Rightarrow> io_error + u8 list list option) list
    \<Rightarrow> enum_error + string list" where
  "chord_probe f opn flt rds = rbind (list_devices f flt) (\<lambda>ds.
     let setup = concat (map (fst \<circ> probe_device f opn) ds); ts = probe_taps f opn ds
     in if ds = [] then Inr [''No device matches '' @ filter_to_string flt @ ''.'']
        else if ts = [] then Inr setup
        else Inr (setup @ [[], ''Hold the buttons you want as the chord. Ctrl-C when done.'', []]
               @ probe_loop rds ts (\<lambda>_. None)))"

section \<open>Advertising\<close>

definition mdns_responder :: "server_config \<Rightarrow> string option \<Rightarrow> io_error + ifaddrs list \<Rightarrow> responder" where
  "mdns_responder args host_name ifs =
     (let host = hostname host_name; name = (case cf_name args of Some n \<Rightarrow> n | None \<Rightarrow> host)
      in responder_new name host (cf_port args) (or_default (lan_v4_addrs ifs))
           [''allow='' @ filter_to_string (cf_filter args)])"

record mdns_turn =
  mt_down :: bool
  mt_recv :: recv
  mt_send :: "io_error option"
  mt_now :: nat

definition announcement :: "responder \<Rightarrow> u8 list \<times> destination" where
  "announcement r = (answer_msg r True None, Group)"

definition goodbye :: "responder \<Rightarrow> u8 list \<times> destination" where
  "goodbye r = (answer_msg r True (Some 0), Group)"

definition poll_once :: "responder \<Rightarrow> mdns_turn \<Rightarrow> io_error + (u8 list \<times> destination) list" where
  "poll_once r t =
     (case mt_recv t of
        RecvRetry \<Rightarrow> Inr []
      | RecvFailed e \<Rightarrow> Inl e
      | Received pkt \<Rightarrow>
          (case poll_reply r (take MAX_PACKET pkt) of
             None \<Rightarrow> Inr []
           | Some reply \<Rightarrow> (case mt_send t of None \<Rightarrow> Inr [reply] | Some e \<Rightarrow> Inl e)))"

text \<open>
  What the thread sends, one turn of its loop after the other; \<open>None\<close> at the end of a list that
  does not stop it. \<open>prev\<close> is the time of the last announcement, in milliseconds.
\<close>

fun mdns_loop :: "responder \<Rightarrow> nat \<Rightarrow> mdns_turn list \<Rightarrow> (u8 list \<times> destination) list" where
  "mdns_loop r prev [] = []"
| "mdns_loop r prev (t # ts) =
     (if mt_down t then [goodbye r]
      else case poll_once r t of
        Inl e \<Rightarrow> [goodbye r]
      | Inr out \<Rightarrow>
          if 60000 < mt_now t - prev then out @ announcement r # mdns_loop r (mt_now t) ts
          else out @ mdns_loop r prev ts)"

definition start_mdns :: "io_error option \<Rightarrow> server_config \<Rightarrow> string option \<Rightarrow> io_error + ifaddrs list \<Rightarrow> nat \<Rightarrow> mdns_turn list
    \<Rightarrow> (u8 list \<times> destination) list" where
  "start_mdns udp args host_name ifs now ts =
     (case udp of
        Some e \<Rightarrow> []
      | None \<Rightarrow> let r = mdns_responder args host_name ifs in announcement r # mdns_loop r now ts)"

section \<open>From start to shutdown\<close>

definition session_opts_of :: "server_config \<Rightarrow> session_opts" where
  "session_opts_of args = \<lparr>so_prefetch = cf_prefetch args,
     so_hotkey = map_option (\<lambda>ch. \<lparr>hk_chord = ch, hk_hold = cf_toggle_hold args\<rparr>) (cf_toggle_chord args)\<rparr>"

text \<open>
  What \<open>run\<close> has set up when it enters the accept loop; \<open>None\<close> while it still waits for an address. The
  source is wrapped in the gate, and a watcher runs, exactly when there is a chord.
\<close>

record run_state =
  rs_listeners :: "(ip_addr \<times> u16) list"
  rs_source :: "usbfs_device source"
  rs_opts :: session_opts
  rs_gated :: bool
  rs_mdns :: bool

definition run_start :: "fs \<Rightarrow> probe \<Rightarrow> server_config \<Rightarrow> attempt list \<Rightarrow> (io_error + run_state) option" where
  "run_start f pb args ts =
     (case bind_when_ready args ts of
        None \<Rightarrow> None
      | Some (Inl e) \<Rightarrow> Some (Inl e)
      | Some (Inr ls) \<Rightarrow>
          let src = sysfs_devices f pb (cf_filter args) (cf_max_transfer args); gate = cf_toggle_chord args \<noteq> None
          in Some (Inr \<lparr>rs_listeners = ls, rs_source = (if gate then gated src toggle_new else src),
               rs_opts = session_opts_of args, rs_gated = gate, rs_mdns = cf_mdns args\<rparr>))"

text \<open>
  One turn of the accept loop: \<open>poll\<close> fails with an errno, times out, or tells for each listener
  whether it is readable; then whether \<open>accept\<close> succeeds and whether the thread can be spawned.
  \<open>None\<close> when the loop returns, which it then does without draining.
\<close>

datatype accept_poll = PollError int | PollTimeout | PollListeners "(bool \<times> bool \<times> bool) list"

fun accept_listeners :: "(bool \<times> bool \<times> bool) list \<Rightarrow> server \<Rightarrow> server" where
  "accept_listeners [] s = s"
| "accept_listeners ((readable, accepted, spawned) # ls) s =
     accept_listeners ls (if readable \<and> accepted then accept_conn spawned s else s)"

fun accept_turn :: "accept_poll \<Rightarrow> server \<Rightarrow> server option" where
  "accept_turn (PollError errno) s = (if errno = 4 then Some s else None)"
| "accept_turn PollTimeout s = Some s"
| "accept_turn (PollListeners ls) s = Some (accept_listeners ls s)"

text \<open>
  The whole loop, over the answers to \<open>stop\<close> and \<open>poll\<close> in turn, while the threads of the connections
  go on; it ends by the flag, with the drain to follow, or because \<open>poll\<close> failed.
\<close>

inductive accept_loop :: "env \<Rightarrow> bool \<Rightarrow> session_opts \<Rightarrow> (bool \<times> accept_poll) list \<Rightarrow> server \<Rightarrow> server \<Rightarrow> bool \<Rightarrow> bool"
  for v :: env and keeps :: bool and opts :: session_opts where
  Stopped: "accept_loop v keeps opts ((True, a) # ts) s s True"
| PollFailed: "(server_step v keeps opts)\<^sup>*\<^sup>* s s1 \<Longrightarrow> accept_turn a s1 = None \<Longrightarrow>
    accept_loop v keeps opts ((False, a) # ts) s s1 False"
| Turn: "(server_step v keeps opts)\<^sup>*\<^sup>* s s1 \<Longrightarrow> accept_turn a s1 = Some s2 \<Longrightarrow>
    accept_loop v keeps opts ts s2 s3 drains \<Longrightarrow> accept_loop v keeps opts ((False, a) # ts) s s3 drains"

definition DRAIN_TIMEOUT :: nat where "DRAIN_TIMEOUT = 8000"

text \<open>
  Waiting for sessions to end: \<open>open_at t\<close> sessions are open \<open>t\<close> milliseconds after the deadline was
  set, and a sleep of 20 takes \<open>late t\<close> longer. The time at which the wait ends.
\<close>

function drain_wait :: "(nat \<Rightarrow> nat) \<Rightarrow> (nat \<Rightarrow> nat) \<Rightarrow> nat \<Rightarrow> nat" where
  "drain_wait open_at late t =
     (if 0 < open_at t \<and> t < DRAIN_TIMEOUT then drain_wait open_at late (t + 20 + late t) else t)"
  by pat_completeness auto
termination
  by (relation "measure (\<lambda>(open_at, late, t). DRAIN_TIMEOUT - t)") auto

declare drain_wait.simps [simp del]

text \<open>The sockets that are shut down, and how many sessions are given up.\<close>

definition drain :: "(nat \<Rightarrow> nat) \<Rightarrow> (nat \<Rightarrow> nat) \<Rightarrow> nat list \<Rightarrow> nat list \<times> nat" where
  "drain open_at late live = (if open_at 0 = 0 then ([], 0) else (live, open_at (drain_wait open_at late 0)))"

section \<open>What the options can ask for\<close>

lemma server_option_of_bind: "server_option_of arg = SoBind \<longleftrightarrow> arg = ''--bind''"
  by (auto simp: server_option_of_def)

lemma set_option_binds:
  "set_option opt v c = Inr c' \<Longrightarrow>
     cf_binds c' = cf_binds c \<or> opt = SoBind \<and> (\<exists>b. parse_bind v = Inr b \<and> cf_binds c' = cf_binds c @ [b])"
  by (cases opt) (auto simp: rbind_Inr_iff)

lemma set_switch_binds: "cf_binds (sa_cfg (set_switch opt a)) = cf_binds (sa_cfg a)"
  by (simp add: set_switch_def split: server_option.split)

text \<open>Every address to bind was given before, is the default, or is the value of a \<open>--bind\<close>.\<close>

definition named_bind :: "string list \<Rightarrow> bind \<Rightarrow> bool" where
  "named_bind argv b \<longleftrightarrow> (\<exists>xs v ys. argv = xs @ ''--bind'' # v # ys \<and> parse_bind v = Inr b)"

lemma named_bind_later: "named_bind it b \<Longrightarrow> named_bind (xs @ it) b"
  unfolding named_bind_def by (metis append.assoc)

lemma args_loop_binds:
  "server_args_loop it a n = Inr (Some a') \<Longrightarrow> b \<in> set (cf_binds (sa_cfg a')) \<Longrightarrow>
     b \<in> set (cf_binds (sa_cfg a)) \<or> b = Tailscale \<or> named_bind it b"
proof (induction it a n rule: server_args_loop.induct)
  case (1 a n)
  then show ?case by (auto simp: finish_args_def Let_def split: if_splits)
next
  case (2 arg it a n)
  let ?opt = "server_option_of arg"
  have known: "?opt \<noteq> SoHelp" "?opt \<noteq> SoUnknown" using "2.prems"(1) by (auto simp: Let_def)
  show ?case
  proof (cases "takes_value ?opt")
    case True
    then obtain v it' where it: "it = v # it'" using "2.prems"(1) known by (auto simp: Let_def split: list.split_asm)
    then obtain c where c: "set_option ?opt v (sa_cfg a) = Inr c"
      and rec: "server_args_loop it' (a\<lparr>sa_cfg := c\<rparr>) n = Inr (Some a')"
      using "2.prems"(1) known True by (auto simp: Let_def split: sum.split_asm)
    have "b \<in> set (cf_binds c) \<or> b = Tailscale \<or> named_bind it' b"
      using "2.IH"(1) [OF refl known True it c rec "2.prems"(2)] by simp
    then consider "b \<in> set (cf_binds (sa_cfg a))" | "b = Tailscale" | "named_bind it' b"
      | "?opt = SoBind" "parse_bind v = Inr b"
      using set_option_binds [OF c] by fastforce
    then show ?thesis
    proof cases
      case 3
      then show ?thesis using named_bind_later [of it' b "[arg, v]"] it by simp
    next
      case 4
      then have "named_bind (arg # it) b"
        unfolding named_bind_def it server_option_of_bind by (intro exI [of _ "[]"] exI [of _ v] exI [of _ it']) simp
      then show ?thesis by blast
    qed simp_all
  next
    case False
    then have rec: "server_args_loop it (set_switch ?opt a) (case ?opt of SoVerbosity k \<Rightarrow> n + k | _ \<Rightarrow> n) = Inr (Some a')"
      using "2.prems"(1) known by (simp add: Let_def del: takes_value.simps)
    then show ?thesis
      using "2.IH"(2) [OF refl known False rec "2.prems"(2)] named_bind_later [of it b "[arg]"]
      by (auto simp: set_switch_binds)
  qed
qed

definition tailnet_address :: "io_error + ifaddrs list \<Rightarrow> ip_addr \<Rightarrow> bool" where
  "tailnet_address ifs a \<longleftrightarrow> bindable a \<and> (\<exists>l i. ifs = Inr l \<and> i \<in> set (if_list l) \<and> if_addr i = a
     \<and> (is_tailscale_addr a \<or> starts_with (if_name i) ''tailscale''))"

lemma bind_all_sound:
  assumes "bind_all tcp ifs args = Inr ls" "(a, p) \<in> set ls"
  shows "p = cf_port args \<and> tcp (a, p) = None
    \<and> (Addr a \<in> set (cf_binds args) \<or> Any \<in> set (cf_binds args) \<and> a \<in> {V4_UNSPECIFIED, V6_UNSPECIFIED}
       \<or> Tailscale \<in> set (cf_binds args) \<and> tailnet_address ifs a)"
proof -
  obtain as where as: "resolve_loop ifs (cf_binds args) [] = Inr as"
    and ls: "ls = filter (\<lambda>sa. tcp sa = None) (map (\<lambda>a. (a, cf_port args)) (remdups_adj as))"
    using assms(1) by (auto simp: bind_all_def resolve_binds_def rbind_Inr_iff Let_def split: if_splits)
  then have "a \<in> set as" "p = cf_port args" "tcp (a, p) = None" using assms(2) by auto
  then show ?thesis
    using resolve_loop_sound [OF as, of a] tailscale_addrs_sound [of ifs _ a] unfolding tailnet_address_def by fastforce
qed

text \<open>
  C12. Whatever the command line, a server that starts listens on the configured port, and on an
  address that is not the tailnet's only when the command line asks for it: the value after a
  \<open>--bind\<close> is that very address, or is \<open>any\<close> or \<open>all\<close> and the address is a wildcard.
\<close>

theorem exposed_only_when_asked:
  assumes "server_main argv = Inr (DoRun cfg)" "bind_when_ready cfg ts = Some (Inr ls)"
  shows "\<exists>t \<in> set ts. \<forall>(a, p) \<in> set ls. p = cf_port cfg \<and>
    (tailnet_address (at_ifs t) a
     \<or> (\<exists>xs v ys. drop 1 argv = xs @ ''--bind'' # v # ys
          \<and> (ip_from_str v = Some a \<or> v \<in> {''any'', ''all''} \<and> a \<in> {V4_UNSPECIFIED, V6_UNSPECIFIED})))"
proof -
  obtain t where t: "t \<in> set ts" and all: "bind_all (at_tcp t) (at_ifs t) cfg = Inr ls"
    using bind_when_ready_attempt [OF assms(2)] by blast
  obtain args where args: "server_args_loop (drop 1 argv) server_args_default 0 = Inr (Some args)" "cfg = sa_cfg args"
    using assms(1) by (auto simp: server_main_def server_parse_args_def split: sum.splits option.splits if_splits)
  have none: "cf_binds (sa_cfg server_args_default) = []" by (simp add: server_args_default_def)
  have named: "b = Tailscale \<or> named_bind (drop 1 argv) b" if "b \<in> set (cf_binds cfg)" for b
    using args_loop_binds [OF args(1)] that args(2) none by auto
  have "p = cf_port cfg \<and> (tailnet_address (at_ifs t) a
     \<or> (\<exists>xs v ys. drop 1 argv = xs @ ''--bind'' # v # ys
          \<and> (ip_from_str v = Some a \<or> v \<in> {''any'', ''all''} \<and> a \<in> {V4_UNSPECIFIED, V6_UNSPECIFIED})))"
    if in_ls: "(a, p) \<in> set ls" for a p
  proof -
    consider "tailnet_address (at_ifs t) a" | "Addr a \<in> set (cf_binds cfg)"
      | "Any \<in> set (cf_binds cfg)" "a \<in> {V4_UNSPECIFIED, V6_UNSPECIFIED}"
      using bind_all_sound [OF all in_ls] by blast
    then show ?thesis
    proof cases
      case 2
      then obtain xs v ys where "drop 1 argv = xs @ ''--bind'' # v # ys" "parse_bind v = Inr (Addr a)"
        using named [of "Addr a"] by (auto simp: named_bind_def)
      moreover from this(2) have "ip_from_str v = Some a"
        by (auto simp: parse_bind_def split: if_splits option.splits)
      ultimately show ?thesis using bind_all_sound [OF all in_ls] by blast
    next
      case 3
      then obtain xs v ys where "drop 1 argv = xs @ ''--bind'' # v # ys" "parse_bind v = Inr Any"
        using named [of Any] by (auto simp: named_bind_def)
      moreover from this(2) have "v \<in> {''any'', ''all''}"
        by (auto simp: parse_bind_def split: if_splits option.splits)
      ultimately show ?thesis using bind_all_sound [OF all in_ls] 3(2) by blast
    qed (use bind_all_sound [OF all in_ls] in blast)
  qed
  with t show ?thesis by blast
qed

lemma no_options: "server_main [''usbfwd-server''] = Inr (DoRun server_config_default)"
  by (simp add: server_main_def server_parse_args_def server_args_default_def finish_args_def server_config_default_def)

theorem exposed_only_when_asked_witness:
  "\<exists>ls. bind_when_ready server_config_default sample_attempts = Some (Inr ls) \<and>
     (\<exists>t :: attempt. list_all (tailnet_address (at_ifs t)) (map fst ls))"
proof -
  obtain ls where ls: "bind_when_ready server_config_default sample_attempts = Some (Inr ls)"
    using sample_binds by blast
  have "\<exists>t :: attempt. list_all (tailnet_address (at_ifs t)) (map fst ls)"
    using exposed_only_when_asked [OF no_options ls] by (simp add: list_all_iff split_beta) blast
  with ls show ?thesis by blast
qed

text \<open>
  C37. What the program prints it accepts again: an allow-list as \<open>Display\<close> writes it after
  \<open>--allow\<close>, and the chord the probe suggests for the buttons it saw after \<open>--toggle-chord\<close>, start a
  server with exactly that allow-list and that chord and every other setting at its default.
\<close>

theorem printed_options_accepted:
  assumes "m \<noteq> 0"
  shows "\<exists>spec. mask_lines busid m ! 1 = ''          --toggle-chord '' @ [CHR 0x27] @ spec @ [CHR 0x27]
    \<and> server_main [prog, ''--allow'', filter_to_string f, ''--toggle-chord'', spec] =
        Inr (DoRun (server_config_default\<lparr>cf_filter := f, cf_toggle_chord := Some \<lparr>ch_mask = m\<rparr>\<rparr>))"
proof (intro exI conjI)
  have "filter_from_str (filter_to_string f) = Inr f" by (simp add: filter_roundtrip)
  moreover have "chord_from_str (describe m) = Inr \<lparr>ch_mask = m\<rparr>" by (rule chord_roundtrip [OF assms])
  moreover have "server_option_of ''--allow'' = SoAllow" "server_option_of ''--toggle-chord'' = SoToggleChord"
    by (simp_all add: server_option_of_def)
  ultimately show "server_main [prog, ''--allow'', filter_to_string f, ''--toggle-chord'', describe m] =
      Inr (DoRun (server_config_default\<lparr>cf_filter := f, cf_toggle_chord := Some \<lparr>ch_mask = m\<rparr>\<rparr>))"
    by (simp add: server_main_def server_parse_args_def server_args_default_def finish_args_def server_config_default_def)
qed (use assms in \<open>simp add: mask_lines_def\<close>)

theorem printed_options_accepted_witness:
  "\<exists>spec. server_main [''usbfwd-server'', ''--allow'', filter_to_string filter_default, ''--toggle-chord'', spec] =
     Inr (DoRun (server_config_default\<lparr>cf_filter := filter_default, cf_toggle_chord := Some \<lparr>ch_mask = 0x60000000000\<rparr>\<rparr>))"
proof -
  have "(0x60000000000 :: u64) \<noteq> 0" by simp
  from printed_options_accepted [OF this] show ?thesis by blast
qed

section \<open>Advertising and draining\<close>

text \<open>
  However the thread is stopped, by shutdown or by a failing socket, the last thing it sends
  withdraws the service: the same records with a time to live of zero.
\<close>

lemma mdns_loop_withdraws:
  "t \<in> set ts \<Longrightarrow> mt_down t \<or> (\<exists>e. poll_once r t = Inl e) \<Longrightarrow>
     mdns_loop r prev ts \<noteq> [] \<and> last (mdns_loop r prev ts) = goodbye r"
  by (induction r prev ts rule: mdns_loop.induct) (auto split: sum.split if_split)

lemma start_mdns_withdraws:
  assumes "t \<in> set ts" "mt_down t"
  shows "last (start_mdns None args h ifs now ts) = (answer_msg (mdns_responder args h ifs) True (Some 0), Group)"
  using mdns_loop_withdraws [OF assms(1), of "mdns_responder args h ifs" now] assms(2)
  by (simp add: start_mdns_def Let_def goodbye_def)

text \<open>
  Draining ends within the timeout and one sleep, and gives a session up only when the timeout
  has passed.
\<close>

lemma drain_wait_bounded:
  assumes "\<And>t. late t \<le> L" "t \<le> DRAIN_TIMEOUT + 20 + L"
  shows "drain_wait open_at late t \<le> DRAIN_TIMEOUT + 20 + L"
  using assms
proof (induction open_at late t rule: drain_wait.induct)
  case (1 open_at late t)
  show ?case
  proof (cases "0 < open_at t \<and> t < DRAIN_TIMEOUT")
    case True
    have "t + 20 + late t \<le> DRAIN_TIMEOUT + 20 + L" using "1.prems"(1) [of t] True by linarith
    then show ?thesis using "1.IH" [OF True "1.prems"(1)] True by (subst drain_wait.simps) simp
  next
    case False
    then show ?thesis using "1.prems"(2) by (subst drain_wait.simps) auto
  qed
qed

lemma drain_gives_up_late: "0 < open_at (drain_wait open_at late t) \<Longrightarrow> DRAIN_TIMEOUT \<le> drain_wait open_at late t"
proof (induction open_at late t rule: drain_wait.induct)
  case (1 open_at late t)
  then show ?case
    by (cases "0 < open_at t \<and> t < DRAIN_TIMEOUT") (subst drain_wait.simps, simp, subst (asm) drain_wait.simps, simp, subst (asm) drain_wait.simps, subst drain_wait.simps, auto)
qed

text \<open>The probe only reads: nothing but the nodes of allowed devices is opened.\<close>

lemma probe_taps_nodes:
  assumes "(b, t) \<in> set (probe_taps f opn ds)"
  shows "\<exists>d \<in> set ds. sm_busid d = b \<and> set t \<subseteq> set (or_default (nodes_for_busid f b))"
proof -
  obtain d where d: "d \<in> set ds" "sm_busid d = b" "t = snd (probe_device f opn d)"
    using assms by (auto simp: probe_taps_def)
  obtain t' errs where o': "tap_open opn (or_default (nodes_for_busid f b)) = (t', errs)" by (rule prod.exhaust)
  have "set t \<subseteq> set (or_default (nodes_for_busid f b))"
    using tap_open_nodes [OF o'] d(2,3) o' by (auto simp: probe_device_def Let_def split: if_splits)
  with d show ?thesis by blast
qed

text \<open>A turn of the accept loop is a sequence of steps of the server.\<close>

lemma accept_listeners_steps: "(server_step v keeps opts)\<^sup>*\<^sup>* s (accept_listeners ls s)"
proof (induction ls s rule: accept_listeners.induct)
  case (2 readable accepted spawned ls s)
  have "(server_step v keeps opts)\<^sup>*\<^sup>* s (if readable \<and> accepted then accept_conn spawned s else s)"
    by (auto intro: server_step.Accept)
  with 2 show ?case by (auto intro: rtranclp_trans)
qed simp

lemma accept_turn_steps: "accept_turn a s = Some s' \<Longrightarrow> (server_step v keeps opts)\<^sup>*\<^sup>* s s'"
  by (cases a) (auto simp: accept_listeners_steps split: if_splits)

lemma accept_loop_steps: "accept_loop v keeps opts ts s s' drains \<Longrightarrow> (server_step v keeps opts)\<^sup>*\<^sup>* s s'"
proof (induction rule: accept_loop.induct)
  case (Turn s s1 a s2 ts s3 drains)
  then show ?case using accept_turn_steps [of a s1 s2 v keeps opts] by (meson rtranclp_trans)
qed auto

text \<open>What a server of this configuration lists, suspended or not, its allow-list admits.\<close>

lemma run_source_allowed:
  assumes "run_start f pb args ts = Some (Inr r)" "src_list (rs_source r) = Inr ds" "d \<in> set ds"
  shows "filter_matches (cf_filter args) (fst (vid_pid d)) (snd (vid_pid d))"
proof -
  let ?src = "sysfs_devices f pb (cf_filter args) (cf_max_transfer args)"
  have "rs_source r \<in> {gated ?src toggle_new, ?src}"
    using assms(1) by (auto simp: run_start_def Let_def split: option.splits sum.splits)
  then show ?thesis
    using sysfs_source.gate.listed_allowed [of f pb "cf_filter args" "cf_max_transfer args" toggle_new ds d]
      sysfs_source.listed_allowed [of f pb "cf_filter args" "cf_max_transfer args" ds d] assms(2,3) by auto
qed

end
