(* ===== verification/Android.thy ===== *)
theory Android
  imports Server_Cli
begin

text \<open>
  The Android bridge, \<open>usbfwd-jni/src/lib.rs\<close>: one exporter per process, started on a descriptor
  the system handed over, and stopped again. The global \<open>STATE\<close> is a record that every operation
  takes and returns; the accept thread is what it owns (listeners, device, options) and whether
  it still runs. A panic while \<open>STATE\<close> is locked poisons it.
\<close>

definition ERR_ALREADY_RUNNING :: int where "ERR_ALREADY_RUNNING = - 1"
definition ERR_BAD_DESCRIPTOR :: int where "ERR_BAD_DESCRIPTOR = - 2"
definition ERR_NOT_A_USB_DEVICE :: int where "ERR_NOT_A_USB_DEVICE = - 3"
definition ERR_BIND_FAILED :: int where "ERR_BIND_FAILED = - 4"
definition ERR_INTERNAL :: int where "ERR_INTERNAL = - 5"

record running =
  rn_stop :: bool
  rn_port :: u16
  rn_listeners :: "(ip_addr \<times> u16) list"
  rn_source :: "usbfs_device source"
  rn_opts :: session_opts
  rn_alive :: bool

record jni_state =
  js_running :: "running option"
  js_poisoned :: bool

definition jni_new :: jni_state where
  "jni_new = \<lparr>js_running = None, js_poisoned = False\<rparr>"

section \<open>Logging\<close>

fun logcat_prio :: "level \<Rightarrow> int" where
  "logcat_prio Error = 6"
| "logcat_prio Warn = 5"
| "logcat_prio Info = 4"
| "logcat_prio Debug = 3"
| "logcat_prio Trace = 2"

text \<open>The bytes handed to \<open>__android_log_write\<close>, with the terminating zero.\<close>

definition logcat_text :: "string \<Rightarrow> u8 list" where
  "logcat_text msg = as_bytes (map (\<lambda>c. if c = CHR 0x00 then CHR ''?'' else c) msg) @ [0]"

definition init_logging :: "string option \<Rightarrow> logger \<Rightarrow> logger" where
  "init_logging usbfwd_log l = log_from_env usbfwd_log (set_sink l)"

section \<open>Starting and stopping\<close>

text \<open>
  What \<open>start\<close> asks of the system: the duplicate of the descriptor, sysfs and the device behind
  it, the interfaces (asked twice, before and while binding), each \<open>bind\<close>, \<open>local_addr\<close> of the first
  listener, and the thread.
\<close>

record start_input =
  si_dup :: "io_error + int"
  si_fs :: fs
  si_probe :: probe
  si_ifs :: "io_error + ifaddrs list"
  si_ifs_again :: "io_error + ifaddrs list"
  si_tcp :: "ip_addr \<times> u16 \<Rightarrow> io_error option"
  si_local_addr :: bool
  si_spawned :: bool

datatype start_end = Returned int | StartPanicked

definition V4_LOCALHOST :: ip_addr where "V4_LOCALHOST = V4 (ipv4 127 0 0 1)"
definition V6_LOCALHOST :: ip_addr where "V6_LOCALHOST = V6 (replicate 15 0 @ [1])"

definition no_tailnet_address :: "io_error + ifaddrs list \<Rightarrow> bool" where
  "no_tailnet_address ifs = (case tailscale_addrs ifs of Inr v \<Rightarrow> v = [] | Inl e \<Rightarrow> True)"

definition start_config :: "io_error + ifaddrs list \<Rightarrow> int \<Rightarrow> bool \<Rightarrow> server_config" where
  "start_config ifs port prefetch = server_config_default\<lparr>
     cf_binds := (if no_tailnet_address ifs then [Any] else [Tailscale, Addr V4_LOCALHOST, Addr V6_LOCALHOST]),
     cf_port := (if 0 < port \<and> port \<le> 65535 then of_int port else cf_port server_config_default),
     cf_prefetch := prefetch\<rparr>"

definition bound_port :: "start_input \<Rightarrow> server_config \<Rightarrow> (ip_addr \<times> u16) list \<Rightarrow> u16" where
  "bound_port inp cfg ls = (case ls of l # _ \<Rightarrow> if si_local_addr inp then snd l else cf_port cfg | [] \<Rightarrow> cf_port cfg)"

definition spawn_exporter :: "start_input \<Rightarrow> usbfs_device \<Rightarrow> server_config \<Rightarrow> (ip_addr \<times> u16) list \<Rightarrow> jni_state \<Rightarrow> start_end \<times> jni_state" where
  "spawn_exporter inp d cfg ls s =
     (let port = bound_port inp cfg ls in
      if si_spawned inp
      then (Returned (uint port), s\<lparr>js_running := Some \<lparr>rn_stop = False, rn_port = port, rn_listeners = ls,
              rn_source = single_device d, rn_opts = \<lparr>so_prefetch = cf_prefetch cfg, so_hotkey = None\<rparr>, rn_alive = True\<rparr>\<rparr>)
      else (Returned ERR_INTERNAL, s))"

definition start :: "start_input \<Rightarrow> int \<Rightarrow> bool \<Rightarrow> bool \<Rightarrow> jni_state \<Rightarrow> start_end \<times> jni_state" where
  "start inp port bind_any prefetch s =
     (if js_poisoned s then (Returned ERR_INTERNAL, s)
      else if js_running s \<noteq> None then (Returned ERR_ALREADY_RUNNING, s)
      else case from_borrowed_fd (si_fs inp) (si_probe inp) (si_dup inp) of
        Inl Panicked \<Rightarrow> (StartPanicked, s\<lparr>js_poisoned := True\<rparr>)
      | Inl (Failed e) \<Rightarrow>
          (Returned (if io_error_kind e = InvalidData then ERR_NOT_A_USB_DEVICE else ERR_BAD_DESCRIPTOR), s)
      | Inr d \<Rightarrow>
          if no_tailnet_address (si_ifs inp) \<and> \<not> bind_any then (Returned ERR_BIND_FAILED, s)
          else let cfg = start_config (si_ifs inp) port prefetch
               in case bind_all (si_tcp inp) (si_ifs_again inp) cfg of
                    Inl e \<Rightarrow> (Returned ERR_BIND_FAILED, s)
                  | Inr ls \<Rightarrow> spawn_exporter inp d cfg ls s)"

text \<open>Stopping takes the exporter out, raises its flag and waits for its thread.\<close>

definition stop :: "jni_state \<Rightarrow> running option \<times> jni_state" where
  "stop s =
     (if js_poisoned s then (None, s)
      else (map_option (\<lambda>r. r\<lparr>rn_stop := True, rn_alive := False\<rparr>) (js_running s), s\<lparr>js_running := None\<rparr>))"

definition running_port :: "jni_state \<Rightarrow> u16 option" where
  "running_port s = (if js_poisoned s then None else map_option rn_port (js_running s))"

definition native_start :: "start_input \<Rightarrow> int \<Rightarrow> int \<Rightarrow> int \<Rightarrow> jni_state \<Rightarrow> start_end \<times> jni_state" where
  "native_start inp port bind_any prefetch s = start inp port (bind_any \<noteq> 0) (prefetch \<noteq> 0) s"

definition native_stop :: "jni_state \<Rightarrow> int \<times> jni_state" where
  "native_stop s = (0, snd (stop s))"

definition native_is_running :: "jni_state \<Rightarrow> int" where
  "native_is_running s = (if js_poisoned s then 0 else case js_running s of Some r \<Rightarrow> uint (rn_port r) | None \<Rightarrow> 0)"

text \<open>
  The life of the process: calls from the app, one at a time since every one takes the lock, and
  the accept thread that may end on its own when polling its listeners fails.
\<close>

inductive jni_step :: "jni_state \<Rightarrow> jni_state \<Rightarrow> bool" where
  Start: "native_start inp port bind_any prefetch s = (r, s') \<Longrightarrow> jni_step s s'"
| Stop: "native_stop s = (r, s') \<Longrightarrow> jni_step s s'"
| ThreadEnds: "js_running s = Some r \<Longrightarrow> jni_step s (s\<lparr>js_running := Some (r\<lparr>rn_alive := False\<rparr>)\<rparr>)"

inductive_cases jni_stepE: "jni_step s s'"

section \<open>What the app can rely on\<close>

lemma start_config_sel:
  "cf_binds (start_config ifs port pf) = (if no_tailnet_address ifs then [Any] else [Tailscale, Addr V4_LOCALHOST, Addr V6_LOCALHOST])"
  "cf_prefetch (start_config ifs port pf) = pf"
  by (simp_all add: start_config_def)

lemma start_config_port:
  "uint (cf_port (start_config ifs port pf)) = (if 0 < port \<and> port \<le> 65535 then port else 3240)"
  by (simp add: start_config_def server_config_default_def USBIP_PORT_def uint_word_of_int_eq take_bit_int_eq_self)

text \<open>The two ways a start ends: nothing changed and a negative code, or an exporter with its port.\<close>

lemma start_cases:
  assumes "start inp port bind_any prefetch s = (res, s')"
  obtains (failed) c where "res = Returned c" "c \<in> {ERR_ALREADY_RUNNING, ERR_BAD_DESCRIPTOR, ERR_NOT_A_USB_DEVICE, ERR_BIND_FAILED, ERR_INTERNAL}" "s' = s"
  | (panicked) "res = StartPanicked" "s' = s\<lparr>js_poisoned := True\<rparr>" "js_running s = None"
  | (started) r ls d where "res = Returned (uint (rn_port r))" "s' = s\<lparr>js_running := Some r\<rparr>" "js_running s = None" "\<not> js_poisoned s"
      "bind_all (si_tcp inp) (si_ifs_again inp) (start_config (si_ifs inp) port prefetch) = Inr ls"
      "r = \<lparr>rn_stop = False, rn_port = bound_port inp (start_config (si_ifs inp) port prefetch) ls, rn_listeners = ls,
         rn_source = single_device d, rn_opts = \<lparr>so_prefetch = prefetch, so_hotkey = None\<rparr>, rn_alive = True\<rparr>"
      "\<not> no_tailnet_address (si_ifs inp) \<or> bind_any"
      "from_borrowed_fd (si_fs inp) (si_probe inp) (si_dup inp) = Inr d"
  using assms
  by (auto simp: start_def spawn_exporter_def Let_def start_config_sel
      split: if_splits sum.splits enum_error.splits)

lemma bound_port_eq:
  assumes "bind_all tcp ifs cfg = Inr ls"
  shows "bound_port inp cfg ls = cf_port cfg"
proof (cases ls)
  case (Cons l ls')
  then show ?thesis using bind_all_sound [OF assms, of "fst l" "snd l"] by (simp add: bound_port_def)
qed (simp add: bound_port_def)

text \<open>
  C21. The exporter of the app stays where it is meant to: after a start that succeeds, every
  listener is on the port that was returned, and on loopback or an address of the tailnet; only
  when the app allowed it and no tailnet address was found is it on a wildcard. The port is the
  one asked for when that is a port, and 3240 otherwise; only the one device is offered.
\<close>

theorem android_stays_confined:
  assumes "native_start inp port bind_any prefetch s = (Returned c, s')" "0 < c"
  shows "\<exists>r d. js_running s' = Some r \<and> js_running s = None \<and> rn_source r = single_device d
    \<and> c = (if 0 < port \<and> port \<le> 65535 then port else 3240) \<and> native_is_running s' = c \<and> rn_listeners r \<noteq> []
    \<and> (\<forall>(a, p) \<in> set (rn_listeners r). uint p = c
        \<and> (a \<in> {V4_LOCALHOST, V6_LOCALHOST} \<or> tailnet_address (si_ifs_again inp) a
           \<or> bind_any \<noteq> 0 \<and> no_tailnet_address (si_ifs inp) \<and> a \<in> {V4_UNSPECIFIED, V6_UNSPECIFIED}))"
  using assms(1) unfolding native_start_def
proof (cases rule: start_cases)
  case (failed c')
  then show ?thesis
    using assms(2) by (auto simp: ERR_ALREADY_RUNNING_def ERR_BAD_DESCRIPTOR_def ERR_NOT_A_USB_DEVICE_def
        ERR_BIND_FAILED_def ERR_INTERNAL_def)
next
  case (started r ls d)
  let ?cfg = "start_config (si_ifs inp) port (prefetch \<noteq> 0)"
  have port: "rn_port r = cf_port ?cfg" using started(6) bound_port_eq [OF started(5)] by simp
  then have c: "c = (if 0 < port \<and> port \<le> 65535 then port else 3240)"
    using started(1) start_config_port by simp
  have "uint p = c \<and> (a \<in> {V4_LOCALHOST, V6_LOCALHOST} \<or> tailnet_address (si_ifs_again inp) a
      \<or> bind_any \<noteq> 0 \<and> no_tailnet_address (si_ifs inp) \<and> a \<in> {V4_UNSPECIFIED, V6_UNSPECIFIED})"
    if "(a, p) \<in> set ls" for a p
    using bind_all_sound [OF started(5) that] started(1,7) port by (auto simp: start_config_sel split: if_splits)
  moreover have "ls \<noteq> []"
    using started(5) by (auto simp: bind_all_def rbind_Inr_iff Let_def split: if_splits)
  ultimately show ?thesis
    using started c by (intro exI [of _ r] exI [of _ d]) (auto simp: native_is_running_def)
qed simp

definition android_fs :: fs where
  "android_fs = \<lparr>fs_read_to_string = (\<lambda>p. None), fs_read = (\<lambda>p. Inl (Io PermissionDenied [])), fs_exists = (\<lambda>p. False),
     fs_read_dir = (\<lambda>p. Inl (Io PermissionDenied [])), fs_read_link = (\<lambda>p. None)\<rparr>"

definition sample_start_input :: start_input where
  "sample_start_input = \<lparr>si_dup = Inr 7, si_fs = android_fs,
     si_probe = sample_probe\<lparr>pb_reads := [Inr (descriptors_bytes hid_extra sample_descriptors)], pb_control := (\<lambda>_. Inr (1, [1]))\<rparr>,
     si_ifs = Inr sample_ifs, si_ifs_again = Inr sample_ifs, si_tcp = (\<lambda>_. None), si_local_addr = True, si_spawned = True\<rparr>"

lemma sample_adopted: "\<exists>d. from_borrowed_fd (si_fs sample_start_input) (si_probe sample_start_input) (si_dup sample_start_input) = Inr d"
proof -
  let ?bs = "descriptors_bytes hid_extra sample_descriptors"
  let ?pb = "si_probe sample_start_input"
  have pb: "pb_seek ?pb = None" "pb_reads ?pb = [Inr ?bs]" "pb_control ?pb = (\<lambda>_. Inr (1, [1]))"
    by (simp_all add: sample_start_input_def sample_probe_def)
  have "length ?bs \<le> 65536" "?bs \<noteq> []"
    by (simp_all add: descriptors_bytes_def device_bytes_def sample_descriptors_def sample_config_def config_bytes_def
        config_body_def alt_items_def le16_def hid_extra_def)
  then have blob: "read_descriptor_blob ?pb = Inr ?bs" by (simp add: read_descriptor_blob_def pb)
  have c: "config sample_descriptors 1 = Some sample_config"
    by (simp add: config_def sample_descriptors_def sample_config_def)
  then have a: "active_config android_fs ?pb busid sample_descriptors = 1" for busid
    by (simp add: active_config_def control_def pb sysfs_config_value_def sysfs_attr_def android_fs_def)
  have "\<exists>d. build android_fs ?pb 0 0 = Inr d"
    using blob a c parse_descriptors_bytes [OF sample_configs_ok] by (simp add: build_def Let_def)
  moreover have "si_fs sample_start_input = android_fs" "si_dup sample_start_input = Inr 7"
    by (simp_all add: sample_start_input_def)
  moreover have "numbers_for_fd android_fs 7 = None" by (simp add: numbers_for_fd_def android_fs_def)
  ultimately show ?thesis by (simp add: from_borrowed_fd_def adopt_raw_fd_def)
qed

lemma sample_tailnet: "\<exists>a as. tailscale_addrs (Inr sample_ifs) = Inr (a # as)"
  by (simp add: sample_ifs_def tailscale_addrs_def tailscale_v4_range is_tailscale_v6_def TAILSCALE_V6_PREFIX_def
      ipv4_def of_be32_def starts_with_def v4_loopback_def v6_loopback_def v6_link_local_def of_be16_def)

lemma android_started: "\<exists>s'. native_start sample_start_input 0 0 1 jni_new = (Returned 3240, s') \<and> native_is_running s' = 3240"
proof -
  let ?i = sample_start_input and ?cfg = "start_config (Inr sample_ifs) 0 True"
  obtain d where d: "from_borrowed_fd (si_fs ?i) (si_probe ?i) (si_dup ?i) = Inr d" using sample_adopted by blast
  obtain a as where ts: "tailscale_addrs (Inr sample_ifs) = Inr (a # as)" using sample_tailnet by blast
  then have tn: "\<not> no_tailnet_address (Inr sample_ifs)" by (simp add: no_tailnet_address_def)
  then have "resolve_loop (Inr sample_ifs) (cf_binds ?cfg) [] = Inr (a # as @ [V4_LOCALHOST, V6_LOCALHOST])"
    by (simp add: start_config_sel ts)
  then obtain ls where ls: "bind_all (\<lambda>_. None) (Inr sample_ifs) ?cfg = Inr ls"
    by (simp add: bind_all_def resolve_binds_def Let_def)
  have sel: "si_ifs ?i = Inr sample_ifs" "si_ifs_again ?i = Inr sample_ifs" "si_tcp ?i = (\<lambda>_. None)" "si_spawned ?i"
    by (simp_all add: sample_start_input_def)
  have "native_start ?i 0 0 1 jni_new = spawn_exporter ?i d ?cfg ls jni_new"
    by (simp add: native_start_def start_def jni_new_def d tn ls sel)
  moreover have "uint (cf_port ?cfg) = 3240" by (simp add: start_config_port)
  ultimately show ?thesis
    by (simp add: spawn_exporter_def bound_port_eq [OF ls] sel Let_def native_is_running_def jni_new_def)
qed

theorem android_stays_confined_witness:
  "\<exists>r :: running. list_all (\<lambda>(a, p). p = 3240 \<and> (a \<in> {V4_LOCALHOST, V6_LOCALHOST} \<or> tailnet_address (Inr sample_ifs) a)) (rn_listeners r)
     \<and> rn_listeners r \<noteq> []"
proof -
  obtain s' where s': "native_start sample_start_input 0 0 1 jni_new = (Returned 3240, s')" using android_started by blast
  have "si_ifs_again sample_start_input = Inr sample_ifs" by (simp add: sample_start_input_def)
  moreover have "uint p = 3240 \<longleftrightarrow> p = 3240" for p :: u16 by (simp add: word_uint_eq_iff)
  ultimately show ?thesis using android_stays_confined [OF s'] by (auto simp: list_all_iff)
qed

text \<open>A start that does not succeed changes nothing, unless it panics on malformed descriptors.\<close>

lemma failed_start_leaves_no_state:
  assumes "native_start inp port bind_any prefetch s = (Returned c, s')" "c \<le> 0"
  shows "s' = s \<and> c \<in> {- 5 .. - 1}"
  using assms(1) unfolding native_start_def
proof (cases rule: start_cases)
  case (failed c')
  then show ?thesis
    by (auto simp: ERR_ALREADY_RUNNING_def ERR_BAD_DESCRIPTOR_def ERR_NOT_A_USB_DEVICE_def ERR_BIND_FAILED_def ERR_INTERNAL_def)
next
  case (started r ls d)
  have "0 < uint (rn_port r)"
    using started(6) bound_port_eq [OF started(5), of inp] start_config_port [of "si_ifs inp" port "prefetch \<noteq> 0"]
    by (simp split: if_splits)
  then show ?thesis using started(1) assms(2) by simp
qed simp

lemma stop_idempotent: "snd (stop (snd (stop s))) = snd (stop s)" "fst (stop (snd (stop s))) = None"
  by (simp_all add: stop_def)

text \<open>
  A process that was never poisoned reports a port exactly while an exporter is registered; that
  it is registered does not mean that its thread is alive.
\<close>

lemma jni_ports: "jni_step\<^sup>*\<^sup>* jni_new s \<Longrightarrow> js_running s = Some r \<Longrightarrow> 0 < uint (rn_port r)"
proof (induction arbitrary: r rule: rtranclp_induct)
  case (step s s')
  from step.hyps(2) show ?case
  proof (cases rule: jni_step.cases)
    case (Start inp port bind_any prefetch res)
    from Start(1) show ?thesis
      unfolding native_start_def
    proof (cases rule: start_cases)
      case (started r' ls d)
      then show ?thesis
        using step.prems bound_port_eq [OF started(5), of inp] start_config_port [of "si_ifs inp" port "prefetch \<noteq> 0"]
        by (auto split: if_splits)
    qed (use step in auto)
  next
    case (Stop res)
    then show ?thesis using step by (auto simp: native_stop_def stop_def split: if_splits)
  next
    case (ThreadEnds r')
    then show ?thesis using step by auto
  qed
qed (simp add: jni_new_def)

theorem dead_thread_still_reported:
  assumes "jni_step\<^sup>*\<^sup>* jni_new s" "js_running s = Some r" "\<not> js_poisoned s"
  shows "jni_step s (s\<lparr>js_running := Some (r\<lparr>rn_alive := False\<rparr>)\<rparr>)
    \<and> 0 < native_is_running (s\<lparr>js_running := Some (r\<lparr>rn_alive := False\<rparr>)\<rparr>)
    \<and> start inp port ba pf (s\<lparr>js_running := Some (r\<lparr>rn_alive := False\<rparr>)\<rparr>)
        = (Returned ERR_ALREADY_RUNNING, s\<lparr>js_running := Some (r\<lparr>rn_alive := False\<rparr>)\<rparr>)"
  using assms(2,3) jni_ports [OF assms(1,2)] by (auto simp: native_is_running_def start_def intro: jni_step.ThreadEnds)

theorem dead_thread_still_reported_witness:
  "\<exists>s. 0 < native_is_running s \<and> map_option rn_alive (js_running s) = Some False"
proof -
  obtain s where s: "native_start sample_start_input 0 0 1 jni_new = (Returned 3240, s)"
    and run: "native_is_running s = 3240"
    using android_started by blast
  then have "jni_step\<^sup>*\<^sup>* jni_new s" by (blast intro: jni_step.Start)
  moreover obtain r where "js_running s = Some r" "\<not> js_poisoned s"
    using run by (auto simp: native_is_running_def split: if_splits option.splits)
  ultimately show ?thesis using dead_thread_still_reported [of s r] by fastforce
qed

end
