(* ===== verification/Vhci.thy ===== *)
theory Vhci
  imports Backend "HOL-Library.List_Lexorder" "HOL-Library.Char_ord"
begin

text \<open>
  The client's kernel side, \<open>usbfwd-attach/src/vhci.rs\<close>: the port table of \<open>vhci-hcd\<close> as sysfs
  shows it, the records \<open>usbip attach\<close> leaves behind, and the \<open>usbip\<close> commands. The file
  system and the outcome of a command are parameters.
\<close>

definition PLATFORM_DIR :: string where "PLATFORM_DIR = ''/sys/devices/platform''"
definition STATE_DIR :: string where "STATE_DIR = ''/var/run/vhci_hcd''"

definition VDEV_ST_NULL :: u32 where "VDEV_ST_NULL = 4"
definition VDEV_ST_NOTASSIGNED :: u32 where "VDEV_ST_NOTASSIGNED = 5"
definition VDEV_ST_USED :: u32 where "VDEV_ST_USED = 6"
definition VDEV_ST_ERROR :: u32 where "VDEV_ST_ERROR = 7"

record port =
  pt_hub :: string
  pt_port :: u32
  pt_status :: u32
  pt_speed :: u32
  pt_devid :: u32
  pt_sockfd :: u32
  pt_local_busid :: string

definition in_use :: "port \<Rightarrow> bool" where
  "in_use p \<longleftrightarrow> pt_status p = VDEV_ST_USED"

definition occupied :: "port \<Rightarrow> bool" where
  "occupied p \<longleftrightarrow> pt_status p \<noteq> VDEV_ST_NULL"

definition failed :: "port \<Rightarrow> bool" where
  "failed p \<longleftrightarrow> pt_status p = VDEV_ST_ERROR"

definition status_name :: "port \<Rightarrow> string" where
  "status_name p =
     (if pt_status p = VDEV_ST_NULL then ''free''
      else if pt_status p = VDEV_ST_NOTASSIGNED then ''not assigned''
      else if pt_status p = VDEV_ST_USED then ''in use''
      else if pt_status p = VDEV_ST_ERROR then ''error''
      else ''unknown'')"

record attach_record =
  ar_port :: u32
  ar_host :: string
  ar_service_port :: string
  ar_busid :: string

record vhci_fs = fs +
  fs_is_dir :: "string \<Rightarrow> bool"

definition hcd_dir :: "vhci_fs \<Rightarrow> string option" where
  "hcd_dir f = (let d = PLATFORM_DIR @ ''/vhci_hcd.0'' in if fs_is_dir f d then Some d else None)"

definition loaded :: "vhci_fs \<Rightarrow> bool" where
  "loaded f \<longleftrightarrow> hcd_dir f \<noteq> None"

section \<open>Ports\<close>

definition hex_u32 :: "string \<Rightarrow> u32" where
  "hex_u32 s = (case from_str_radix 0xffffffff 16 s of Some n \<Rightarrow> of_nat n | None \<Rightarrow> 0)"

definition dec_u32 :: "string \<Rightarrow> u32" where
  "dec_u32 s = (case parse_u32 s of Some n \<Rightarrow> n | None \<Rightarrow> 0)"

text \<open>One line of the table; a line with fewer than seven fields or without numbers is no port.\<close>

definition parse_port :: "string \<Rightarrow> port option" where
  "parse_port line =
     (case split_whitespace line of
        hub # a # b # c # d # e # g # _ \<Rightarrow>
          (case (parse_u32 a, parse_u32 b, parse_u32 c) of
             (Some p, Some status, Some sp) \<Rightarrow>
               Some \<lparr>pt_hub = hub, pt_port = p, pt_status = status, pt_speed = sp, pt_devid = hex_u32 d,
                     pt_sockfd = dec_u32 e, pt_local_busid = g\<rparr>
           | _ \<Rightarrow> None)
      | _ \<Rightarrow> None)"

definition parse_status :: "string \<Rightarrow> port list" where
  "parse_status s = List.map_filter parse_port (str_lines s)"

definition is_status_file :: "string \<Rightarrow> bool" where
  "is_status_file n \<longleftrightarrow> n = ''status'' \<or> starts_with n ''status.''"

definition ports :: "vhci_fs \<Rightarrow> io_error + port list" where
  "ports f = (case hcd_dir f of
     None \<Rightarrow> Inl (Io NotFound (PLATFORM_DIR @ ''/vhci_hcd.0 is missing; vhci-hcd is not loaded''))
   | Some dir \<Rightarrow> rbind (fs_read_dir f dir) (\<lambda>es.
       Inr (concat (map (\<lambda>n. case fs_read_to_string f (dir @ ''/'' @ n) of Some s \<Rightarrow> parse_status s | None \<Rightarrow> [])
         (sort (filter is_status_file (List.map_filter id es)))))))"

definition occupied_ports :: "vhci_fs \<Rightarrow> io_error + u32 list" where
  "occupied_ports f = rbind (ports f) (\<lambda>ps. Inr (map pt_port (filter occupied ps)))"

definition newly_used :: "u32 list \<Rightarrow> u32 list \<Rightarrow> u32 option" where
  "newly_used before after = find (\<lambda>p. p \<notin> set before) after"

section \<open>Records\<close>

definition records_readable :: "vhci_fs \<Rightarrow> bool option" where
  "records_readable f = (if \<not> fs_exists f STATE_DIR then None else Some (is_ok (fs_read_dir f STATE_DIR)))"

definition parse_record :: "vhci_fs \<Rightarrow> string \<Rightarrow> attach_record option" where
  "parse_record f name =
     (case strip_prefix_str ''port'' name of
        None \<Rightarrow> None
      | Some n \<Rightarrow>
          (case parse_u32 n of
             None \<Rightarrow> None
           | Some p \<Rightarrow>
               (case fs_read_to_string f (STATE_DIR @ ''/'' @ name) of
                  None \<Rightarrow> None
                | Some s \<Rightarrow>
                    (case split_whitespace s of
                       a # b # c # _ \<Rightarrow> Some \<lparr>ar_port = p, ar_host = a, ar_service_port = b, ar_busid = c\<rparr>
                     | _ \<Rightarrow> None))))"

definition records :: "vhci_fs \<Rightarrow> attach_record list" where
  "records f = (case fs_read_dir f STATE_DIR of
     Inl e \<Rightarrow> []
   | Inr es \<Rightarrow> sort_key ar_port (List.map_filter (parse_record f) (List.map_filter id es)))"

section \<open>Commands\<close>

text \<open>
  A command that cannot be started has an error with a kind and a text; one that ran has a
  status and what it wrote to its standard error.
\<close>

record command_output =
  co_success :: bool
  co_status :: string
  co_stderr :: string

type_synonym command = "string list \<Rightarrow> (io_kind \<times> string) + command_output"

text \<open>\<open>run\<close>: a failure is told by the program's own message where it has one.\<close>

definition run_error :: "string list \<Rightarrow> io_kind \<times> string \<Rightarrow> io_error" where
  "run_error args e = Io (fst e)
     (''running '' @ quoted (join '' '' args) @ '': '' @ snd e @ ''. Install the usbip tools ''
        @ ''(Fedora: '' @ quoted ''dnf install usbip'' @ '') or set '' @ quoted ''usbip'' @ '' in [attach].'')"

definition run_usbip :: "command \<Rightarrow> string \<Rightarrow> string list \<Rightarrow> io_error + string" where
  "run_usbip cmd usbip args =
     (case cmd (usbip # args) of
        Inl e \<Rightarrow> Inl (run_error (usbip # args) e)
      | Inr out \<Rightarrow>
          let msg = trim (co_stderr out) in
          if co_success out then Inr msg
          else Inl (Io Other (if msg = [] then quoted (join '' '' (usbip # args)) @ '' exited with '' @ co_status out else msg)))"

definition attach_args :: "string \<Rightarrow> u16 \<Rightarrow> string \<Rightarrow> string list" where
  "attach_args host p busid =
     [''--tcp-port'', show_nat (unat p), ''attach'', ''--remote='' @ host, ''--busid='' @ busid]"

definition vhci_attach :: "command \<Rightarrow> string \<Rightarrow> string \<Rightarrow> u16 \<Rightarrow> string \<Rightarrow> io_error + unit" where
  "vhci_attach cmd usbip host p busid = rbind (run_usbip cmd usbip (attach_args host p busid)) (\<lambda>_. Inr ())"

definition detach_args :: "u32 \<Rightarrow> string list" where
  "detach_args p = [''detach'', ''--port='' @ show_nat (unat p)]"

definition vhci_detach :: "command \<Rightarrow> string \<Rightarrow> u32 \<Rightarrow> io_error + unit" where
  "vhci_detach cmd usbip p = rbind (run_usbip cmd usbip (detach_args p)) (\<lambda>_. Inr ())"

definition vhci_modprobe :: "vhci_fs \<Rightarrow> command \<Rightarrow> io_error + unit" where
  "vhci_modprobe f cmd =
     (if loaded f then Inr ()
      else case cmd [''modprobe'', ''vhci-hcd''] of
        Inl e \<Rightarrow> Inl (Io (fst e) (''running modprobe: '' @ snd e))
      | Inr out \<Rightarrow>
          if co_success out then Inr ()
          else Inl (Io Other (''modprobe vhci-hcd failed: '' @ trim (co_stderr out) @ ''. On Fedora the module is in ''
                 @ ''kernel-modules-extra; on SteamOS it is built in.'')))"

end
