(* ===== verification/Toml.thy ===== *)
theory Toml
  imports Rust_Str
begin

text \<open>
  The configuration file's syntax, \<open>usbfwd-attach/src/toml.rs\<close>: a line-based parser for tables,
  arrays of tables and keys whose values are strings, integers, booleans or arrays of strings.
  The scanners of the code look at one \<open>char\<close> at a time and act only on ASCII ones, so they
  run over the bytes of the text here.
\<close>

datatype toml_value = VStr string | VInt int | VBool bool | VArray "string list"

fun type_name :: "toml_value \<Rightarrow> string" where
  "type_name (VStr s) = ''string''"
| "type_name (VInt i) = ''integer''"
| "type_name (VBool b) = ''boolean''"
| "type_name (VArray a) = ''array''"

record toml_table =
  tb_name :: string
  tb_line :: nat
  tb_entries :: "(string \<times> toml_value \<times> nat) list"

definition table_get :: "toml_table \<Rightarrow> string \<Rightarrow> toml_value option" where
  "table_get t key = map_option (\<lambda>e. fst (snd e)) (find (\<lambda>e. fst e = key) (tb_entries t))"

definition line_of :: "toml_table \<Rightarrow> string \<Rightarrow> nat" where
  "line_of t key = (case find (\<lambda>e. fst e = key) (tb_entries t) of Some e \<Rightarrow> snd (snd e) | None \<Rightarrow> tb_line t)"

definition unknown_keys :: "toml_table \<Rightarrow> string list \<Rightarrow> (string \<times> nat) list" where
  "unknown_keys t known = map (\<lambda>e. (fst e, snd (snd e))) (filter (\<lambda>e. fst e \<notin> set known) (tb_entries t))"

record toml_error =
  te_line :: nat
  te_message :: string

abbreviation terr :: "nat \<Rightarrow> string \<Rightarrow> toml_error + 'a" where
  "terr line msg \<equiv> Inl \<lparr>te_line = line, te_message = msg\<rparr>"

definition toml_error_to_string :: "toml_error \<Rightarrow> string" where
  "toml_error_to_string e = ''line '' @ show_nat (te_line e) @ '': '' @ te_message e"

abbreviation quote1 :: char where "quote1 \<equiv> CHR 0x27"
abbreviation quote2 :: char where "quote2 \<equiv> CHR 0x22"
abbreviation backslash :: char where "backslash \<equiv> CHR 0x5C"

section \<open>Quoting\<close>

text \<open>
  The three scanners share one automaton: outside a string, inside one that a given quote
  ends, or just after a backslash in a string with double quotes.
\<close>

datatype qstate = Outside | Inside char | Escaped

fun qnext :: "qstate \<Rightarrow> char \<Rightarrow> qstate" where
  "qnext Outside c = (if c = quote2 \<or> c = quote1 then Inside c else Outside)"
| "qnext (Inside q) c =
     (if c = backslash \<and> q = quote2 then Escaped else if c = q then Outside else Inside q)"
| "qnext Escaped c = Inside quote2"

fun brackets_loop :: "qstate \<Rightarrow> int \<Rightarrow> string \<Rightarrow> bool" where
  "brackets_loop q depth [] = (depth = 0 \<and> q = Outside)"
| "brackets_loop q depth (c # s) =
     brackets_loop (qnext q c)
       (if q = Outside \<and> c = CHR ''['' then depth + 1
        else if q = Outside \<and> c = CHR '']'' then depth - 1 else depth) s"

definition brackets_balanced :: "string \<Rightarrow> bool" where
  "brackets_balanced s = brackets_loop Outside 0 s"

fun strip_loop :: "qstate \<Rightarrow> string \<Rightarrow> string" where
  "strip_loop q [] = []"
| "strip_loop q (c # s) = (if q = Outside \<and> c = CHR ''#'' then [] else c # strip_loop (qnext q c) s)"

definition strip_comment :: "string \<Rightarrow> string" where
  "strip_comment line = strip_loop Outside line"

fun split_loop :: "qstate \<Rightarrow> string \<Rightarrow> string \<Rightarrow> string list" where
  "split_loop q cur [] = [cur]"
| "split_loop q cur (c # s) =
     (if q = Outside \<and> c = CHR '','' then cur # split_loop Outside [] s
      else split_loop (qnext q c) (cur @ [c]) s)"

definition split_array :: "string \<Rightarrow> string list" where
  "split_array inner = split_loop Outside [] inner"

section \<open>Values\<close>

text \<open>The first \<open>char\<close> of a text, by its leading byte; only an error message shows it.\<close>

definition first_char :: "string \<Rightarrow> string" where
  "first_char s = (case s of [] \<Rightarrow> [] | c # r \<Rightarrow>
     take (let n = (of_char c :: nat) in if n < 0x80 then 1 else if n < 0xe0 then 2 else if n < 0xf0 then 3 else 4) s)"

fun unescape :: "nat \<Rightarrow> string \<Rightarrow> toml_error + string" where
  "unescape line [] = Inr []"
| "unescape line (c # s) =
     (if c \<noteq> backslash then rbind (unescape line s) (\<lambda>t. Inr (c # t))
      else case s of
        [] \<Rightarrow> terr line ''string ends in a backslash''
      | e # r \<Rightarrow>
          if e = CHR ''n'' then rbind (unescape line r) (\<lambda>t. Inr (CHR 0x0A # t))
          else if e = CHR ''t'' then rbind (unescape line r) (\<lambda>t. Inr (CHR 0x09 # t))
          else if e = CHR ''r'' then rbind (unescape line r) (\<lambda>t. Inr (CHR 0x0D # t))
          else if e = quote2 then rbind (unescape line r) (\<lambda>t. Inr (quote2 # t))
          else if e = backslash then rbind (unescape line r) (\<lambda>t. Inr (backslash # t))
          else terr line (''unsupported escape '' @ quoted (backslash # first_char s)))"

definition parse_string :: "string \<Rightarrow> nat \<Rightarrow> toml_error + string" where
  "parse_string text line =
     (let q = hd text in
      if length text < 2 \<or> last text \<noteq> q then terr line ''unterminated string''
      else let body = butlast (tl text) in
        if q = quote1 then Inr body else unescape line body)"

definition parse_scalar :: "string \<Rightarrow> nat \<Rightarrow> toml_error + toml_value" where
  "parse_scalar text line =
     (if take 1 text = [quote2] \<or> take 1 text = [quote1] then rbind (parse_string text line) (\<lambda>s. Inr (VStr s))
      else case parse_i64 text of
        Some i \<Rightarrow> Inr (VInt i)
      | None \<Rightarrow> terr line (quoted text @ '' is not a string, integer or boolean''))"

text \<open>
  \<open>parse_value\<close> calls itself on the parts of an array, which are shorter. A part that is an
  array itself is parsed and then refused for its type.
\<close>

fun fold_parts :: "(string \<Rightarrow> toml_error + toml_value) \<Rightarrow> nat \<Rightarrow> string list \<Rightarrow> toml_error + string list" where
  "fold_parts f line [] = Inr []"
| "fold_parts f line (p # ps) =
     (if trim p = [] then fold_parts f line ps
      else rbind (f (trim p)) (\<lambda>v. case v of
             VStr s \<Rightarrow> rbind (fold_parts f line ps) (\<lambda>out. Inr (s # out))
           | other \<Rightarrow> terr line (''arrays may only hold strings, found a '' @ type_name other)))"

lemma fold_parts_cong [fundef_cong]:
  "(\<And>p. p \<in> set qs \<Longrightarrow> trim p \<noteq> [] \<Longrightarrow> f (trim p) = g (trim p)) \<Longrightarrow> ps = qs \<Longrightarrow> l = l' \<Longrightarrow>
     fold_parts f l ps = fold_parts g l' qs"
proof (induction qs arbitrary: ps)
  case (Cons q qs)
  then show ?case by (auto intro!: arg_cong2 [where f = rbind] split: toml_value.split)
qed simp

lemma split_loop_length: "p \<in> set (split_loop q cur s) \<Longrightarrow> length p \<le> length cur + length s"
  by (induction q cur s rule: split_loop.induct) (fastforce split: if_splits)+

lemma trim_length: "length (trim s) \<le> length s"
proof -
  have "length (strip_lead ws r) \<le> length r" for ws r
    by (rule suffix_length_le [OF strip_lead_suffix])
  then show ?thesis
    unfolding trim_def trim_end_def trim_start_def by (metis length_rev order.trans)
qed

function parse_value :: "string \<Rightarrow> nat \<Rightarrow> toml_error + toml_value" where
  "parse_value text line =
     (if text = ''true'' then Inr (VBool True)
      else if text = ''false'' then Inr (VBool False)
      else if text = [] then terr line ''missing value''
      else if take 1 text = ''['' then
        (case strip_suffix_str '']'' (drop 1 text) of
           None \<Rightarrow> terr line ''unterminated array''
         | Some inner \<Rightarrow>
             rbind (fold_parts (\<lambda>part. parse_value part line) line (split_array inner)) (\<lambda>out. Inr (VArray out)))
      else parse_scalar text line)"
  by auto
termination
proof (relation "measure (\<lambda>(text, line). length text)", simp, clarsimp)
  fix s inner p :: string
  assume "s \<noteq> []" and inner: "strip_suffix_str '']'' (drop (Suc 0) s) = Some inner" and p: "p \<in> set (split_array inner)"
  have "length inner < length s"
    using inner \<open>s \<noteq> []\<close> by (cases s) (auto simp: strip_suffix_str_def strip_prefix_str_def split: if_splits)
  then show "length (trim p) < length s"
    using trim_length [of p] split_loop_length [of p Outside "[]" inner] p by (simp add: split_array_def)
qed

declare parse_value.simps [simp del]

section \<open>Tables\<close>

definition table_new :: "string \<Rightarrow> nat \<Rightarrow> toml_table" where
  "table_new name line = \<lparr>tb_name = name, tb_line = line, tb_entries = []\<rparr>"

text \<open>An array may run over several lines: pull until the brackets balance or the lines end.\<close>

fun pull_array :: "string \<Rightarrow> string list \<Rightarrow> string \<times> string list" where
  "pull_array owned [] = (owned, [])"
| "pull_array owned (l # ls) =
     (if brackets_balanced owned then (owned, l # ls) else pull_array (owned @ '' '' @ strip_comment l) ls)"

definition value_text :: "nat \<Rightarrow> string \<Rightarrow> string list \<Rightarrow> toml_error + (string \<times> string list)" where
  "value_text lineno vt ls =
     (if take 1 (trim_start vt) = ''['' \<and> \<not> brackets_balanced vt then
        (case pull_array vt ls of (owned, ls') \<Rightarrow>
           if brackets_balanced owned then Inr (owned, ls') else terr lineno ''unterminated array'')
      else Inr (vt, ls))"

definition parse_entry :: "nat \<Rightarrow> string \<Rightarrow> toml_table \<Rightarrow> string list
    \<Rightarrow> toml_error + ((string \<times> toml_value \<times> nat) \<times> string list)" where
  "parse_entry lineno line cur ls =
     (case split_once (CHR ''='') line of
        None \<Rightarrow> terr lineno (''expected '' @ quoted ''key = value'' @ '', found '' @ quoted line)
      | Some (k, vt) \<Rightarrow>
          let key = trim k in
          if key = [] then terr lineno ''empty key''
          else if list_ex (\<lambda>e. fst e = key) (tb_entries cur)
          then terr lineno (quoted key @ '' is set twice in the same table'')
          else rbind (value_text lineno vt ls) (\<lambda>(vt', ls').
            rbind (parse_value (trim vt') lineno) (\<lambda>v. Inr ((key, v, lineno), ls'))))"

lemma pull_array_length: "length (snd (pull_array owned ls)) \<le> length ls"
  by (induction owned ls rule: pull_array.induct) auto

lemma value_text_length: "value_text lineno vt ls = Inr (vt', ls') \<Longrightarrow> length ls' \<le> length ls"
  using pull_array_length [of vt ls] by (auto simp: value_text_def split: if_splits prod.splits)

lemma parse_entry_length: "parse_entry lineno line cur ls = Inr (e, ls') \<Longrightarrow> length ls' \<le> length ls"
  by (auto simp: parse_entry_def rbind_Inr_iff Let_def dest: value_text_length split: option.splits if_splits)

text \<open>\<open>i\<close> lines have been read; \<open>ls\<close> are the others.\<close>

function parse_lines :: "nat \<Rightarrow> string list \<Rightarrow> toml_table list \<Rightarrow> toml_table \<Rightarrow> toml_error + toml_table list" where
  "parse_lines i [] tables cur = Inr (tables @ [cur])"
| "parse_lines i (raw # ls) tables cur =
     (let lineno = i + 1; line = trim (strip_comment raw) in
      if line = [] then parse_lines lineno ls tables cur
      else case strip_prefix_str ''[['' line of
        Some rst \<Rightarrow>
          (case strip_suffix_str '']]'' rst of
             None \<Rightarrow> terr lineno ''unterminated [[table]] header''
           | Some name \<Rightarrow> parse_lines lineno ls (tables @ [cur]) (table_new (trim name) lineno))
      | None \<Rightarrow>
          (case strip_prefix_str ''['' line of
             Some rst \<Rightarrow>
               (case strip_suffix_str '']'' rst of
                  None \<Rightarrow> terr lineno ''unterminated [table] header''
                | Some name \<Rightarrow>
                    if list_ex (\<lambda>t. tb_name t = trim name) (tables @ [cur])
                    then terr lineno (''['' @ trim name @ ''] appears more than once'')
                    else parse_lines lineno ls (tables @ [cur]) (table_new (trim name) lineno))
           | None \<Rightarrow>
               (case parse_entry lineno line cur ls of
                  Inl e \<Rightarrow> Inl e
                | Inr (e, ls') \<Rightarrow>
                    parse_lines (lineno + (length ls - length ls')) ls' tables
                      (cur\<lparr>tb_entries := tb_entries cur @ [e]\<rparr>))))"
  by pat_completeness auto
termination
  by (relation "measure (\<lambda>(i, ls, tables, cur). length ls)") (auto dest: parse_entry_length)

declare parse_lines.simps [simp del]

definition toml_parse :: "string \<Rightarrow> toml_error + toml_table list" where
  "toml_parse input = rbind (parse_lines 0 (str_lines input) [] (table_new [] 0)) (\<lambda>tables.
     Inr (filter (\<lambda>t. tb_name t \<noteq> [] \<or> tb_entries t \<noteq> []) tables))"

section \<open>Printing\<close>

fun escape :: "string \<Rightarrow> string" where
  "escape [] = []"
| "escape (c # s) =
     (if c = CHR 0x0A then [backslash, CHR ''n''] else if c = CHR 0x09 then [backslash, CHR ''t'']
      else if c = CHR 0x0D then [backslash, CHR ''r''] else if c = quote2 then [backslash, quote2]
      else if c = backslash then [backslash, backslash] else [c]) @ escape s"

definition print_str :: "string \<Rightarrow> string" where
  "print_str s = quote2 # escape s @ [quote2]"

fun print_rest :: "string list \<Rightarrow> string" where
  "print_rest [] = []"
| "print_rest (s # ss) = '', '' @ print_str s @ print_rest ss"

fun print_value :: "toml_value \<Rightarrow> string" where
  "print_value (VStr s) = print_str s"
| "print_value (VInt i) = (if i < 0 then CHR ''-'' # show_nat (nat (- i)) else show_nat (nat i))"
| "print_value (VBool b) = (if b then ''true'' else ''false'')"
| "print_value (VArray []) = ''[]''"
| "print_value (VArray (s # ss)) = ''['' @ print_str s @ print_rest ss @ '']''"

definition print_entry :: "string \<times> toml_value \<times> nat \<Rightarrow> string" where
  "print_entry e = fst e @ '' = '' @ print_value (fst (snd e))"

definition print_table :: "toml_table \<Rightarrow> string list" where
  "print_table t = (''[['' @ tb_name t @ '']]'') # map print_entry (tb_entries t)"

definition print_lines :: "string list \<Rightarrow> string" where
  "print_lines ls = concat (map (\<lambda>l. l @ [CHR 0x0A]) ls)"

definition print_tables :: "toml_table list \<Rightarrow> string" where
  "print_tables ts = print_lines (concat (map print_table ts))"

definition bare :: "string \<Rightarrow> bool" where
  "bare s \<longleftrightarrow> s \<noteq> [] \<and> list_all (\<lambda>c. graphic c \<and> c \<notin> {CHR ''['', CHR ''#'', CHR ''='', quote1, quote2}) s"

fun value_ok :: "toml_value \<Rightarrow> bool" where
  "value_ok (VInt i) = (- (2 ^ 63) \<le> i \<and> i < 2 ^ 63)"
| "value_ok v = True"

definition table_ok :: "toml_table \<Rightarrow> bool" where
  "table_ok t \<longleftrightarrow> bare (tb_name t) \<and> distinct (map fst (tb_entries t))
     \<and> list_all (\<lambda>e. bare (fst e) \<and> value_ok (fst (snd e))) (tb_entries t)"

text \<open>The line numbers a printed table gets, when \<open>i\<close> lines come before it.\<close>

definition number_table :: "nat \<Rightarrow> toml_table \<Rightarrow> toml_table" where
  "number_table i t = \<lparr>tb_name = tb_name t, tb_line = i + 1,
     tb_entries = map (\<lambda>(j, e). (fst e, fst (snd e), i + 2 + j)) (enumerate 0 (tb_entries t))\<rparr>"

fun number_tables :: "nat \<Rightarrow> toml_table list \<Rightarrow> toml_table list" where
  "number_tables i [] = []"
| "number_tables i (t # ts) = number_table i t # number_tables (i + 1 + length (tb_entries t)) ts"

lemma strip_escape: "strip_loop (Inside quote2) (escape s @ quote2 # t) = escape s @ quote2 # strip_loop Outside t"
  by (induction s) auto

lemma brackets_escape: "brackets_loop (Inside quote2) d (escape s @ quote2 # t) = brackets_loop Outside d t"
  by (induction s) auto

lemma split_escape: "split_loop (Inside quote2) cur (escape s @ quote2 # t) = split_loop Outside (cur @ escape s @ [quote2]) t"
  by (induction s arbitrary: cur) auto

lemma unescape_escape: "unescape l (escape s) = Inr s"
  by (induction s) auto

lemma strip_print_str: "strip_loop Outside (print_str s @ t) = print_str s @ strip_loop Outside t"
  by (simp add: print_str_def strip_escape)

lemma strip_print_rest: "strip_loop Outside (print_rest ss @ t) = print_rest ss @ strip_loop Outside t"
  by (induction ss) (simp_all add: strip_print_str)

lemma strip_plain: "list_all (\<lambda>c. c \<notin> {CHR ''#'', quote1, quote2}) s \<Longrightarrow> strip_loop Outside (s @ t) = s @ strip_loop Outside t"
  by (induction s) auto

lemma brackets_print_rest: "brackets_loop Outside d (print_rest ss @ t) = brackets_loop Outside d t"
  by (induction ss) (simp_all add: print_str_def brackets_escape)

lemma split_print_rest: "split_loop Outside cur (print_rest ss) = cur # map (\<lambda>s. CHR '' '' # print_str s) ss"
  by (induction ss arbitrary: cur) (simp_all add: print_str_def split_escape)

lemma graphic_quotes [simp]: "graphic quote1" "graphic quote2" "graphic (CHR '']'')" "graphic (CHR ''['')"
  by (simp_all add: graphic_def)

lemma trim_print_str [simp]: "trim (print_str s) = print_str s"
  by (rule trim_id) (simp add: print_str_def)

lemma strip_lead_space: "strip_lead ws_chars (CHR '' '' # s) = strip_lead ws_chars s"
proof -
  have "lead ws_chars (CHR '' '' # s) = 1" by (simp add: ws_chars_def)
  then show ?thesis by (subst strip_lead.simps) simp
qed

lemma trim_start_space [simp]: "trim_start (CHR '' '' # s) = trim_start s"
  by (simp add: trim_start_def strip_lead_space)

lemma trim_space [simp]: "trim (CHR '' '' # s) = trim s"
  by (simp add: trim_def)

lemma parse_print_str: "parse_value (print_str s) l = Inr (VStr s)"
proof -
  have "print_str s \<noteq> ''true''" "print_str s \<noteq> ''false''" by (simp_all add: print_str_def)
  then show ?thesis
    by (subst parse_value.simps)
      (simp add: parse_scalar_def parse_string_def Let_def print_str_def butlast_append unescape_escape)
qed

lemma fold_parts_print:
  "fold_parts (\<lambda>p. parse_value p l) l (map (\<lambda>s. CHR '' '' # print_str s) ss) = Inr ss"
  by (induction ss) (simp_all add: parse_print_str, simp add: print_str_def)

lemma parse_print_array:
  "parse_value (''['' @ print_str s @ print_rest ss @ '']'') l = Inr (VArray (s # ss))"
proof -
  let ?in = "print_str s @ print_rest ss"
  have "split_array ?in = print_str s # map (\<lambda>s. CHR '' '' # print_str s) ss"
    by (simp add: split_array_def print_str_def split_escape split_print_rest [unfolded print_str_def])
  moreover have "strip_suffix_str '']'' (?in @ '']'') = Some ?in" by (rule strip_suffix_append)
  moreover have "print_str s \<noteq> []" by (simp add: print_str_def)
  ultimately show ?thesis
    by (simp add: parse_value.simps [of "CHR ''['' # _"] fold_parts_print parse_print_str)
qed

lemma digit_plain: "to_digit 10 c \<noteq> None \<Longrightarrow> c \<notin> {CHR ''#'', quote1, quote2, CHR ''['', CHR ''t'', CHR ''f'', CHR ''-'', CHR ''+''}"
  by (auto simp: to_digit_def digit_value_def)

lemma show_nat_hd: "\<exists>c s. show_nat n = c # s \<and> to_digit 10 c \<noteq> None"
  using show_nat_chars [of n] by (cases "show_nat n") (auto simp: show_nat_def)

lemma parse_print_int:
  assumes "value_ok (VInt i)"
  shows "parse_i64 (print_value (VInt i)) = Some i"
proof (cases "i < 0")
  case True
  have "radix_loop (2 ^ 63) 10 0 (show_nat (nat (- i))) = Some (nat (- i))"
    using assms by (simp only: show_nat_def, intro radix_loop_show) auto
  with True show ?thesis by (simp add: parse_i64_def show_nat_def del: radix_loop.simps)
next
  case False
  obtain c s where cs: "show_nat (nat i) = c # s" "to_digit 10 c \<noteq> None" using show_nat_hd by blast
  have "from_str_radix (2 ^ 63 - 1) 10 (show_nat (nat i)) = Some (nat i)"
    using assms False from_str_radix_show [of "nat i" "2 ^ 63 - 1" 10 0] by (simp add: show_nat_def pad_left_def)
  with False cs digit_plain [OF cs(2)] show ?thesis by (simp add: parse_i64_def)
qed

lemma parse_print_value:
  assumes "value_ok v"
  shows "parse_value (print_value v) l = Inr v"
proof (cases v)
  case (VInt i)
  obtain c s where cs: "print_value v = c # s" "c = CHR ''-'' \<or> to_digit 10 c \<noteq> None"
    using VInt show_nat_hd [of "nat i"] by (cases "i < 0") auto
  have "c \<notin> {quote1, quote2, CHR ''['', CHR ''t'', CHR ''f''}" using cs(2) digit_plain [of c] by auto
  then show ?thesis
    using parse_print_int [of i] assms VInt cs(1)
    by (subst parse_value.simps) (simp add: parse_scalar_def del: print_value.simps)
next
  case (VArray ss)
  then show ?thesis
    using parse_print_array [of _ _ l] by (cases ss) (simp_all, simp add: parse_value.simps split_array_def strip_suffix_str_def strip_prefix_str_def trim_def)
next
  case (VStr s)
  then show ?thesis by (simp add: parse_print_str)
qed (simp_all add: parse_value.simps)

lemma print_value_graphic: "print_value v \<noteq> [] \<and> graphic (hd (print_value v)) \<and> graphic (last (print_value v))"
proof (cases v)
  case (VInt i)
  have "show_nat n \<noteq> [] \<and> graphic (hd (show_nat n)) \<and> graphic (last (show_nat n))" for n
    using show_nat_chars [of n] by (cases "show_nat n" rule: rev_cases; cases "show_nat n") (auto simp: show_nat_def list_all_iff)
  with VInt show ?thesis by (simp add: graphic_def)
next
  case (VArray ss)
  then show ?thesis by (cases ss) simp_all
qed (simp_all add: print_str_def graphic_def)

lemma strip_print_value: "strip_loop Outside (print_value v) = print_value v"
proof (cases v)
  case (VInt i)
  have "strip_loop Outside (show_nat n) = show_nat n" for n
    using strip_plain [of "show_nat n" "[]"] show_nat_chars [of n] digit_plain by (force simp: list_all_iff)
  with VInt show ?thesis by simp
next
  case (VArray ss)
  then show ?thesis by (cases ss) (simp_all add: strip_print_str strip_print_rest)
next
  case (VStr s)
  then show ?thesis using strip_print_str [of s "[]"] by simp
qed simp

lemma value_text_print: "value_text n (CHR '' '' # print_value v) ls = Inr (CHR '' '' # print_value v, ls)"
proof -
  have "take 1 (print_value v) = ''['' \<Longrightarrow> brackets_balanced (CHR '' '' # print_value v)"
  proof (cases v)
    case (VInt i)
    assume "take 1 (print_value v) = ''[''"
    with VInt show ?thesis using show_nat_hd [of "nat i"] digit_plain by (auto split: if_splits)
  next
    case (VArray ss)
    then show ?thesis
      by (cases ss) (simp_all add: brackets_balanced_def print_str_def brackets_escape brackets_print_rest)
  qed (simp_all add: print_str_def split: if_splits)
  moreover have "trim_start (print_value v) = print_value v"
    using print_value_graphic [of v] trim_start_graphic [of "hd (print_value v)" "tl (print_value v)"] by simp
  ultimately show ?thesis by (auto simp: value_text_def)
qed

subsection \<open>Lines\<close>

lemma lines_loop_line:
  "CHR 0x0A \<notin> set l \<Longrightarrow> lines_loop cur (l @ CHR 0x0A # s) = strip_cr (cur @ l) # lines_loop [] s"
  by (induction l arbitrary: cur) auto

definition line_ok :: "string \<Rightarrow> bool" where
  "line_ok l \<longleftrightarrow> CHR 0x0A \<notin> set l \<and> l \<noteq> [] \<and> graphic (last l)"

lemma strip_cr_ok: "line_ok l \<Longrightarrow> strip_cr l = l"
  by (auto simp: strip_cr_def line_ok_def graphic_def)

lemma str_lines_print: "list_all line_ok ls \<Longrightarrow> str_lines (print_lines ls) = ls"
  unfolding str_lines_def
  by (induction ls) (simp_all add: print_lines_def lines_loop_line strip_cr_ok, simp add: line_ok_def lines_loop_line strip_cr_ok)

lemma escape_lf: "CHR 0x0A \<notin> set (escape s)"
  by (induction s) auto

lemma graphic_lf: "list_all graphic s \<Longrightarrow> CHR 0x0A \<notin> set s"
  by (induction s) (auto simp: graphic_def)

lemma print_rest_lf: "CHR 0x0A \<notin> set (print_rest ss)"
  by (induction ss) (auto simp: print_str_def escape_lf)

lemma print_value_lf: "CHR 0x0A \<notin> set (print_value v)"
proof (cases v)
  case (VInt i)
  have "list_all graphic (show_nat n)" for n using show_nat_chars [of n] by (simp add: list_all_iff)
  then show ?thesis using VInt graphic_lf by auto
next
  case (VArray ss)
  then show ?thesis by (cases ss) (simp_all add: print_str_def escape_lf print_rest_lf)
qed (simp_all add: print_str_def escape_lf)

lemma bareD:
  assumes "bare s"
  shows "s \<noteq> []" "graphic (hd s)" "graphic (last s)" "CHR 0x0A \<notin> set s" "CHR ''='' \<notin> set s" "hd s \<noteq> CHR ''[''"
    "list_all (\<lambda>c. c \<notin> {CHR ''#'', quote1, quote2}) s"
  using assms graphic_lf [of s] by (auto simp: bare_def list_all_iff)

lemma line_ok_entry: "bare (fst e) \<Longrightarrow> line_ok (print_entry e)"
  using print_value_graphic [of "fst (snd e)"] print_value_lf [of "fst (snd e)"] bareD [of "fst e"]
  by (simp add: line_ok_def print_entry_def)

lemma line_ok_table: "table_ok t \<Longrightarrow> list_all line_ok (print_table t)"
proof -
  assume ok: "table_ok t"
  then have "CHR 0x0A \<notin> set (tb_name t)" using bareD(4) by (simp add: table_ok_def)
  then have "line_ok (''[['' @ tb_name t @ '']]'')" by (simp add: line_ok_def)
  moreover have "\<forall>e \<in> set (tb_entries t). line_ok (print_entry e)"
    using ok line_ok_entry by (simp add: table_ok_def list_all_iff)
  ultimately show ?thesis by (simp add: print_table_def list_all_iff)
qed

lemma trim_end_space: "trim_end (s @ '' '') = trim_end s"
proof -
  have "lead (map rev ws_chars) (CHR '' '' # rev s) = 1" by (simp add: ws_chars_def)
  then have "strip_lead (map rev ws_chars) (CHR '' '' # rev s) = strip_lead (map rev ws_chars) (rev s)"
    by (subst strip_lead.simps) simp
  then show ?thesis by (simp add: trim_end_def)
qed

lemma trim_bare: "bare s \<Longrightarrow> trim s = s"
  using bareD [of s] by (intro trim_id) simp

lemma trim_bare_space: "bare s \<Longrightarrow> trim (s @ '' '') = s"
proof -
  assume b: "bare s"
  then obtain c r where "s = c # r" "graphic c" using bareD by (cases s) fastforce+
  then have "trim_start (s @ '' '') = s @ '' ''" "trim_start s = s" by simp_all
  then show ?thesis using trim_bare [OF b] by (simp only: trim_def trim_end_space)
qed

subsection \<open>Reading back what was printed\<close>

lemma entry_line:
  assumes "bare (fst e)"
  shows "trim (strip_comment (print_entry e)) = print_entry e"
proof -
  let ?p = "fst e @ '' = ''"
  have "list_all (\<lambda>c. c \<notin> {CHR ''#'', quote1, quote2}) ?p" using bareD(7) [OF assms] by simp
  then have "strip_comment (print_entry e) = print_entry e"
    using strip_plain [of ?p "print_value (fst (snd e))"]
    by (simp add: strip_comment_def print_entry_def strip_print_value)
  moreover have "trim (print_entry e) = print_entry e"
    using bareD [OF assms] print_value_graphic [of "fst (snd e)"] by (intro trim_id) (simp add: print_entry_def)
  ultimately show ?thesis by simp
qed

lemma parse_entry_print:
  assumes "bare (fst e)" "value_ok (fst (snd e))" "fst e \<notin> fst ` set (tb_entries cur)"
  shows "parse_entry n (print_entry e) cur ls = Inr ((fst e, fst (snd e), n), ls)"
proof -
  let ?v = "fst (snd e)"
  have "split_once (CHR ''='') (print_entry e) = Some (fst e @ '' '', CHR '' '' # print_value ?v)"
    using bareD(5) [OF assms(1)] split_once_append [of "CHR ''=''" "fst e @ '' ''" "CHR '' '' # print_value ?v"]
    by (simp add: print_entry_def)
  moreover have "trim (print_value ?v) = print_value ?v"
    using print_value_graphic [of ?v] by (intro trim_id) simp
  moreover have "\<not> list_ex (\<lambda>x. fst x = fst e) (tb_entries cur)" using assms(3) by (auto simp: list_ex_iff image_iff)
  ultimately show ?thesis
    using assms(1,2) bareD(1) [OF assms(1)]
    by (simp add: parse_entry_def Let_def trim_bare_space value_text_print parse_print_value)
qed

lemma parse_lines_entry:
  assumes "bare (fst e)" "value_ok (fst (snd e))" "fst e \<notin> fst ` set (tb_entries cur)"
  shows "parse_lines i (print_entry e # ls) tables cur =
    parse_lines (i + 1) ls tables (cur\<lparr>tb_entries := tb_entries cur @ [(fst e, fst (snd e), i + 1)]\<rparr>)"
proof -
  obtain c r where "print_entry e = c # r" "c \<noteq> CHR ''[''"
    using bareD(1,6) [OF assms(1)] by (cases "fst e") (auto simp: print_entry_def)
  then have "strip_prefix_str ''[['' (print_entry e) = None" "strip_prefix_str ''['' (print_entry e) = None" "print_entry e \<noteq> []"
    by (simp_all add: strip_prefix_str_def)
  then show ?thesis
    using parse_entry_print [OF assms, of "i + 1" ls] entry_line [OF assms(1)]
    by (simp add: parse_lines.simps(2) Let_def)
qed

lemma parse_lines_header:
  assumes "bare name"
  shows "parse_lines i ((''[['' @ name @ '']]'') # ls) tables cur = parse_lines (i + 1) ls (tables @ [cur]) (table_new name (i + 1))"
proof -
  let ?l = "''[['' @ name @ '']]''"
  have "strip_comment ?l = ?l"
    using bareD(7) [OF assms] strip_plain [of ?l "[]"] by (simp add: strip_comment_def)
  moreover have "trim ?l = ?l" by (rule trim_id) simp
  moreover have "strip_prefix_str ''[['' ?l = Some (name @ '']]'')" by (simp add: strip_prefix_str_def)
  ultimately show ?thesis
    using strip_suffix_append [of "'']]''" name] trim_bare [OF assms]
    by (subst parse_lines.simps) (simp add: Let_def)
qed

lemma parse_lines_entries:
  assumes "list_all (\<lambda>e. bare (fst e) \<and> value_ok (fst (snd e))) es" "distinct (map fst es)"
    and "fst ` set es \<inter> fst ` set (tb_entries cur) = {}"
  shows "parse_lines i (map print_entry es @ ls) tables cur =
    parse_lines (i + length es) ls tables
      (cur\<lparr>tb_entries := tb_entries cur @ map (\<lambda>(j, e). (fst e, fst (snd e), i + 1 + j)) (enumerate 0 es)\<rparr>)"
  using assms
proof (induction es arbitrary: i cur)
  case (Cons e es)
  let ?cur = "cur\<lparr>tb_entries := tb_entries cur @ [(fst e, fst (snd e), i + 1)]\<rparr>"
  have "parse_lines i (print_entry e # map print_entry es @ ls) tables cur =
      parse_lines (i + 1) (map print_entry es @ ls) tables ?cur"
    using Cons.prems by (intro parse_lines_entry) auto
  also have "\<dots> = parse_lines (i + 1 + length es) ls tables
      (?cur\<lparr>tb_entries := tb_entries ?cur @ map (\<lambda>(j, e). (fst e, fst (snd e), i + 1 + 1 + j)) (enumerate 0 es)\<rparr>)"
    using Cons.prems by (intro Cons.IH) auto
  also have "map (\<lambda>(j, e). (fst e, fst (snd e), i + 1 + 1 + j)) (enumerate 0 es) =
      map (\<lambda>(j, e). (fst e, fst (snd e), i + 1 + j)) (enumerate 1 es)"
    by (intro nth_equalityI) (auto simp: nth_enumerate_eq)
  finally show ?case by simp
qed simp

lemma parse_lines_tables:
  assumes "list_all table_ok ts"
  shows "parse_lines i (concat (map print_table ts)) tables cur = Inr (tables @ cur # number_tables i ts)"
  using assms
proof (induction ts arbitrary: i tables cur)
  case (Cons t ts)
  let ?new = "table_new (tb_name t) (i + 1)"
  have ok: "bare (tb_name t)" "list_all (\<lambda>e. bare (fst e) \<and> value_ok (fst (snd e))) (tb_entries t)" "distinct (map fst (tb_entries t))"
    using Cons.prems by (simp_all add: table_ok_def)
  have "number_table i t = ?new\<lparr>tb_entries := tb_entries ?new @ map (\<lambda>(j, e). (fst e, fst (snd e), i + 1 + 1 + j)) (enumerate 0 (tb_entries t))\<rparr>"
    by (simp add: number_table_def table_new_def)
  then have "parse_lines i (print_table t @ concat (map print_table ts)) tables cur =
      parse_lines (i + 1 + length (tb_entries t)) (concat (map print_table ts)) (tables @ [cur]) (number_table i t)"
    using parse_lines_header [OF ok(1), of i "map print_entry (tb_entries t) @ concat (map print_table ts)" tables cur]
      parse_lines_entries [OF ok(2,3), of ?new "i + 1" "concat (map print_table ts)" "tables @ [cur]"]
    by (simp add: print_table_def table_new_def)
  also have "\<dots> = Inr ((tables @ [cur]) @ number_table i t # number_tables (i + 1 + length (tb_entries t)) ts)"
    using Cons by (intro Cons.IH) simp
  finally show ?case by simp
qed (simp add: parse_lines.simps)

lemma str_lines_print_tables:
  assumes "list_all table_ok ts"
  shows "str_lines (print_tables ts) = concat (map print_table ts)"
proof -
  have "list_all line_ok (concat (map print_table ts))"
    using assms line_ok_table by (auto simp: list_all_iff)
  then show ?thesis by (simp add: print_tables_def str_lines_print)
qed

lemma number_tables_kept:
  "list_all table_ok ts \<Longrightarrow> filter (\<lambda>t. tb_name t = [] \<longrightarrow> tb_entries t \<noteq> []) (number_tables i ts) = number_tables i ts"
  by (induction ts arbitrary: i) (auto simp: number_table_def table_ok_def bare_def)

lemma table_new_root [simp]: "tb_name (table_new n i) = n" "tb_entries (table_new n i) = []"
  by (simp_all add: table_new_def)

lemmas print_tables_simps = toml_parse_def str_lines_print_tables parse_lines_tables number_tables_kept

text \<open>
  C18. Reading a configuration file gives back what was written to it: a list of tables with
  well-formed names and keys, no key twice in a table, any texts as strings and 64-bit integers,
  printed as arrays of tables, is read back table for table, entry for entry and in order, each
  with the number of the line it stands on.
\<close>

theorem toml_roundtrip:
  assumes "list_all table_ok ts"
  shows "toml_parse (print_tables ts) = Inr (number_tables 0 ts)"
  using assms by (simp add: print_tables_simps)

definition sample_tables :: "toml_table list" where
  "sample_tables = [\<lparr>tb_name = ''server'', tb_line = 1, tb_entries =
       [(''host'', VStr (''deck #1'' @ [quote2, backslash]), 2), (''port'', VInt 3240, 3),
        (''devices'', VArray [''28de:1304'', ''28de:*''], 4), (''auto_attach'', VBool True, 5)]\<rparr>,
     \<lparr>tb_name = ''attach'', tb_line = 6, tb_entries = [(''retry_min'', VInt (- 5), 7)]\<rparr>]"

theorem toml_roundtrip_witness: "toml_parse (print_tables sample_tables) = Inr sample_tables"
proof -
  have "list_all table_ok sample_tables"
    by (simp add: sample_tables_def table_ok_def bare_def graphic_def)
  moreover have "number_tables 0 sample_tables = sample_tables"
    by (simp add: sample_tables_def number_table_def)
  ultimately show ?thesis using toml_roundtrip [of sample_tables] by simp
qed

end
