(* ===== verification/Config.thy ===== *)
theory Config
  imports Toml Device_Filter Wire
begin

text \<open>
  The configuration of the attaching daemon, \<open>usbfwd-attach/src/config.rs\<close>: servers, discovery
  and attach settings out of the tables of the file, with the checks that refuse a file.
  A \<open>Duration\<close> is a number of milliseconds.
\<close>

definition SERVER_KEYS :: "string list" where
  "SERVER_KEYS = [''name'', ''host'', ''port'', ''devices'', ''auto_attach'']"

definition DISCOVERY_KEYS :: "string list" where
  "DISCOVERY_KEYS = [''mdns'', ''mdns_timeout'']"

definition ATTACH_KEYS :: "string list" where
  "ATTACH_KEYS = [''poll_interval'', ''retry_min'', ''retry_max'', ''connect_timeout'', ''usbip'', ''modprobe'',
     ''stop_after_first'']"

definition from_secs :: "nat \<Rightarrow> nat" where "from_secs n = 1000 * n"

record server_entry =
  se_name :: string
  se_host :: string
  se_port :: u16
  se_devices :: device_filter
  se_auto_attach :: bool

record discovery =
  dc_mdns :: bool
  dc_mdns_timeout :: nat

definition discovery_default :: discovery where
  "discovery_default = \<lparr>dc_mdns = False, dc_mdns_timeout = from_secs 2\<rparr>"

record attach_opts =
  ao_poll_interval :: nat
  ao_retry_min :: nat
  ao_retry_max :: nat
  ao_connect_timeout :: nat
  ao_usbip :: string
  ao_modprobe :: bool
  ao_stop_after_first :: bool

definition attach_default :: attach_opts where
  "attach_default = \<lparr>ao_poll_interval = from_secs 5, ao_retry_min = from_secs 2, ao_retry_max = from_secs 60,
     ao_connect_timeout = from_secs 3, ao_usbip = ''usbip'', ao_modprobe = True, ao_stop_after_first = True\<rparr>"

record attach_config =
  ac_servers :: "server_entry list"
  ac_discovery :: discovery
  ac_attach :: attach_opts

definition attach_config_default :: attach_config where
  "attach_config_default = \<lparr>ac_servers = [], ac_discovery = discovery_default, ac_attach = attach_default\<rparr>"

record config_error =
  ce_path :: "string option"
  ce_message :: string

definition config_error_to_string :: "config_error \<Rightarrow> string" where
  "config_error_to_string e = (case ce_path e of Some p \<Rightarrow> p @ '': '' @ ce_message e | None \<Rightarrow> ce_message e)"

definition bad :: "string \<Rightarrow> config_error + 'a" where
  "bad message = Inl \<lparr>ce_path = None, ce_message = message\<rparr>"

definition at_line :: "nat \<Rightarrow> string \<Rightarrow> string" where
  "at_line n s = ''line '' @ show_nat n @ '': '' @ s"

section \<open>Keys\<close>

definition reject_unknown :: "toml_table \<Rightarrow> string list \<Rightarrow> config_error + unit" where
  "reject_unknown t known = (case unknown_keys t known of
     (k, line) # _ \<Rightarrow> bad (at_line line (quoted k @ '' is not a valid key in ['' @ tb_name t @ '']''))
   | [] \<Rightarrow> Inr ())"

definition wrong_type :: "toml_table \<Rightarrow> string \<Rightarrow> string \<Rightarrow> toml_value \<Rightarrow> config_error + 'a" where
  "wrong_type t key what v = bad (at_line (line_of t key) (quoted key @ '' must be '' @ what @ '', not a '' @ type_name v))"

definition get_string :: "toml_table \<Rightarrow> string \<Rightarrow> config_error + string option" where
  "get_string t key = (case table_get t key of
     None \<Rightarrow> Inr None | Some (VStr s) \<Rightarrow> Inr (Some s) | Some v \<Rightarrow> wrong_type t key ''a string'' v)"

definition get_integer :: "toml_table \<Rightarrow> string \<Rightarrow> config_error + int option" where
  "get_integer t key = (case table_get t key of
     None \<Rightarrow> Inr None | Some (VInt i) \<Rightarrow> Inr (Some i) | Some v \<Rightarrow> wrong_type t key ''an integer'' v)"

definition get_boolean :: "toml_table \<Rightarrow> string \<Rightarrow> config_error + bool option" where
  "get_boolean t key = (case table_get t key of
     None \<Rightarrow> Inr None | Some (VBool b) \<Rightarrow> Inr (Some b) | Some v \<Rightarrow> wrong_type t key ''true or false'' v)"

definition seconds :: "toml_table \<Rightarrow> string \<Rightarrow> nat \<Rightarrow> config_error + nat" where
  "seconds t key dflt = rbind (get_integer t key) (\<lambda>r. case r of
     None \<Rightarrow> Inr dflt
   | Some n \<Rightarrow> if 0 \<le> n then Inr (from_secs (nat n))
       else bad (at_line (line_of t key) (quoted key @ '' cannot be negative ('' @ show_int n @ '')'')))"

definition or_else :: "'a option \<Rightarrow> 'a \<Rightarrow> 'a" where
  "or_else r d = (case r of Some a \<Rightarrow> a | None \<Rightarrow> d)"

section \<open>Tables\<close>

definition port_from :: "toml_table \<Rightarrow> config_error + u16" where
  "port_from t = rbind (get_integer t ''port'') (\<lambda>r. case r of
     None \<Rightarrow> Inr USBIP_PORT
   | Some p \<Rightarrow> if 1 \<le> p \<and> p \<le> 65535 then Inr (word_of_int p)
       else bad (at_line (line_of t ''port'') (quoted ''port'' @ '' '' @ show_int p @ '' is out of range'')))"

definition filter_at :: "toml_table \<Rightarrow> string \<Rightarrow> config_error + device_filter" where
  "filter_at t s = (case filter_from_str s of Inr f \<Rightarrow> Inr f | Inl e \<Rightarrow> bad (at_line (line_of t ''devices'') e))"

definition devices_from :: "toml_table \<Rightarrow> config_error + device_filter" where
  "devices_from t = (case table_get t ''devices'' of
     None \<Rightarrow> Inr filter_default
   | Some (VArray a) \<Rightarrow> filter_at t (join '','' a)
   | Some (VStr s) \<Rightarrow> filter_at t s
   | Some v \<Rightarrow> wrong_type t ''devices'' ''an array of vid:pid patterns'' v)"

definition server_from :: "toml_table \<Rightarrow> config_error + server_entry" where
  "server_from t =
     rbind (reject_unknown t SERVER_KEYS) (\<lambda>_.
     rbind (get_string t ''host'') (\<lambda>h. case h of
       None \<Rightarrow> bad (at_line (tb_line t) (''[[server]] needs a '' @ quoted ''host''))
     | Some host \<Rightarrow>
         if trim host = [] then bad (at_line (line_of t ''host'') (quoted ''host'' @ '' is empty''))
         else rbind (port_from t) (\<lambda>port.
              rbind (devices_from t) (\<lambda>devices.
              rbind (get_string t ''name'') (\<lambda>name.
              rbind (get_boolean t ''auto_attach'') (\<lambda>auto.
                Inr \<lparr>se_name = or_else name host, se_host = host, se_port = port, se_devices = devices,
                     se_auto_attach = or_else auto True\<rparr>))))))"

definition discovery_from :: "toml_table \<Rightarrow> config_error + discovery" where
  "discovery_from t =
     rbind (reject_unknown t DISCOVERY_KEYS) (\<lambda>_.
     rbind (get_boolean t ''mdns'') (\<lambda>m.
     rbind (seconds t ''mdns_timeout'' (dc_mdns_timeout discovery_default)) (\<lambda>timeout.
       Inr \<lparr>dc_mdns = or_else m (dc_mdns discovery_default), dc_mdns_timeout = timeout\<rparr>)))"

definition attach_fields :: "toml_table \<Rightarrow> config_error + attach_opts" where
  "attach_fields t =
     rbind (seconds t ''poll_interval'' (ao_poll_interval attach_default)) (\<lambda>poll.
     rbind (seconds t ''retry_min'' (ao_retry_min attach_default)) (\<lambda>rmin.
     rbind (seconds t ''retry_max'' (ao_retry_max attach_default)) (\<lambda>rmax.
     rbind (seconds t ''connect_timeout'' (ao_connect_timeout attach_default)) (\<lambda>ct.
     rbind (get_string t ''usbip'') (\<lambda>usbip.
     rbind (get_boolean t ''modprobe'') (\<lambda>modprobe.
     rbind (get_boolean t ''stop_after_first'') (\<lambda>stop.
       Inr \<lparr>ao_poll_interval = poll, ao_retry_min = rmin, ao_retry_max = rmax, ao_connect_timeout = ct,
            ao_usbip = or_else usbip (ao_usbip attach_default), ao_modprobe = or_else modprobe (ao_modprobe attach_default),
            ao_stop_after_first = or_else stop (ao_stop_after_first attach_default)\<rparr>)))))))"

definition attach_from :: "toml_table \<Rightarrow> config_error + attach_opts" where
  "attach_from t =
     rbind (reject_unknown t ATTACH_KEYS) (\<lambda>_.
     rbind (attach_fields t) (\<lambda>a.
       if ao_retry_max a < ao_retry_min a
       then bad (at_line (line_of t ''retry_max'') (quoted ''retry_max'' @ '' is smaller than '' @ quoted ''retry_min''))
       else if ao_poll_interval a = 0
       then bad (at_line (line_of t ''poll_interval'') (quoted ''poll_interval'' @ '' must be at least 1s''))
       else Inr a))"

section \<open>The file\<close>

definition config_table :: "attach_config \<Rightarrow> toml_table \<Rightarrow> config_error + attach_config" where
  "config_table cfg t =
     (if tb_name t = ''server'' then rbind (server_from t) (\<lambda>s. Inr (cfg\<lparr>ac_servers := ac_servers cfg @ [s]\<rparr>))
      else if tb_name t = ''discovery'' then rbind (discovery_from t) (\<lambda>d. Inr (cfg\<lparr>ac_discovery := d\<rparr>))
      else if tb_name t = ''attach'' then rbind (attach_from t) (\<lambda>a. Inr (cfg\<lparr>ac_attach := a\<rparr>))
      else if tb_name t = [] then
        bad (at_line (max (tb_line t) 1) ''settings must live under [[server]], [discovery] or [attach]'')
      else bad (at_line (tb_line t) (''unknown section ['' @ tb_name t @ '']'')))"

fun config_tables :: "attach_config \<Rightarrow> toml_table list \<Rightarrow> config_error + attach_config" where
  "config_tables cfg [] = Inr cfg"
| "config_tables cfg (t # ts) = rbind (config_table cfg t) (\<lambda>cfg'. config_tables cfg' ts)"

fun same_name :: "string list \<Rightarrow> server_entry list \<Rightarrow> string option" where
  "same_name seen [] = None"
| "same_name seen (s # ss) = (if se_name s \<in> set seen then Some (se_name s) else same_name (seen @ [se_name s]) ss)"

definition config_parse :: "string \<Rightarrow> config_error + attach_config" where
  "config_parse src = (case toml_parse src of
     Inl e \<Rightarrow> bad (toml_error_to_string e)
   | Inr tables \<Rightarrow> rbind (config_tables attach_config_default tables) (\<lambda>cfg.
       if ac_servers cfg = [] \<and> \<not> dc_mdns (ac_discovery cfg)
       then bad (''no [[server]] entries and discovery is off, so there is nothing to attach to. ''
              @ ''Add a [[server]] with the exporter's MagicDNS name.'')
       else case same_name [] (ac_servers cfg) of
         Some n \<Rightarrow> bad (''two servers are both named '' @ quoted n)
       | None \<Rightarrow> Inr cfg))"

text \<open>Reading a file is a parameter, the text or the error of \<open>read_to_string\<close>.\<close>

definition config_load :: "(string \<Rightarrow> string + string) \<Rightarrow> string \<Rightarrow> config_error + attach_config" where
  "config_load read path = (case read path of
     Inl e \<Rightarrow> Inl \<lparr>ce_path = Some path, ce_message = e\<rparr>
   | Inr src \<Rightarrow> (case config_parse src of Inl e \<Rightarrow> Inl (e\<lparr>ce_path := Some path\<rparr>) | Inr c \<Rightarrow> Inr c))"

text \<open>\<open>Path::join\<close> with a relative path: a separator unless there is one or nothing before it.\<close>

definition path_join :: "string \<Rightarrow> string \<Rightarrow> string" where
  "path_join dir p = (if dir = [] \<or> last dir = CHR ''/'' then dir @ p else dir @ ''/'' @ p)"

definition default_paths :: "string option \<Rightarrow> string option \<Rightarrow> string list" where
  "default_paths xdg home = [''/etc/usbfwd/usbfwd.toml'']
     @ (case xdg of Some dir \<Rightarrow> [path_join dir ''usbfwd/usbfwd.toml'']
        | None \<Rightarrow> (case home of Some h \<Rightarrow> [path_join h ''.config/usbfwd/usbfwd.toml''] | None \<Rightarrow> []))
     @ [''usbfwd.toml'']"

definition find_default :: "(string \<Rightarrow> bool) \<Rightarrow> string option \<Rightarrow> string option \<Rightarrow> string option" where
  "find_default is_file xdg home = find is_file (default_paths xdg home)"

section \<open>What a loaded configuration is\<close>

definition server_ok :: "server_entry \<Rightarrow> bool" where
  "server_ok s \<longleftrightarrow> trim (se_host s) \<noteq> [] \<and> se_port s \<noteq> 0"

definition attach_ok :: "attach_opts \<Rightarrow> bool" where
  "attach_ok a \<longleftrightarrow> ao_retry_min a \<le> ao_retry_max a \<and> 1000 \<le> ao_poll_interval a"

lemma port_from_ok: "port_from t = Inr p \<Longrightarrow> p \<noteq> 0"
proof -
  have "1 \<le> i \<Longrightarrow> i \<le> 65535 \<Longrightarrow> (word_of_int i :: u16) \<noteq> 0" for i :: int
    by (auto simp: word_of_int_eq_0_iff dest: zdvd_imp_le)
  then show "port_from t = Inr p \<Longrightarrow> p \<noteq> 0"
    by (auto simp: port_from_def rbind_Inr_iff bad_def USBIP_PORT_def split: option.splits if_splits)
qed

lemma server_from_ok: "server_from t = Inr s \<Longrightarrow> server_ok s"
proof -
  assume a: "server_from t = Inr s"
  then obtain h where "get_string t ''host'' = Inr h"
    by (auto simp: server_from_def rbind_Inr_iff)
  with a obtain host where "h = Some host" "trim host \<noteq> []"
    by (cases h) (auto simp: server_from_def rbind_Inr_iff bad_def split: if_splits)
  with a \<open>get_string t ''host'' = Inr h\<close> obtain port where "port_from t = Inr port" "se_host s = host" "se_port s = port"
    by (auto simp: server_from_def rbind_Inr_iff)
  with \<open>trim host \<noteq> []\<close> show ?thesis by (simp add: server_ok_def port_from_ok)
qed

lemma seconds_whole: "seconds t k d = Inr n \<Longrightarrow> 1000 dvd d \<Longrightarrow> 1000 dvd n"
  by (auto simp: seconds_def rbind_Inr_iff bad_def from_secs_def split: option.splits if_splits)

lemma attach_from_ok: "attach_from t = Inr a \<Longrightarrow> attach_ok a"
proof -
  assume a: "attach_from t = Inr a"
  then have "ao_retry_min a \<le> ao_retry_max a" "ao_poll_interval a \<noteq> 0" "attach_fields t = Inr a"
    by (auto simp: attach_from_def rbind_Inr_iff bad_def split: if_splits)
  moreover from this(3) have "1000 dvd ao_poll_interval a"
    by (auto simp: attach_fields_def rbind_Inr_iff attach_default_def from_secs_def intro: seconds_whole)
  ultimately show ?thesis by (auto simp: attach_ok_def dest: dvd_imp_le)
qed

lemma config_tables_ok:
  "config_tables cfg ts = Inr cfg' \<Longrightarrow> list_all server_ok (ac_servers cfg) \<Longrightarrow> attach_ok (ac_attach cfg) \<Longrightarrow>
     list_all server_ok (ac_servers cfg') \<and> attach_ok (ac_attach cfg')"
proof (induction ts arbitrary: cfg)
  case (Cons t ts)
  then show ?case
    by (auto simp: rbind_Inr_iff config_table_def bad_def server_from_ok attach_from_ok split: if_splits)
qed simp

lemma same_name_None: "same_name seen ss = None \<longleftrightarrow> distinct (map se_name ss) \<and> set seen \<inter> set (map se_name ss) = {}"
  by (induction seen ss rule: same_name.induct) auto

text \<open>
  C19. A configuration that loads is one the daemon can work with: there is something to attach
  to, the servers have different names, a host that is not blank and a port other than 0, the
  longest retry delay is not below the shortest and the poll interval is at least a second.
\<close>

theorem config_loads_valid:
  assumes "config_parse src = Inr cfg"
  shows "(ac_servers cfg \<noteq> [] \<or> dc_mdns (ac_discovery cfg)) \<and> distinct (map se_name (ac_servers cfg))
    \<and> (\<forall>s \<in> set (ac_servers cfg). trim (se_host s) \<noteq> [] \<and> se_port s \<noteq> 0)
    \<and> ao_retry_min (ac_attach cfg) \<le> ao_retry_max (ac_attach cfg) \<and> 1000 \<le> ao_poll_interval (ac_attach cfg)"
proof -
  from assms obtain ts where "config_tables attach_config_default ts = Inr cfg"
    and "ac_servers cfg \<noteq> [] \<or> dc_mdns (ac_discovery cfg)" "same_name [] (ac_servers cfg) = None"
    by (auto simp: config_parse_def rbind_Inr_iff bad_def split: sum.splits if_splits option.splits)
  moreover from this(1) have "list_all server_ok (ac_servers cfg) \<and> attach_ok (ac_attach cfg)"
    by (rule config_tables_ok) (simp_all add: attach_config_default_def attach_ok_def attach_default_def from_secs_def)
  ultimately show ?thesis
    by (auto simp: same_name_None server_ok_def attach_ok_def list_all_iff)
qed

definition sample_config_tables :: "toml_table list" where
  "sample_config_tables = [
     \<lparr>tb_name = ''server'', tb_line = 1, tb_entries = [(''host'', VStr ''deck'', 2), (''port'', VInt 4000, 3)]\<rparr>,
     \<lparr>tb_name = ''attach'', tb_line = 4, tb_entries = [(''retry_min'', VInt 4, 5)]\<rparr>]"

lemma sample_config_parse: "config_parse (print_tables sample_config_tables) = Inr \<lparr>
    ac_servers = [\<lparr>se_name = ''deck'', se_host = ''deck'', se_port = 4000, se_devices = filter_default, se_auto_attach = True\<rparr>],
    ac_discovery = discovery_default, ac_attach = attach_default\<lparr>ao_retry_min := 4000\<rparr>\<rparr>"
proof -
  have "list_all table_ok sample_config_tables"
    by (simp add: sample_config_tables_def table_ok_def bare_def graphic_def)
  then have "toml_parse (print_tables sample_config_tables) = Inr (number_tables 0 sample_config_tables)"
    by (simp add: print_tables_simps)
  moreover have "number_tables 0 sample_config_tables = sample_config_tables"
    by (simp add: sample_config_tables_def number_table_def)
  moreover have "trim ''deck'' = ''deck''" by (rule trim_id) (simp add: graphic_def)
  ultimately show ?thesis
    by (simp add: config_parse_def sample_config_tables_def config_table_def server_from_def attach_from_def
        attach_fields_def reject_unknown_def unknown_keys_def SERVER_KEYS_def ATTACH_KEYS_def get_string_def
        get_integer_def get_boolean_def seconds_def table_get_def port_from_def devices_from_def or_else_def
        attach_default_def attach_config_default_def from_secs_def)
qed

theorem config_loads_valid_witness:
  "\<exists>cfg. config_parse (print_tables sample_config_tables) = Inr cfg \<and> ac_servers cfg \<noteq> []
     \<and> ao_retry_min (ac_attach cfg) \<le> ao_retry_max (ac_attach cfg)"
proof -
  note v = config_loads_valid [OF sample_config_parse]
  show ?thesis by (rule exI, intro conjI, rule sample_config_parse) (simp, use v in blast)
qed

end
