(* ===== verification/Daemon.thy ===== *)
theory Daemon
  imports Vhci Config Mdns
begin

text \<open>
  The attaching daemon, \<open>usbfwd-attach/src/main.rs\<close> and \<open>client.rs\<close>. Everything outside the
  process is a record of functions of the number of interactions so far, so that two readings
  of the port table, or two commands, may differ in any way; the daemon counts its interactions
  and logs the commands it runs.
\<close>

section \<open>Client\<close>

datatype dial = Refused io_error | OptionFailed io_error | Dialled stream

fun connect_loop :: "dial list \<Rightarrow> io_error option \<Rightarrow> string \<Rightarrow> io_error + stream" where
  "connect_loop [] lst what = Inl (case lst of Some e \<Rightarrow> e | None \<Rightarrow> Io Other (''cannot connect to '' @ what))"
| "connect_loop (Refused e # as) lst what = connect_loop as (Some e) what"
| "connect_loop (OptionFailed e # as) lst what = Inl e"
| "connect_loop (Dialled s # as) lst what = Inr s"

text \<open>\<open>resolved\<close> is what the resolver answers, with the outcome of dialling each address.\<close>

definition connect :: "string \<Rightarrow> u16 \<Rightarrow> (io_kind \<times> string) + dial list \<Rightarrow> io_error + stream" where
  "connect host p resolved =
     (let what = host @ '':'' @ show_nat (unat p) in
      case resolved of
        Inl e \<Rightarrow> Inl (Io (fst e) (''cannot resolve '' @ what @ '': '' @ snd e))
      | Inr [] \<Rightarrow> Inl (Io NotFound (what @ '' resolved to no addresses''))
      | Inr as \<Rightarrow> connect_loop as None what)"

definition devlist :: "string \<Rightarrow> u16 \<Rightarrow> (io_kind \<times> string) + dial list \<Rightarrow> io_error option \<Rightarrow> io_error + usb_device list" where
  "devlist host p resolved written =
     rbind (connect host p resolved) (\<lambda>s. case written of
       Some e \<Rightarrow> Inl e
     | None \<Rightarrow> rbind (read_devlist_reply s) (\<lambda>(ds, _). Inr ds))"

definition describe_device :: "usb_device \<Rightarrow> string" where
  "describe_device d = ud_busid d @ '' ('' @ pad_left 4 (show_loop 16 (unat (ud_id_vendor d))) @ '':''
     @ pad_left 4 (show_loop 16 (unat (ud_id_product d))) @ '', '' @ show_nat (unat (ud_num_interfaces d)) @ '' interfaces)''"

section \<open>State\<close>

definition PORT_SETTLE_TIMEOUT :: nat where "PORT_SETTLE_TIMEOUT = from_secs 10"

record tracked =
  tk_server :: string
  tk_host :: string
  tk_busid :: string
  tk_port :: u32

record backoff =
  bo_next_try :: nat
  bo_delay :: nat
  bo_reported :: bool

record daemon =
  dm_cfg :: attach_config
  dm_attached :: "tracked list"
  dm_backoff :: "string \<rightharpoonup> backoff"
  dm_clock :: nat
  dm_log :: "string list list"

definition daemon_new :: "attach_config \<Rightarrow> daemon" where
  "daemon_new cfg = \<lparr>dm_cfg = cfg, dm_attached = [], dm_backoff = Map.empty, dm_clock = 0, dm_log = []\<rparr>"

record outside =
  os_fs :: "nat \<Rightarrow> vhci_fs"
  os_now :: "nat \<Rightarrow> nat"
  os_command :: "nat \<Rightarrow> command"
  os_resolve :: "nat \<Rightarrow> string \<Rightarrow> u16 \<Rightarrow> (io_kind \<times> string) + dial list"
  os_write :: "nat \<Rightarrow> io_error option"
  os_mdns :: "nat \<Rightarrow> recv list"

definition step_clock :: "daemon \<Rightarrow> daemon" where
  "step_clock d = d\<lparr>dm_clock := dm_clock d + 1\<rparr>"

definition now :: "outside \<Rightarrow> daemon \<Rightarrow> nat" where
  "now v d = os_now v (dm_clock d)"

definition read_ports :: "outside \<Rightarrow> daemon \<Rightarrow> (io_error + port list) \<times> daemon" where
  "read_ports v d = (ports (os_fs v (dm_clock d)), step_clock d)"

text \<open>\<open>occupied_ports().unwrap_or_default()\<close>.\<close>

definition read_occupied :: "outside \<Rightarrow> daemon \<Rightarrow> u32 list \<times> daemon" where
  "read_occupied v d = (case occupied_ports (os_fs v (dm_clock d)) of Inr ps \<Rightarrow> ps | Inl e \<Rightarrow> [], step_clock d)"

definition log_command :: "string list \<Rightarrow> daemon \<Rightarrow> daemon" where
  "log_command args d = (step_clock d)\<lparr>dm_log := dm_log d @ [args]\<rparr>"

section \<open>Adoption\<close>

definition adopt_server :: "attach_config \<Rightarrow> string \<Rightarrow> string" where
  "adopt_server cfg host = (case find (\<lambda>s. eq_ignore_case (se_host s) host) (ac_servers cfg) of
     Some s \<Rightarrow> se_name s | None \<Rightarrow> host)"

fun adopt_records :: "attach_config \<Rightarrow> u32 list \<Rightarrow> attach_record list \<Rightarrow> tracked list" where
  "adopt_records cfg used [] = []"
| "adopt_records cfg used (r # rs) =
     (if ar_port r \<in> set used
      then \<lparr>tk_server = adopt_server cfg (ar_host r), tk_host = ar_host r, tk_busid = ar_busid r, tk_port = ar_port r\<rparr>
           # adopt_records cfg used rs
      else adopt_records cfg used rs)"

definition unknown_tracked :: "u32 \<Rightarrow> tracked" where
  "unknown_tracked p = \<lparr>tk_server = ''unknown'', tk_host = ''unknown'', tk_busid = ''vhci:'' @ show_nat (unat p), tk_port = p\<rparr>"

definition adopt_existing :: "outside \<Rightarrow> daemon \<Rightarrow> daemon" where
  "adopt_existing v d0 =
     (let (used, d) = read_occupied v d0;
          known = adopt_records (dm_cfg d) used (records (os_fs v (dm_clock d)));
          identified = map tk_port known
      in (step_clock d)\<lparr>dm_attached := dm_attached d @ known
           @ map unknown_tracked (filter (\<lambda>p. p \<notin> set identified) used)\<rparr>)"

section \<open>One tick\<close>

definition satisfied :: "daemon \<Rightarrow> bool" where
  "satisfied d \<longleftrightarrow> ao_stop_after_first (ac_attach (dm_cfg d)) \<and> dm_attached d \<noteq> []"

definition port_of :: "port list \<Rightarrow> tracked \<Rightarrow> port option" where
  "port_of ps t = find (\<lambda>p. pt_port p = tk_port t) ps"

definition keep_tracked :: "port list \<Rightarrow> tracked \<Rightarrow> bool" where
  "keep_tracked ps t = (case port_of ps t of Some p \<Rightarrow> \<not> failed p \<and> occupied p | None \<Rightarrow> False)"

definition broken_tracked :: "port list \<Rightarrow> tracked \<Rightarrow> bool" where
  "broken_tracked ps t = (case port_of ps t of Some p \<Rightarrow> failed p | None \<Rightarrow> False)"

text \<open>A detach that fails is only reported.\<close>

definition run_detach :: "u32 \<Rightarrow> daemon \<Rightarrow> daemon" where
  "run_detach p d = log_command (ao_usbip (ac_attach (dm_cfg d)) # detach_args p) d"

definition prune :: "outside \<Rightarrow> daemon \<Rightarrow> daemon" where
  "prune v d0 = (case read_ports v d0 of
     (Inl e, d) \<Rightarrow> d
   | (Inr ps, d) \<Rightarrow>
       fold run_detach (map tk_port (filter (broken_tracked ps) (dm_attached d)))
         (d\<lparr>dm_attached := filter (keep_tracked ps) (dm_attached d)\<rparr>))"

fun add_discovered :: "discovered list \<Rightarrow> server_entry list \<Rightarrow> server_entry list" where
  "add_discovered [] v = v"
| "add_discovered (x # xs) v =
     (if list_ex (\<lambda>s. eq_ignore_case (se_host s) (dv_endpoint x)) v then add_discovered xs v
      else add_discovered xs (v @ [\<lparr>se_name = ''mdns:'' @ dv_instance x, se_host = dv_endpoint x, se_port = dv_port x,
             se_devices = filter_default, se_auto_attach = True\<rparr>]))"

definition endpoints :: "outside \<Rightarrow> daemon \<Rightarrow> server_entry list \<times> daemon" where
  "endpoints v d =
     (if dc_mdns (ac_discovery (dm_cfg d))
      then (case browse (os_mdns v (dm_clock d)) of
              Inr found \<Rightarrow> add_discovered found (ac_servers (dm_cfg d)) | Inl e \<Rightarrow> ac_servers (dm_cfg d), step_clock d)
      else (ac_servers (dm_cfg d), d))"

definition record_failure :: "outside \<Rightarrow> server_entry \<Rightarrow> daemon \<Rightarrow> daemon" where
  "record_failure v s d =
     (let a = ac_attach (dm_cfg d);
          e = (case dm_backoff d (se_name s) of
                 Some b \<Rightarrow> b
               | None \<Rightarrow> \<lparr>bo_next_try = now v d, bo_delay = ao_retry_min a, bo_reported = False\<rparr>);
          e' = e\<lparr>bo_reported := True, bo_next_try := now v d + bo_delay e, bo_delay := min (bo_delay e * 2) (ao_retry_max a)\<rparr>
      in (step_clock d)\<lparr>dm_backoff := (dm_backoff d)(se_name s \<mapsto> e')\<rparr>)"

definition clear_failure :: "server_entry \<Rightarrow> daemon \<Rightarrow> daemon" where
  "clear_failure s d = d\<lparr>dm_backoff := (dm_backoff d)(se_name s := None)\<rparr>"

text \<open>
  The wait for the new port: a look at the table every 50 ms until the deadline. The loop has
  fuel for \<open>PORT_SETTLE_TIMEOUT\<close> / 50 looks and the check that ends it, which is enough when a
  sleep takes its 50 ms (\<open>settle_fuel_enough\<close> below).
\<close>

fun settle :: "outside \<Rightarrow> nat \<Rightarrow> nat \<Rightarrow> u32 list \<Rightarrow> daemon \<Rightarrow> u32 option \<times> daemon" where
  "settle v 0 deadline before d = (None, d)"
| "settle v (Suc k) deadline before d =
     (if deadline \<le> now v d then (None, step_clock d)
      else case read_occupied v (step_clock d) of (after, d') \<Rightarrow>
        (case newly_used before after of
           Some p \<Rightarrow> (Some p, d')
         | None \<Rightarrow> settle v k deadline before d'))"

definition attach :: "outside \<Rightarrow> server_entry \<Rightarrow> usb_device \<Rightarrow> daemon \<Rightarrow> bool \<times> daemon" where
  "attach v s dev d0 =
     (case read_occupied v d0 of (before, d) \<Rightarrow>
        let usbip = ao_usbip (ac_attach (dm_cfg d));
            d1 = log_command (usbip # attach_args (se_host s) (se_port s) (ud_busid dev)) d
        in case vhci_attach (os_command v (dm_clock d)) usbip (se_host s) (se_port s) (ud_busid dev) of
             Inl e \<Rightarrow> (False, record_failure v s d1)
           | Inr _ \<Rightarrow>
               (case settle v (PORT_SETTLE_TIMEOUT div 50 + 1) (now v d1 + PORT_SETTLE_TIMEOUT) before (step_clock d1) of
                  (None, d2) \<Rightarrow> (False, d2)
                | (Some p, d2) \<Rightarrow>
                    (True, d2\<lparr>dm_attached := dm_attached d2 @ [\<lparr>tk_server = se_name s, tk_host = se_host s,
                       tk_busid = ud_busid dev, tk_port = p\<rparr>]\<rparr>)))"

definition wanted :: "server_entry \<Rightarrow> tracked list \<Rightarrow> usb_device \<Rightarrow> bool" where
  "wanted s ts dev \<longleftrightarrow> filter_matches (se_devices s) (ud_id_vendor dev) (ud_id_product dev)
     \<and> \<not> list_ex (\<lambda>t. tk_server t = se_name s \<and> tk_busid t = ud_busid dev) ts"

definition backing_off :: "outside \<Rightarrow> server_entry \<Rightarrow> daemon \<Rightarrow> bool" where
  "backing_off v s d = (case dm_backoff d (se_name s) of Some b \<Rightarrow> now v d < bo_next_try b | None \<Rightarrow> False)"

definition try_server :: "outside \<Rightarrow> server_entry \<Rightarrow> daemon \<Rightarrow> bool \<times> daemon" where
  "try_server v s d0 =
     (if backing_off v s d0 then (False, step_clock d0)
      else let d = step_clock d0 in
        case devlist (se_host s) (se_port s) (os_resolve v (dm_clock d) (se_host s) (se_port s)) (os_write v (dm_clock d)) of
          Inl e \<Rightarrow> (False, record_failure v s (step_clock d))
        | Inr ds \<Rightarrow>
            let d1 = clear_failure s (step_clock d) in
            (case find (wanted s (dm_attached d1)) ds of
               None \<Rightarrow> (False, d1)
             | Some dev \<Rightarrow> attach v s dev d1))"

fun try_servers :: "outside \<Rightarrow> server_entry list \<Rightarrow> daemon \<Rightarrow> daemon" where
  "try_servers v [] d = d"
| "try_servers v (s # ss) d =
     (if \<not> se_auto_attach s then try_servers v ss d
      else case try_server v s d of (ok, d') \<Rightarrow>
        if ok \<and> ao_stop_after_first (ac_attach (dm_cfg d')) then d' else try_servers v ss d')"

definition tick :: "outside \<Rightarrow> daemon \<Rightarrow> daemon" where
  "tick v d0 =
     (let d = prune v d0 in
      if satisfied d then d
      else case endpoints v d of (ss, d') \<Rightarrow> try_servers v ss d')"

section \<open>What each operation leaves alone\<close>

lemma step_clock_sel [simp]:
  "dm_cfg (step_clock d) = dm_cfg d" "dm_attached (step_clock d) = dm_attached d"
  "dm_log (step_clock d) = dm_log d" "dm_backoff (step_clock d) = dm_backoff d" "dm_clock (step_clock d) = dm_clock d + 1"
  by (simp_all add: step_clock_def)

lemma log_command_sel [simp]:
  "dm_cfg (log_command a d) = dm_cfg d" "dm_attached (log_command a d) = dm_attached d"
  "dm_log (log_command a d) = dm_log d @ [a]"
  by (simp_all add: log_command_def)

lemma read_occupied_snd [simp]: "snd (read_occupied v d) = step_clock d"
  by (simp add: read_occupied_def)

lemma record_failure_sel [simp]:
  "dm_cfg (record_failure v s d) = dm_cfg d" "dm_attached (record_failure v s d) = dm_attached d"
  "dm_log (record_failure v s d) = dm_log d"
  by (simp_all add: record_failure_def Let_def)

lemma clear_failure_sel [simp]:
  "dm_cfg (clear_failure s d) = dm_cfg d" "dm_attached (clear_failure s d) = dm_attached d"
  "dm_log (clear_failure s d) = dm_log d"
  by (simp_all add: clear_failure_def)

lemma settle_sel:
  "dm_cfg (snd (settle v k dl before d)) = dm_cfg d \<and> dm_attached (snd (settle v k dl before d)) = dm_attached d
   \<and> dm_log (snd (settle v k dl before d)) = dm_log d"
proof (induction k arbitrary: d)
  case (Suc k)
  then show ?case
    by (auto simp: read_occupied_def split: option.split)
qed simp

text \<open>\<open>attach\<close> adds one entry for the device, or none, and runs one command.\<close>

lemma attach_effect:
  assumes "attach v s dev d = (ok, d')"
  shows "dm_cfg d' = dm_cfg d
    \<and> dm_log d' = dm_log d @ [ao_usbip (ac_attach (dm_cfg d)) # attach_args (se_host s) (se_port s) (ud_busid dev)]
    \<and> (if ok then \<exists>p. dm_attached d' = dm_attached d @
         [\<lparr>tk_server = se_name s, tk_host = se_host s, tk_busid = ud_busid dev, tk_port = p\<rparr>]
       else dm_attached d' = dm_attached d)"
proof -
  let ?u = "ao_usbip (ac_attach (dm_cfg d))"
  let ?d1 = "log_command (?u # attach_args (se_host s) (se_port s) (ud_busid dev)) (step_clock d)"
  obtain before where b: "read_occupied v d = (before, step_clock d)"
    by (simp add: read_occupied_def)
  show ?thesis
  proof (cases "vhci_attach (os_command v (dm_clock (step_clock d))) ?u (se_host s) (se_port s) (ud_busid dev)")
    case (Inl e)
    then show ?thesis using assms b by (auto simp: attach_def Let_def)
  next
    case (Inr u)
    obtain r d2 where st: "settle v (PORT_SETTLE_TIMEOUT div 50 + 1) (now v ?d1 + PORT_SETTLE_TIMEOUT) before (step_clock ?d1) = (r, d2)"
      by (rule prod.exhaust)
    have "dm_cfg d2 = dm_cfg d" "dm_attached d2 = dm_attached d" "dm_log d2 = dm_log ?d1"
      using settle_sel [of v "PORT_SETTLE_TIMEOUT div 50 + 1" "now v ?d1 + PORT_SETTLE_TIMEOUT" before "step_clock ?d1"] st by simp_all
    then show ?thesis
      using assms Inr b st by (cases r) (auto simp: attach_def Let_def)
  qed
qed

definition tracked_key :: "tracked \<Rightarrow> string \<times> string" where
  "tracked_key t = (tk_server t, tk_busid t)"

lemma try_server_effect:
  assumes "try_server v s d = (ok, d')"
  shows "dm_cfg d' = dm_cfg d \<and> (if ok then \<exists>t. dm_attached d' = dm_attached d @ [t] \<and> tracked_key t \<notin> tracked_key ` set (dm_attached d)
     else dm_attached d' = dm_attached d)"
proof (cases "backing_off v s d")
  case True
  then show ?thesis using assms by (auto simp: try_server_def)
next
  case False
  let ?d = "step_clock d"
  show ?thesis
  proof (cases "devlist (se_host s) (se_port s) (os_resolve v (dm_clock ?d) (se_host s) (se_port s)) (os_write v (dm_clock ?d))")
    case (Inl e)
    then show ?thesis using assms False by (auto simp: try_server_def Let_def)
  next
    case (Inr ds)
    show ?thesis
    proof (cases "find (wanted s (dm_attached d)) ds")
      case None
      then show ?thesis using assms False Inr by (auto simp: try_server_def Let_def)
    next
      case (Some dev)
      then have w: "wanted s (dm_attached d) dev" by (auto simp: find_Some_iff)
      have "attach v s dev (clear_failure s (step_clock ?d)) = (ok, d')"
        using assms False Inr Some by (simp add: try_server_def Let_def)
      from attach_effect [OF this] w show ?thesis
        by (fastforce simp: wanted_def tracked_key_def list_ex_iff)
    qed
  qed
qed

lemma endpoints_sel: "dm_cfg (snd (endpoints v d)) = dm_cfg d \<and> dm_attached (snd (endpoints v d)) = dm_attached d
    \<and> dm_log (snd (endpoints v d)) = dm_log d"
  by (simp add: endpoints_def)

lemma try_servers_effect:
  "dm_cfg (try_servers v ss d) = dm_cfg d
   \<and> (distinct (map tracked_key (dm_attached d)) \<longrightarrow> distinct (map tracked_key (dm_attached (try_servers v ss d))))
   \<and> (ao_stop_after_first (ac_attach (dm_cfg d)) \<longrightarrow> length (dm_attached (try_servers v ss d)) \<le> length (dm_attached d) + 1)"
proof (induction ss arbitrary: d)
  case (Cons s ss)
  obtain ok d' where t: "try_server v s d = (ok, d')" by (rule prod.exhaust)
  note e = try_server_effect [OF t]
  have "distinct (map tracked_key (dm_attached d)) \<Longrightarrow> distinct (map tracked_key (dm_attached d'))"
    using e by (auto split: if_splits)
  moreover have "\<not> ok \<Longrightarrow> dm_attached d' = dm_attached d" using e by simp
  moreover have "length (dm_attached d') \<le> length (dm_attached d) + 1" using e by (auto split: if_splits)
  ultimately show ?case using e t Cons.IH [of d] Cons.IH [of d'] by (auto simp: t)
qed simp

lemma run_detach_fold_sel:
  "dm_cfg (fold run_detach ps d) = dm_cfg d \<and> dm_attached (fold run_detach ps d) = dm_attached d
   \<and> dm_log (fold run_detach ps d) = dm_log d @ map (\<lambda>p. ao_usbip (ac_attach (dm_cfg d)) # detach_args p) ps"
  by (induction ps arbitrary: d) (simp_all add: run_detach_def)

lemma prune_effect:
  "dm_cfg (prune v d) = dm_cfg d
   \<and> dm_attached (prune v d) = (case ports (os_fs v (dm_clock d)) of
        Inl e \<Rightarrow> dm_attached d | Inr ps \<Rightarrow> filter (keep_tracked ps) (dm_attached d))"
  by (cases "ports (os_fs v (dm_clock d))") (simp_all add: prune_def read_ports_def run_detach_fold_sel)

lemma tick_effect:
  "dm_cfg (tick v d) = dm_cfg d
   \<and> (distinct (map tracked_key (dm_attached d)) \<longrightarrow> distinct (map tracked_key (dm_attached (tick v d))))
   \<and> (ao_stop_after_first (ac_attach (dm_cfg d)) \<longrightarrow> length (dm_attached (tick v d)) \<le> max 1 (length (dm_attached d)))"
proof -
  let ?d = "prune v d"
  obtain ss d' where ep: "endpoints v ?d = (ss, d')" by (rule prod.exhaust)
  then have d': "dm_cfg d' = dm_cfg ?d" "dm_attached d' = dm_attached ?d" using endpoints_sel [of v ?d] by simp_all
  have "distinct (map tracked_key (dm_attached d)) \<Longrightarrow> distinct (map tracked_key (dm_attached ?d))"
    using prune_effect [of v d] by (auto simp: distinct_map_filter split: sum.splits)
  moreover have "length (dm_attached ?d) \<le> length (dm_attached d)"
    using prune_effect [of v d] by (auto split: sum.splits)
  ultimately show ?thesis
    using prune_effect [of v d] try_servers_effect [of v ss d'] d' ep
    by (auto simp: tick_def Let_def satisfied_def)
qed

lemma ticks_effect:
  "dm_cfg (fold tick vs d) = dm_cfg d
   \<and> (distinct (map tracked_key (dm_attached d)) \<longrightarrow> distinct (map tracked_key (dm_attached (fold tick vs d))))
   \<and> (ao_stop_after_first (ac_attach (dm_cfg d)) \<longrightarrow> length (dm_attached (fold tick vs d)) \<le> max 1 (length (dm_attached d)))"
proof (induction vs arbitrary: d)
  case (Cons v vs)
  show ?case using Cons.IH [of "tick v d"] tick_effect [of v d] by auto
qed simp

lemma settle_more_fuel:
  assumes sleeps: "\<And>n. os_now v n + 50 \<le> os_now v (n + 2)" and time: "deadline \<le> now v d + 50 * k"
  shows "settle v (Suc k + j) deadline before d = settle v (Suc k) deadline before d"
  using time
proof (induction k arbitrary: d)
  case (Suc k)
  have "now v (step_clock (step_clock d)) \<ge> now v d + 50"
    using sleeps [of "dm_clock d"] by (simp add: now_def)
  then have "settle v (Suc k + j) deadline before (step_clock (step_clock d)) = settle v (Suc k) deadline before (step_clock (step_clock d))"
    using Suc.prems by (intro Suc.IH) simp
  then show ?case by (simp add: read_occupied_def split: option.split del: settle.simps(2)) (simp add: read_occupied_def split: option.split)
qed simp

lemma adopt_new_sel:
  "dm_cfg (adopt_existing v (daemon_new cfg)) = cfg" "dm_clock (adopt_existing v (daemon_new cfg)) = 2"
  "dm_log (adopt_existing v (daemon_new cfg)) = []"
  by (simp_all add: adopt_existing_def daemon_new_def read_occupied_def Let_def)

lemma record_failure_again:
  assumes "dm_backoff d (se_name s) = Some b"
  shows "dm_backoff (record_failure v s d) (se_name s) = Some
    \<lparr>bo_next_try = now v d + bo_delay b, bo_delay = min (bo_delay b * 2) (ao_retry_max (ac_attach (dm_cfg d))), bo_reported = True\<rparr>"
  using assms by (simp add: record_failure_def Let_def)

section \<open>A concrete world\<close>

text \<open>One port of the virtual hub is in use, no record says by what, and nobody answers.\<close>

definition sample_vhci :: vhci_fs where
  "sample_vhci = \<lparr>fs_read_to_string = (\<lambda>p. Some ''hs 1 6 2 0 9 5-1''), fs_read = (\<lambda>p. Inl (Io NotFound [])),
     fs_exists = (\<lambda>p. True), fs_read_dir = (\<lambda>p. if p = STATE_DIR then Inl (Io PermissionDenied []) else Inr [Some ''status'']),
     fs_read_link = (\<lambda>p. None), fs_is_dir = (\<lambda>p. True)\<rparr>"

definition sample_port :: port where
  "sample_port = \<lparr>pt_hub = ''hs'', pt_port = 1, pt_status = 6, pt_speed = 2, pt_devid = 0, pt_sockfd = 9, pt_local_busid = ''5-1''\<rparr>"

definition sample_outside :: outside where
  "sample_outside = \<lparr>os_fs = (\<lambda>_. sample_vhci), os_now = (\<lambda>n. 100 * n), os_command = (\<lambda>_ _. Inl (NotFound, [])),
     os_resolve = (\<lambda>_ _ _. Inl (NotFound, [])), os_write = (\<lambda>_. None), os_mdns = (\<lambda>_. [])\<rparr>"

lemma sample_vhci_ports: "ports sample_vhci = Inr [sample_port]"
proof -
  have w: "split_whitespace ''hs 1 6 2 0 9 5-1'' = [''hs'', ''1'', ''6'', ''2'', ''0'', ''9'', ''5-1'']" by code_simp
  have "parse_port ''hs 1 6 2 0 9 5-1'' = Some sample_port"
    by (simp add: parse_port_def w parse_u32_def parse_unsigned_def from_str_radix_def to_digit_def digit_value_def
        hex_u32_def dec_u32_def sample_port_def)
  moreover have "str_lines ''hs 1 6 2 0 9 5-1'' = [''hs 1 6 2 0 9 5-1'']" by (simp add: str_lines_def)
  ultimately have "parse_status ''hs 1 6 2 0 9 5-1'' = [sample_port]"
    by (simp add: parse_status_def map_filter_simps)
  then show ?thesis
    by (simp add: ports_def hcd_dir_def sample_vhci_def is_status_file_def map_filter_simps PLATFORM_DIR_def STATE_DIR_def)
qed

lemma sample_vhci_occupied: "occupied_ports sample_vhci = Inr [1]" "occupied sample_port" "\<not> failed sample_port"
  by (simp_all add: occupied_ports_def sample_vhci_ports occupied_def failed_def sample_port_def VDEV_ST_NULL_def VDEV_ST_ERROR_def)

section \<open>Properties\<close>



text \<open>
  With \<open>stop_after_first\<close>, the default, any number of ticks leaves at most one device attached,
  or as many as were adopted at the start.
\<close>

theorem daemon_stops_after_first:
  assumes "ao_stop_after_first (ac_attach cfg)"
  shows "length (dm_attached (fold tick vs (adopt_existing v (daemon_new cfg))))
    \<le> max 1 (length (dm_attached (adopt_existing v (daemon_new cfg))))"
proof -
  have "dm_cfg (adopt_existing v (daemon_new cfg)) = cfg" by (rule adopt_new_sel)
  then show ?thesis using ticks_effect assms by auto
qed

theorem daemon_stops_after_first_witness:
  "length (dm_attached (fold tick [sample_outside, sample_outside] (adopt_existing sample_outside (daemon_new attach_config_default)))) \<le> 1"
proof -
  have s: "ao_stop_after_first (ac_attach attach_config_default)"
    by (simp add: attach_config_default_def attach_default_def)
  have "records sample_vhci = []" by (simp add: records_def sample_vhci_def)
  then have "length (dm_attached (adopt_existing sample_outside (daemon_new attach_config_default))) = 1"
    by (simp add: adopt_existing_def read_occupied_def daemon_new_def sample_outside_def sample_vhci_occupied)
  then show ?thesis
    using daemon_stops_after_first [OF s, of "[sample_outside, sample_outside]" sample_outside] by simp
qed

text \<open>
  C39. Retries back off exponentially up to the limit: after a run of \<open>n + 1\<close> failures the server
  is left alone for \<open>retry_min * 2 ^ n\<close>, or \<open>retry_max\<close> where that is less.
\<close>

theorem backoff_schedule:
  assumes "dm_backoff d (se_name s) = None" "ao_retry_min (ac_attach (dm_cfg d)) \<le> ao_retry_max (ac_attach (dm_cfg d))"
  shows "dm_backoff ((record_failure v s ^^ Suc n) d) (se_name s) = Some
    \<lparr>bo_next_try = now v ((record_failure v s ^^ n) d)
        + min (ao_retry_min (ac_attach (dm_cfg d)) * 2 ^ n) (ao_retry_max (ac_attach (dm_cfg d))),
     bo_delay = min (ao_retry_min (ac_attach (dm_cfg d)) * 2 ^ Suc n) (ao_retry_max (ac_attach (dm_cfg d))),
     bo_reported = True\<rparr>"
proof (induction n)
  case 0
  show ?case using assms by (simp add: record_failure_def Let_def min_absorb1 mult.commute)
next
  case (Suc n)
  let ?d = "(record_failure v s ^^ Suc n) d"
  have cfg: "dm_cfg ((record_failure v s ^^ k) d) = dm_cfg d" for k by (induction k) simp_all
  have "(record_failure v s ^^ Suc (Suc n)) d = record_failure v s ?d" by simp
  moreover have "min (min (a :: nat) m * 2) m = min (a * 2) m" for a m by (simp add: min_def)
  ultimately show ?case
    using record_failure_again [OF Suc, of v] cfg [of "Suc n"] by (simp add: mult.commute mult.left_commute del: funpow.simps)
qed

theorem backoff_schedule_witness:
  "map_option bo_delay (dm_backoff ((record_failure sample_outside
       \<lparr>se_name = ''deck'', se_host = ''deck'', se_port = 3240, se_devices = filter_default, se_auto_attach = True\<rparr> ^^ 6)
     (daemon_new attach_config_default)) ''deck'') = Some 60000"
proof -
  let ?s = "\<lparr>se_name = ''deck'', se_host = ''deck'', se_port = 3240, se_devices = filter_default, se_auto_attach = True\<rparr>"
  have "dm_backoff (daemon_new attach_config_default) (se_name ?s) = None" by (simp add: daemon_new_def)
  moreover have c: "ac_attach (dm_cfg (daemon_new attach_config_default)) = attach_default"
    by (simp add: daemon_new_def attach_config_default_def)
  moreover have "ao_retry_min attach_default = 2000" "ao_retry_max attach_default = 60000"
    by (simp_all add: attach_default_def from_secs_def)
  ultimately show ?thesis
    using backoff_schedule [where d = "daemon_new attach_config_default" and s = ?s and v = sample_outside and n = 5]
    by (simp del: funpow.simps)
qed



lemma keep_tracked_port:
  assumes "find (\<lambda>q. pt_port q = p) ps = Some q" "occupied q" "\<not> failed q" "tk_port t = p"
  shows "keep_tracked ps t"
  using assms by (simp add: keep_tracked_def port_of_def)

lemma adopt_existing_ports:
  assumes "occupied_ports (os_fs v (dm_clock d)) = Inr used"
  shows "set used \<subseteq> tk_port ` set (dm_attached (adopt_existing v d))"
proof
  fix p assume p: "p \<in> set used"
  have "tk_port (unknown_tracked p) = p" for p by (simp add: unknown_tracked_def)
  then show "p \<in> tk_port ` set (dm_attached (adopt_existing v d))"
    using assms p by (force simp: adopt_existing_def read_occupied_def Let_def image_Un image_image)
qed

text \<open>
  C38. A restart of the daemon does not attach a second controller: with \<open>stop_after_first\<close>, if a
  port is busy when the daemon starts and healthy at the first tick, that tick runs no attach
  command, whether or not the attachment could be identified.
\<close>

theorem restart_attaches_nothing:
  assumes "ao_stop_after_first (ac_attach cfg)" "occupied_ports (os_fs v 0) = Inr used" "p \<in> set used"
    and "ports (os_fs v 2) = Inr ps" "find (\<lambda>q. pt_port q = p) ps = Some q" "occupied q" "\<not> failed q"
  shows "set (dm_log (tick v (adopt_existing v (daemon_new cfg)))) \<subseteq> range (\<lambda>k. ao_usbip (ac_attach cfg) # detach_args k)"
proof -
  let ?a = "adopt_existing v (daemon_new cfg)"
  note a = adopt_new_sel [of v cfg]
  obtain t where "t \<in> set (dm_attached ?a)" "tk_port t = p"
    using adopt_existing_ports [of v "daemon_new cfg" used] assms(2,3) by (auto simp: daemon_new_def)
  then have "t \<in> set (dm_attached (prune v ?a))"
    using assms(4) a(2) keep_tracked_port [OF assms(5-7)] prune_effect [of v ?a] by simp
  then have "satisfied (prune v ?a)"
    using assms(1) a(1) prune_effect [of v ?a] by (auto simp: satisfied_def)
  then have "tick v ?a = prune v ?a" by (simp add: tick_def Let_def)
  moreover have "dm_log (prune v ?a) = map (\<lambda>p. ao_usbip (ac_attach cfg) # detach_args p)
      (map tk_port (filter (broken_tracked ps) (dm_attached ?a)))"
    using assms(4) a by (simp add: prune_def read_ports_def run_detach_fold_sel)
  ultimately show ?thesis by auto
qed

theorem restart_attaches_nothing_witness:
  "set (dm_log (tick sample_outside (adopt_existing sample_outside (daemon_new attach_config_default))))
     \<subseteq> range (\<lambda>k. ao_usbip (ac_attach attach_config_default) # detach_args k)"
proof (rule restart_attaches_nothing)
  show "ao_stop_after_first (ac_attach attach_config_default)"
    by (simp add: attach_config_default_def attach_default_def)
  show "occupied_ports (os_fs sample_outside 0) = Inr [1]" "ports (os_fs sample_outside 2) = Inr [sample_port]"
    by (simp_all add: sample_outside_def sample_vhci_occupied sample_vhci_ports)
  show "find (\<lambda>q. pt_port q = 1) [sample_port] = Some sample_port" by (simp add: sample_port_def)
qed (simp_all add: sample_vhci_occupied)

text \<open>
  Without \<open>stop_after_first\<close> an adopted port that could not be identified keeps no device from
  being attached.
\<close>

lemma unknown_blocks_nothing:
  "se_name s \<noteq> ''unknown'' \<Longrightarrow>
     wanted s (map unknown_tracked ps) dev = filter_matches (se_devices s) (ud_id_vendor dev) (ud_id_product dev)"
  by (auto simp: wanted_def list_ex_iff unknown_tracked_def)

end
