(* ===== verification/Attach_Cli.thy ===== *)
theory Attach_Cli
  imports Daemon Log
begin

text \<open>
  The command line of the attaching program, the rest of \<open>usbfwd-attach/src/main.rs\<close>: its options,
  the modes that only print or detach, and the daemon from start to shutdown. What a mode prints
  is a list of lines; padding counts bytes.
\<close>

datatype mode = ModeDaemon | ModeOnce | ModeStatus | ModeList | ModeDetachAll

record attach_args_rec =
  aa_config :: "string option"
  aa_mode :: mode
  aa_level :: "level option"

section \<open>Options\<close>

datatype attach_option = OptHelp | OptConfig | OptMode mode | OptVerbosity int | OptUnknown

definition attach_option_of :: "string \<Rightarrow> attach_option" where
  "attach_option_of arg =
     (if arg \<in> {''-h'', ''--help'', ''-V'', ''--version''} then OptHelp
      else if arg \<in> {''-c'', ''--config''} then OptConfig
      else if arg = ''--once'' then OptMode ModeOnce
      else if arg = ''--status'' then OptMode ModeStatus
      else if arg = ''--list'' then OptMode ModeList
      else if arg = ''--detach-all'' then OptMode ModeDetachAll
      else if arg = ''--verbose'' then OptVerbosity 1
      else if arg \<in> {''-q'', ''--quiet''} then OptVerbosity (- 2)
      else if is_v_cluster arg then OptVerbosity (int (length arg - 1))
      else OptUnknown)"

text \<open>\<open>Inr None\<close> when only the help or the version was asked for.\<close>

fun args_loop :: "string list \<Rightarrow> string option \<Rightarrow> mode \<Rightarrow> int \<Rightarrow> string + attach_args_rec option" where
  "args_loop [] cfg md verbosity =
     Inr (Some \<lparr>aa_config = cfg, aa_mode = md, aa_level = verbosity_level verbosity\<rparr>)"
| "args_loop (arg # it) cfg md verbosity =
     (case attach_option_of arg of
        OptHelp \<Rightarrow> Inr None
      | OptConfig \<Rightarrow>
          (case it of [] \<Rightarrow> Inl ''--config needs a path'' | p # it' \<Rightarrow> args_loop it' (Some p) md verbosity)
      | OptMode m \<Rightarrow> args_loop it cfg m verbosity
      | OptVerbosity n \<Rightarrow> args_loop it cfg md (verbosity + n)
      | OptUnknown \<Rightarrow> Inl (''unknown option '' @ quoted arg @ '' (try --help)''))"

definition attach_parse_args :: "string list \<Rightarrow> string + attach_args_rec option" where
  "attach_parse_args argv = args_loop (drop 1 argv) None ModeDaemon 0"

section \<open>Modes that print\<close>

definition unused_lines :: "port list \<Rightarrow> string list" where
  "unused_lines ps = map (\<lambda>p. ''  port '' @ show_nat (unat (pt_port p)) @ '' is '' @ status_name p)
     (filter (\<lambda>p. pt_status p \<noteq> VDEV_ST_NULL) ps)"

definition port_line :: "attach_record list \<Rightarrow> port \<Rightarrow> string" where
  "port_line rs p =
     (let r = find (\<lambda>r. ar_port r = pt_port p) rs in
      pad_right 6 (show_nat (unat (pt_port p))) @ '' '' @ pad_right 12 (status_name p) @ '' ''
      @ pad_right 22 (case r of Some r \<Rightarrow> ar_host r @ '':'' @ ar_service_port r | None \<Rightarrow> ''?'') @ '' ''
      @ pad_right 10 (case r of Some r \<Rightarrow> ar_busid r | None \<Rightarrow> ''?'') @ '' '' @ pt_local_busid p)"

definition print_status :: "vhci_fs \<Rightarrow> io_error + string list" where
  "print_status f =
     (if \<not> loaded f then Inr [''vhci-hcd is not loaded; nothing can be attached.'']
      else rbind (ports f) (\<lambda>ps.
        let rs = records f; used = length (filter occupied ps);
            head_line = show_nat (length ps) @ '' vhci port(s), '' @ show_nat used @ '' in use'';
            note_lines = (if 0 < used \<and> rs = [] then
              [if records_readable f = Some False then ''(run as root to see which remote each port came from)''
               else ''(usbip kept no record of these attachments; the remote is unknown)''] else [])
        in if used = 0 then Inr (head_line # note_lines @ unused_lines ps)
           else Inr (head_line # note_lines
             @ [pad_right 6 ''PORT'' @ '' '' @ pad_right 12 ''STATE'' @ '' '' @ pad_right 22 ''REMOTE'' @ '' ''
                @ pad_right 10 ''BUSID'' @ '' LOCAL'']
             @ map (port_line rs) (filter (\<lambda>p. pt_status p \<noteq> VDEV_ST_NULL) ps))))"

text \<open>The detaches one after the other; \<open>cmd k\<close> is what running the \<open>k\<close>-th of them answers.\<close>

fun detach_ports :: "(nat \<Rightarrow> command) \<Rightarrow> string \<Rightarrow> nat \<Rightarrow> port list \<Rightarrow> (u32 \<times> bool) list" where
  "detach_ports cmd usbip k [] = []"
| "detach_ports cmd usbip k (p # ps) =
     (pt_port p, is_ok (vhci_detach (cmd k) usbip (pt_port p))) # detach_ports cmd usbip (Suc k) ps"

definition detach_all :: "vhci_fs \<Rightarrow> (nat \<Rightarrow> command) \<Rightarrow> attach_config \<Rightarrow> io_error + (u32 \<times> bool) list" where
  "detach_all f cmd cfg =
     (if \<not> loaded f then Inr []
      else rbind (ports f) (\<lambda>ps. Inr (detach_ports cmd (ao_usbip (ac_attach cfg)) 0 (filter in_use ps))))"

definition remote_lines :: "server_entry \<Rightarrow> io_error + usb_device list \<Rightarrow> string list" where
  "remote_lines s r =
     (se_name s @ '' ('' @ se_host s @ '':'' @ show_nat (unat (se_port s)) @ '')'')
     # (case r of
          Inl e \<Rightarrow> [''  unreachable: '' @ io_error_text e]
        | Inr [] \<Rightarrow> [''  (exports nothing)'']
        | Inr ds \<Rightarrow> map (\<lambda>d. ''  '' @ (if filter_matches (se_devices s) (ud_id_vendor d) (ud_id_product d) then ''*'' else '' '')
              @ '' '' @ describe_device d) ds
            @ [''  (* = matches '' @ quoted (''devices = '' @ filter_to_string (se_devices s)) @ '')''])"

fun list_remote :: "outside \<Rightarrow> nat \<Rightarrow> server_entry list \<Rightarrow> string list" where
  "list_remote v k [] = []"
| "list_remote v k (s # ss) =
     remote_lines s (devlist (se_host s) (se_port s) (os_resolve v k (se_host s) (se_port s)) (os_write v k))
     @ list_remote v (Suc k) ss"

section \<open>The program\<close>

record env_files =
  ef_read :: "string \<Rightarrow> string + string"
  ef_is_file :: "string \<Rightarrow> bool"
  ef_xdg :: "string option"
  ef_home :: "string option"

definition load_config :: "env_files \<Rightarrow> string option \<Rightarrow> string + attach_config" where
  "load_config e explicit =
     (let load = (\<lambda>p. case config_load (ef_read e) p of Inl err \<Rightarrow> Inl (config_error_to_string err) | Inr c \<Rightarrow> Inr c)
      in case explicit of
           Some p \<Rightarrow> load p
         | None \<Rightarrow>
             (case find_default (ef_is_file e) (ef_xdg e) (ef_home e) of
                Some p \<Rightarrow> load p
              | None \<Rightarrow> Inl (''no configuration file found. Looked in:'' @ [CHR 0x0A]
                  @ join [CHR 0x0A] (map (\<lambda>p. ''  '' @ p) (default_paths (ef_xdg e) (ef_home e))) @ [CHR 0x0A]
                  @ ''Copy packaging/usbfwd.toml to the first of those and set the exporter's MagicDNS name.'')))"

datatype run_end =
    Printed "string list"
  | Detached "(u32 \<times> bool) list"
  | Stopped daemon
  | RunFailed io_error
  | RunError string

definition of_io :: "('a \<Rightarrow> run_end) \<Rightarrow> io_error + 'a \<Rightarrow> run_end" where
  "of_io k r = (case r of Inl e \<Rightarrow> RunFailed e | Inr a \<Rightarrow> k a)"

text \<open>
  Loading the module: its outcome is only reported, so what it leaves is the command it ran, and
  whatever the file system looks like afterwards.
\<close>

definition load_module :: "vhci_fs \<Rightarrow> daemon \<Rightarrow> daemon" where
  "load_module f d =
     (if ao_modprobe (ac_attach (dm_cfg d)) \<and> \<not> loaded f
      then d\<lparr>dm_log := dm_log d @ [[''modprobe'', ''vhci-hcd'']]\<rparr> else d)"

text \<open>
  \<open>f\<close> is the file system at the start, \<open>v\<close> the outside once the module is loaded or could
  not be, \<open>ticks\<close> the outside at each tick until shutdown is
  requested; \<open>cfg.unwrap_or_default()\<close> makes a broken file harmless to \<open>--detach-all\<close>.
\<close>

definition attach_run :: "vhci_fs \<Rightarrow> env_files \<Rightarrow> (nat \<Rightarrow> command) \<Rightarrow> outside \<Rightarrow> outside list \<Rightarrow> attach_args_rec \<Rightarrow> run_end" where
  "attach_run f e cmd v ticks args =
     (if aa_mode args = ModeStatus then of_io Printed (print_status f)
      else if aa_mode args = ModeDetachAll then
        of_io Detached (detach_all f cmd
          (case load_config e (aa_config args) of Inr c \<Rightarrow> c | Inl _ \<Rightarrow> attach_config_default))
      else case load_config e (aa_config args) of
        Inl err \<Rightarrow> RunError err
      | Inr cfg \<Rightarrow>
          if aa_mode args = ModeList then Printed (list_remote v 0 (ac_servers cfg))
          else if \<not> loaded (os_fs v 0) then
            RunError (''vhci-hcd is not loaded, so nothing can be attached. '' @ ''Try '' @ quoted ''modprobe vhci-hcd''
              @ '' (Fedora: '' @ quoted ''dnf install kernel-modules-extra'' @ '' first).'')
          else
            let d = adopt_existing v (load_module f (daemon_new cfg))
            in Stopped (if aa_mode args = ModeOnce then tick v d else fold tick ticks d))"

definition attach_main :: "vhci_fs \<Rightarrow> env_files \<Rightarrow> (nat \<Rightarrow> command) \<Rightarrow> outside \<Rightarrow> outside list \<Rightarrow> string list \<Rightarrow> nat \<times> run_end option" where
  "attach_main f e cmd v ticks argv =
     (case attach_parse_args argv of
        Inl err \<Rightarrow> (2, None)
      | Inr None \<Rightarrow> (0, None)
      | Inr (Some args) \<Rightarrow>
          let r = attach_run f e cmd v ticks args
          in (case r of RunFailed _ \<Rightarrow> 1 | RunError _ \<Rightarrow> 1 | _ \<Rightarrow> 0, Some r))"

text \<open>
  The pause between two ticks, in naps of at most 200 milliseconds: \<open>down t\<close> tells whether shutdown
  is requested \<open>t\<close> milliseconds in, and a nap takes \<open>late t\<close> longer than asked. The time it ends.
\<close>

function nap :: "nat \<Rightarrow> (nat \<Rightarrow> bool) \<Rightarrow> (nat \<Rightarrow> nat) \<Rightarrow> nat \<Rightarrow> nat" where
  "nap dur down late t =
     (if down t \<or> dur \<le> t then t else nap dur down late (t + min (dur - t) 200 + late t))"
  by pat_completeness auto
termination
  by (relation "measure (\<lambda>(dur, down, late, t). dur - t)") auto

declare nap.simps [simp del]

lemma nap_sleeps: "down (nap dur down late t) \<or> dur \<le> nap dur down late t"
proof (induction dur down late t rule: nap.induct)
  case (1 dur down late t)
  show ?case
  proof (cases "down t \<or> dur \<le> t")
    case True
    then have "nap dur down late t = t" by (subst nap.simps) simp
    with True show ?thesis by simp
  next
    case False
    then have "nap dur down late t = nap dur down late (t + min (dur - t) 200 + late t)" by (subst nap.simps) simp
    with 1 [OF False] show ?thesis by simp
  qed
qed

text \<open>A shutdown that stays requested from \<open>w\<close> on is noticed within one nap.\<close>

lemma nap_notices_shutdown:
  assumes "\<And>t. w \<le> t \<Longrightarrow> down t" "\<And>t. late t \<le> L" "t \<le> w + 200 + L"
  shows "nap dur down late t \<le> w + 200 + L"
  using assms
proof (induction dur down late t rule: nap.induct)
  case (1 dur down late t)
  show ?case
  proof (cases "down t \<or> dur \<le> t")
    case True
    then have "nap dur down late t = t" by (subst nap.simps) simp
    with 1 show ?thesis by simp
  next
    case False
    then have "t < w" using "1.prems"(1) by force
    then have "t + min (dur - t) 200 + late t \<le> w + 200 + L" using "1.prems"(2) [of t] by linarith
    moreover have "nap dur down late t = nap dur down late (t + min (dur - t) 200 + late t)"
      using False by (subst nap.simps) simp
    ultimately show ?thesis using "1.IH" [OF False "1.prems"(1,2)] by simp
  qed
qed

section \<open>What the modes do and do not do\<close>

text \<open>
  When no port is occupied the listing of ports in an unexpected state is empty: a port is
  occupied exactly when its state is not the free one.
\<close>

lemma unused_lines_dead: "filter occupied ps = [] \<Longrightarrow> unused_lines ps = []"
  by (auto simp: unused_lines_def filter_empty_conv occupied_def)

lemma detach_ports_fst: "map fst (detach_ports cmd usbip k ps) = map pt_port ps"
  by (induction ps arbitrary: k) simp_all

text \<open>
  \<open>--detach-all\<close> runs a detach for the ports in use and for no other: one that is still coming up,
  or stuck in an error, stays as it is.
\<close>

theorem detach_all_only_in_use:
  assumes "ports f = Inr ps" "loaded f" "detach_all f cmd cfg = Inr out"
  shows "map fst out = map pt_port (filter (\<lambda>p. pt_status p = VDEV_ST_USED) ps)"
proof -
  have "in_use = (\<lambda>p. pt_status p = VDEV_ST_USED)" by (rule ext) (simp add: in_use_def)
  then show ?thesis using assms by (auto simp: detach_all_def detach_ports_fst)
qed

text \<open>An option the program does not know is refused, whatever comes before and after it.\<close>

lemma args_loop_unknown:
  "list_all (\<lambda>a. attach_option_of a \<notin> {OptHelp, OptConfig}) it \<Longrightarrow> OptUnknown \<in> attach_option_of ` set it \<Longrightarrow>
     \<exists>e. args_loop it cfg md n = Inl e"
  by (induction it cfg md n rule: args_loop.induct) (auto split: attach_option.splits)

end
