(* ===== verification/Sockets.thy ===== *)
theory Sockets
  imports Mdns Usbfs
begin

text \<open>
  The calls that set sockets up: \<open>bind_udp\<close> and its users in
  \<^verbatim>\<open>usbfwd-common/src/mdns.rs\<close>, \<open>tune_keepalive\<close> and the first lines of \<open>handle\<close> in
  \<^verbatim>\<open>usbfwd-server/src/lib.rs\<close>, and the options of a connection in
  \<^verbatim>\<open>usbfwd-attach/src/client.rs\<close>.

  The kernel is a parameter that answers each call as a function of the calls before it, with an
  error number or a return value. A run is the list of its calls, oldest first. A socket is owned
  by the value that wraps its descriptor, so a function that returns early closes it: those closes
  are written out.
\<close>

section \<open>Calls\<close>

datatype sockopt = SO_REUSEADDR | SO_REUSEPORT | SO_KEEPALIVE | TCP_KEEPIDLE | TCP_KEEPINTVL | TCP_KEEPCNT

datatype sockcall =
    SocketUdp
  | SetSockopt int sockopt int
  | BindInet int u32 u16
  | JoinMulticast int u32 u32
  | SetMulticastLoop int bool
  | SetNodelay int bool
  | SetReadTimeout int "nat option"
  | SetWriteTimeout int "nat option"
  | SendTo int "u8 list" u32 u16
  | CloseSock int

type_synonym sockenv = "sockcall list \<Rightarrow> sockcall \<Rightarrow> int + int"

definition sock_call :: "sockenv \<Rightarrow> sockcall \<Rightarrow> sockcall list \<Rightarrow> (io_error + int) \<times> sockcall list" where
  "sock_call k q h = (case k h q of Inl e \<Rightarrow> (Inl (errno_error e), h @ [q]) | Inr r \<Rightarrow> (Inr r, h @ [q]))"

text \<open>Calls chained by \<open>?\<close>: the first that fails ends the chain.\<close>

fun try_calls :: "sockenv \<Rightarrow> sockcall list \<Rightarrow> sockcall list \<Rightarrow> (io_error + unit) \<times> sockcall list" where
  "try_calls k [] h = (Inr (), h)"
| "try_calls k (q # qs) h =
     (case sock_call k q h of (Inl e, h') \<Rightarrow> (Inl e, h') | (Inr r, h') \<Rightarrow> try_calls k qs h')"

text \<open>Calls whose results are ignored.\<close>

definition fire_calls :: "sockenv \<Rightarrow> sockcall list \<Rightarrow> sockcall list \<Rightarrow> sockcall list" where
  "fire_calls k qs h = fold (\<lambda>q h. snd (sock_call k q h)) qs h"

text \<open>What a function does when it drops the socket it owns: close it, whatever comes of it.\<close>

definition closing :: "sockenv \<Rightarrow> int \<Rightarrow> (io_error + unit) \<times> sockcall list \<Rightarrow> (io_error + int) \<times> sockcall list" where
  "closing k fd x = (case x of
     (Inr _, h) \<Rightarrow> (Inr fd, h) | (Inl e, h) \<Rightarrow> (Inl e, fire_calls k [CloseSock fd] h))"

section \<open>Multicast sockets\<close>

definition bind_calls :: "int \<Rightarrow> u16 \<Rightarrow> sockcall list" where
  "bind_calls fd port =
     [SetSockopt fd SO_REUSEADDR 1, SetSockopt fd SO_REUSEPORT 1, BindInet fd 0 port,
      JoinMulticast fd MDNS_GROUP 0, SetMulticastLoop fd True]"

definition bind_udp :: "sockenv \<Rightarrow> u16 \<Rightarrow> sockcall list \<Rightarrow> (io_error + int) \<times> sockcall list" where
  "bind_udp k port h =
     (case sock_call k SocketUdp h of
        (Inl e, h') \<Rightarrow> (Inl e, h')
      | (Inr fd, h') \<Rightarrow> closing k fd (try_calls k (bind_calls fd port) h'))"

definition group_addr :: "u32 \<times> u16" where
  "group_addr = (MDNS_GROUP, MDNS_PORT)"

definition send_to_group :: "int \<Rightarrow> u8 list \<Rightarrow> sockcall" where
  "send_to_group fd bs = SendTo fd bs (fst group_addr) (snd group_addr)"

text \<open>A responder with the socket it owns.\<close>

definition open_responder :: "sockenv \<Rightarrow> string \<Rightarrow> string \<Rightarrow> u16 \<Rightarrow> u32 list \<Rightarrow> string list \<Rightarrow> sockcall list
    \<Rightarrow> (io_error + int \<times> responder) \<times> sockcall list" where
  "open_responder k inst host port addrs txt h =
     (case bind_udp k MDNS_PORT h of
        (Inl e, h') \<Rightarrow> (Inl e, h')
      | (Inr fd, h') \<Rightarrow>
          (case closing k fd (try_calls k [SetReadTimeout fd (Some 250)] h') of
             (Inl e, h'') \<Rightarrow> (Inl e, h'')
           | (Inr _, h'') \<Rightarrow> (Inr (fd, responder_new inst host port addrs txt), h'')))"

text \<open>
  A browse from its socket on: \<open>packets\<close> are what \<open>recv_from\<close> answers until the deadline. The
  socket is closed however it ends.
\<close>

definition browse_lan :: "sockenv \<Rightarrow> recv list \<Rightarrow> sockcall list \<Rightarrow> (io_error + discovered list) \<times> sockcall list" where
  "browse_lan k packets h =
     (case bind_udp k 0 h of
        (Inl e, h') \<Rightarrow> (Inl e, h')
      | (Inr fd, h') \<Rightarrow>
          (case try_calls k [SetReadTimeout fd (Some 200), send_to_group fd browse_query] h' of
             (Inl e, h'') \<Rightarrow> (Inl e, fire_calls k [CloseSock fd] h'')
           | (Inr _, h'') \<Rightarrow> (browse packets, fire_calls k [CloseSock fd] h'')))"

section \<open>Connections\<close>

definition HANDSHAKE_TIMEOUT :: nat where "HANDSHAKE_TIMEOUT = 15000"

definition tune_keepalive :: "sockenv \<Rightarrow> int \<Rightarrow> sockcall list \<Rightarrow> sockcall list" where
  "tune_keepalive k fd h =
     fire_calls k [SetSockopt fd SO_KEEPALIVE 1, SetSockopt fd TCP_KEEPIDLE 10,
                   SetSockopt fd TCP_KEEPINTVL 5, SetSockopt fd TCP_KEEPCNT 3] h"

text \<open>The start of \<open>handle\<close>, before the request is read.\<close>

definition prepare_stream :: "sockenv \<Rightarrow> int \<Rightarrow> sockcall list \<Rightarrow> (io_error + int) \<times> sockcall list" where
  "prepare_stream k fd h =
     (case sock_call k (SetNodelay fd True) h of
        (Inl e, h1) \<Rightarrow> (Inl e, fire_calls k [CloseSock fd] h1)
      | (Inr _, h1) \<Rightarrow>
          closing k fd (try_calls k [SetReadTimeout fd (Some HANDSHAKE_TIMEOUT)] (tune_keepalive k fd h1)))"

text \<open>What \<open>connect\<close> sets on the connection it hands out; times are in milliseconds.\<close>

definition prepare_client :: "sockenv \<Rightarrow> int \<Rightarrow> nat \<Rightarrow> sockcall list \<Rightarrow> (io_error + int) \<times> sockcall list" where
  "prepare_client k fd timeout h =
     closing k fd (try_calls k
       [SetNodelay fd True, SetReadTimeout fd (Some timeout), SetWriteTimeout fd (Some timeout)] h)"

section \<open>No descriptor is lost\<close>

lemma sock_call_log: "snd (sock_call k q h) = h @ [q]"
  by (simp add: sock_call_def split: sum.split)

lemma fire_calls_log: "fire_calls k qs h = h @ qs"
  by (induction qs arbitrary: h) (simp_all add: fire_calls_def sock_call_log)

lemma try_calls_log: "\<exists>n. snd (try_calls k qs h) = h @ take n qs"
proof (induction qs arbitrary: h)
  case (Cons q qs)
  show ?case
  proof (cases "k h q")
    case (Inl c)
    then show ?thesis by (auto simp: sock_call_def intro!: exI [of _ 1])
  next
    case (Inr x)
    moreover obtain n where "snd (try_calls k qs (h @ [q])) = (h @ [q]) @ take n qs" using Cons.IH by blast
    ultimately show ?thesis by (auto simp: sock_call_def intro!: exI [of _ "Suc n"])
  qed
qed simp

lemma try_calls_ok: "is_ok (fst (try_calls k qs h)) \<Longrightarrow> snd (try_calls k qs h) = h @ qs"
  by (induction qs arbitrary: h) (auto simp: sock_call_def split: sum.splits)

text \<open>
  The descriptors a run leaves open, by the answers of the kernel; \<open>pre\<close> was called before. A
  call on a descriptor that is not open, closing it a second time included, is \<open>None\<close>.
\<close>

fun call_fd :: "sockcall \<Rightarrow> int option" where
  "call_fd SocketUdp = None"
| "call_fd (CloseSock fd) = Some fd"
| "call_fd (SetSockopt fd opt v) = Some fd"
| "call_fd (BindInet fd a port) = Some fd"
| "call_fd (JoinMulticast fd g i) = Some fd"
| "call_fd (SetMulticastLoop fd b) = Some fd"
| "call_fd (SetNodelay fd b) = Some fd"
| "call_fd (SetReadTimeout fd d) = Some fd"
| "call_fd (SetWriteTimeout fd d) = Some fd"
| "call_fd (SendTo fd bs a port) = Some fd"

definition call_effect :: "sockenv \<Rightarrow> sockcall list \<Rightarrow> sockcall \<Rightarrow> int list \<Rightarrow> int list option" where
  "call_effect k pre q fds = (case call_fd q of
     None \<Rightarrow> (case k pre q of Inr fd \<Rightarrow> Some (fd # fds) | Inl e \<Rightarrow> Some fds)
   | Some fd \<Rightarrow> if fd \<notin> set fds then None else if q = CloseSock fd then Some (remove1 fd fds) else Some fds)"

fun still_open :: "sockenv \<Rightarrow> sockcall list \<Rightarrow> sockcall list \<Rightarrow> int list \<Rightarrow> int list option" where
  "still_open k pre [] fds = Some fds"
| "still_open k pre (q # qs) fds = Option.bind (call_effect k pre q fds) (still_open k (pre @ [q]) qs)"

abbreviation left_open :: "sockenv \<Rightarrow> sockcall list \<Rightarrow> int list option" where
  "left_open k h \<equiv> still_open k [] h []"

definition setup_on :: "int \<Rightarrow> sockcall \<Rightarrow> bool" where
  "setup_on fd q \<longleftrightarrow> call_fd q = Some fd \<and> q \<noteq> CloseSock fd"

lemma still_open_append:
  "still_open k pre (qs @ qs') fds = Option.bind (still_open k pre qs fds) (still_open k (pre @ qs) qs')"
  by (induction qs arbitrary: pre fds) (auto split: bind_splits)

lemma still_open_setup: "list_all (setup_on fd) qs \<Longrightarrow> fd \<in> set fds \<Longrightarrow> still_open k pre qs fds = Some fds"
  by (induction qs arbitrary: pre) (auto simp: call_effect_def setup_on_def)

lemma left_open_try:
  assumes "list_all (setup_on fd) qs" "left_open k h = Some fds" "fd \<in> set fds"
  shows "left_open k (snd (try_calls k qs h)) = Some fds"
proof -
  obtain n where "snd (try_calls k qs h) = h @ take n qs" using try_calls_log by blast
  moreover have "list_all (setup_on fd) (take n qs)" using assms(1) by (auto simp: list_all_iff dest: in_set_takeD)
  ultimately show ?thesis using assms(2,3) by (simp add: still_open_append still_open_setup)
qed

lemma left_open_close:
  "left_open k h = Some (fd # fds) \<Longrightarrow> left_open k (fire_calls k [CloseSock fd] h) = Some fds"
  by (simp add: fire_calls_log still_open_append call_effect_def)

text \<open>A socket that is set up stays open, one that is not is closed.\<close>

lemma left_open_closing:
  assumes "list_all (setup_on fd) qs" "left_open k h = Some (fd # fds)"
  shows "left_open k (snd (closing k fd (try_calls k qs h))) =
    Some (case fst (closing k fd (try_calls k qs h)) of Inr x \<Rightarrow> x # fds | Inl e \<Rightarrow> fds)"
proof -
  obtain r h' where x: "try_calls k qs h = (r, h')" by force
  have "left_open k h' = Some (fd # fds)" using left_open_try [OF assms] x by simp
  then show ?thesis by (auto simp: x closing_def left_open_close split: sum.split)
qed

lemma closing_fd: "fst (closing k fd x) = Inr y \<Longrightarrow> y = fd"
  by (auto simp: closing_def split: prod.splits sum.splits)

lemma left_open_bind:
  assumes "left_open k h = Some fds"
  shows "left_open k (snd (bind_udp k port h)) =
     Some (case fst (bind_udp k port h) of Inr fd \<Rightarrow> fd # fds | Inl e \<Rightarrow> fds)"
proof (cases "k h SocketUdp")
  case (Inr fd)
  have "left_open k (h @ [SocketUdp]) = Some (fd # fds)" using assms by (simp add: still_open_append call_effect_def Inr)
  then show ?thesis
    using left_open_closing [of fd "bind_calls fd port" k "h @ [SocketUdp]" fds]
    by (simp add: bind_udp_def sock_call_def Inr bind_calls_def setup_on_def)
qed (use assms in \<open>simp add: bind_udp_def sock_call_def still_open_append call_effect_def\<close>)

lemma left_open_responder:
  assumes "left_open k h = Some fds"
  shows "left_open k (snd (open_responder k inst host port addrs txt h)) =
     Some (case fst (open_responder k inst host port addrs txt h) of Inr (fd, r) \<Rightarrow> fd # fds | Inl e \<Rightarrow> fds)"
proof -
  obtain b h' where b: "bind_udp k MDNS_PORT h = (b, h')" by force
  note open_bind = left_open_bind [OF assms, of MDNS_PORT, unfolded b]
  show ?thesis
  proof (cases b)
    case (Inr fd)
    let ?c = "closing k fd (try_calls k [SetReadTimeout fd (Some 250)] h')"
    have "left_open k h' = Some (fd # fds)" using open_bind by (simp add: Inr)
    then have "left_open k (snd ?c) = Some (case fst ?c of Inr x \<Rightarrow> x # fds | Inl e \<Rightarrow> fds)"
      by (intro left_open_closing) (simp_all add: setup_on_def)
    then show ?thesis
      using closing_fd by (fastforce simp: open_responder_def b Inr split: prod.splits sum.splits)
  next
    case (Inl e)
    then show ?thesis using open_bind by (simp add: open_responder_def b)
  qed
qed

lemma left_open_browse:
  assumes "left_open k h = Some fds"
  shows "left_open k (snd (browse_lan k packets h)) = Some fds"
proof -
  obtain b h' where b: "bind_udp k 0 h = (b, h')" by force
  note open_bind = left_open_bind [OF assms, of 0, unfolded b]
  show ?thesis
  proof (cases b)
    case (Inr fd)
    let ?qs = "[SetReadTimeout fd (Some 200), send_to_group fd browse_query]"
    obtain r h'' where t: "try_calls k ?qs h' = (r, h'')" by force
    have "left_open k h'' = Some (fd # fds)"
      using left_open_try [of fd ?qs k h' "fd # fds", unfolded t] open_bind
      by (simp add: Inr send_to_group_def setup_on_def)
    then show ?thesis by (simp del: try_calls.simps add: browse_lan_def b Inr t left_open_close split: sum.split)
  next
    case (Inl e)
    then show ?thesis using open_bind by (simp add: browse_lan_def b)
  qed
qed

text \<open>
  C31. Whatever the kernel answers, no multicast socket is leaked, closed twice or used after it was
  closed: opening one leaves exactly the socket returned open, and none when it fails; a responder
  keeps the one it owns; a browse keeps none, also when its query cannot be sent.
\<close>

theorem sockets_not_leaked:
  assumes "left_open k h = Some fds"
  shows "left_open k (snd (bind_udp k port h)) =
       Some (case fst (bind_udp k port h) of Inr fd \<Rightarrow> fd # fds | Inl e \<Rightarrow> fds)
    \<and> left_open k (snd (open_responder k inst host port addrs txt h)) =
       Some (case fst (open_responder k inst host port addrs txt h) of Inr (fd, r) \<Rightarrow> fd # fds | Inl e \<Rightarrow> fds)
    \<and> left_open k (snd (browse_lan k packets h)) = Some fds"
  using left_open_bind [OF assms] left_open_responder [OF assms] left_open_browse [OF assms] by simp

text \<open>A kernel that refuses the multicast membership; the socket is closed again.\<close>

definition no_multicast :: sockenv where
  "no_multicast h q = (case q of SocketUdp \<Rightarrow> Inr 5 | JoinMulticast fd g i \<Rightarrow> Inl 19 | _ \<Rightarrow> Inr 0)"

theorem sockets_not_leaked_witness:
  "bind_udp no_multicast 5353 [] = (Inl (errno_error 19), SocketUdp # take 4 (bind_calls 5 5353) @ [CloseSock 5])
    \<and> left_open no_multicast (snd (bind_udp no_multicast 5353 [])) = Some []"
proof -
  have b: "bind_udp no_multicast 5353 [] = (Inl (errno_error 19), SocketUdp # take 4 (bind_calls 5 5353) @ [CloseSock 5])"
    by (simp add: bind_udp_def sock_call_def no_multicast_def bind_calls_def closing_def fire_calls_def)
  from sockets_not_leaked [where k = no_multicast and h = "[]" and fds = "[]" and port = 5353]
  show ?thesis by (simp only: b still_open.simps) simp
qed

text \<open>
  An accepted connection: a dead peer is noticed \<open>10 + 5 * 3\<close> seconds after its last word, and
  the request is awaited no longer than the handshake timeout. A failing keep-alive option does
  not end the connection.
\<close>

lemma prepare_stream_ok:
  assumes "\<And>h. k h (SetNodelay fd True) = Inr 0"
    and "\<And>h. k h (SetReadTimeout fd (Some HANDSHAKE_TIMEOUT)) = Inr 0"
  shows "prepare_stream k fd h = (Inr fd, h @
     [SetNodelay fd True, SetSockopt fd SO_KEEPALIVE 1, SetSockopt fd TCP_KEEPIDLE 10,
      SetSockopt fd TCP_KEEPINTVL 5, SetSockopt fd TCP_KEEPCNT 3, SetReadTimeout fd (Some HANDSHAKE_TIMEOUT)])"
  using assms
  by (simp add: prepare_stream_def sock_call_def tune_keepalive_def fire_calls_log closing_def)

lemma prepare_stream_closes:
  "fst (prepare_stream k fd h) = Inl e \<Longrightarrow> last (snd (prepare_stream k fd h)) = CloseSock fd"
  by (auto simp: prepare_stream_def closing_def fire_calls_log split: prod.splits sum.splits)

lemma prepare_client_bounds:
  "fst (prepare_client k fd timeout h) = Inr fd' \<Longrightarrow> fd' = fd
     \<and> snd (prepare_client k fd timeout h) =
         h @ [SetNodelay fd True, SetReadTimeout fd (Some timeout), SetWriteTimeout fd (Some timeout)]"
  using try_calls_ok [of k "[SetNodelay fd True, SetReadTimeout fd (Some timeout), SetWriteTimeout fd (Some timeout)]" h]
  by (auto simp: prepare_client_def closing_def split: prod.splits sum.splits)

end
