(* ===== verification/Conn_Safety.thy ===== *)
theory Conn_Safety
  imports Sources
begin

text \<open>
  Memory safety across the server: what \<open>Usbfs\<close> shows for any sequence of calls on a device holds
  for the device of every connection, from the moment a source opens it, through claiming, a
  session with its three threads, the prefetcher and whatever the client sends, to release and
  drop, on every error path in between.
\<close>

section \<open>Sources that hand out sound devices\<close>

definition opens_safe :: "usbfs_device source \<Rightarrow> bool" where
  "opens_safe src \<longleftrightarrow> (\<forall>b d. src_open src b = Inr d \<longrightarrow> dev_inv d)"

lemma build_safe: "build f pb busnum devnum = Inr d \<Longrightarrow> dev_inv d"
  by (auto simp: build_def Let_def rbind_Inr_iff dev_inv_def urb_ptrs_def split: sum.splits option.splits)

lemma open_node_safe: "open_node f pb path = Inr d \<Longrightarrow> dev_inv d"
  by (auto simp: open_node_def build_safe split: option.splits)

lemma open_busid_safe: "open_busid f pb b = Inr d \<Longrightarrow> dev_inv d"
  by (auto simp: open_busid_def open_node_safe split: option.splits)

lemma max_transfer_safe: "dev_inv (d\<lparr>d_max_transfer := n\<rparr>) = dev_inv d"
  by (simp add: dev_inv_def urb_ptrs_def entry_ok_def)

lemma sysfs_opens_safe: "opens_safe (sysfs_devices f pb flt mt)"
  by (auto simp: opens_safe_def sysfs_devices_def rbind_Inr_iff max_transfer_safe open_busid_safe)

lemma single_opens_safe: "dev_inv d \<Longrightarrow> opens_safe (single_device d)"
  by (simp add: opens_safe_def single_device_def)

lemma gated_opens_safe: "opens_safe src \<Longrightarrow> opens_safe (gated src t)"
  by (auto simp: opens_safe_def gated_def split: if_splits)

lemma adopted_safe: "from_borrowed_fd f pb dup = Inr d \<Longrightarrow> dev_inv d"
  by (auto simp: from_borrowed_fd_def adopt_raw_fd_def build_safe split: sum.splits option.splits)

section \<open>The life of a connection\<close>

text \<open>
  The steps of one connection, whatever the registry and the toggle are at each, and the sessions it
  runs. Every step may see another source, as long as what it opens is sound.
\<close>

inductive conn_life :: "env \<Rightarrow> bool \<Rightarrow> session_opts \<Rightarrow> conn \<Rightarrow> bool"
  for v :: env and keeps :: bool and opts :: session_opts where
  Born: "conn_life v keeps opts conn_new"
| Moves: "conn_life v keeps opts c \<Longrightarrow> opens_safe (ci_source inp) \<Longrightarrow>
    conn_step v keeps inp (reg, c) = (reg', c') \<Longrightarrow> conn_life v keeps opts c'"
| Serves: "conn_life v keeps opts c \<Longrightarrow> cn_pc c = CnRunning b d \<Longrightarrow>
    session_run (usbfs_backend v) opts (sm_busid (d_summary d)) (d_max_transfer d) t d d' t' res \<Longrightarrow>
    conn_life v keeps opts (c\<lparr>cn_pc := CnEnded b d' res\<rparr>)"

fun pc_device :: "conn_pc \<Rightarrow> usbfs_device option" where
  "pc_device (CnOpened b d) = Some d"
| "pc_device (CnClaimed b d) = Some d"
| "pc_device (CnRunning b d) = Some d"
| "pc_device (CnEnded b d r) = Some d"
| "pc_device (CnReleased b d r) = Some d"
| "pc_device (CnUnwind l d r) = d"
| "pc_device _ = None"

definition conn_devices :: "conn \<Rightarrow> usbfs_device set" where
  "conn_devices c = set_option (pc_device (cn_pc c)) \<union> set_option (cn_dev c)"

definition conn_safe :: "bool \<Rightarrow> conn \<Rightarrow> bool" where
  "conn_safe keeps c \<longleftrightarrow> (\<forall>d \<in> conn_devices c. dev_inv d)
     \<and> (\<forall>d. cn_dev c = Some d \<longrightarrow> \<not> keeps \<longrightarrow> d_heap d = [] \<and> \<not> d_open d)"

lemma session_run_safe:
  assumes "session_run (usbfs_backend v) opts busid mt t d d' t' res" "env_ok v" "dev_inv d"
  shows "dev_inv d'"
proof -
  have s: "pump.sess_inv v (session_start (usbfs_backend v) opts t d)"
    using pump.start_inv [of v d opts t] assms(2,3) by blast
  from assms(1) show ?thesis
  proof cases
    case (RunEnds tr st)
    then show ?thesis using pump.session_trace_inv [OF RunEnds(3) s] by (simp add: pump.sess_inv_def)
  next
    case (NoThreads e)
    then show ?thesis using s by (simp add: pump.sess_inv_def)
  qed
qed

lemma claim_all_safe: "claim_all v d = (r, d') \<Longrightarrow> dev_inv d \<Longrightarrow> dev_inv d'"
  using quiet_inv [OF quiet_claim_loop [of d v "dev_interface_numbers d"]] by (simp add: claim_all_def)

lemma release_all_safe: "dev_inv d \<Longrightarrow> dev_inv (release_all v d)"
  using quiet_inv [OF quiet_release_all [of d v]] by simp

lemma drop_device_safe: "env_ok v \<Longrightarrow> dev_inv d \<Longrightarrow> dev_inv (drop_device v d)"
  using drop_device_clean [of v d] by (simp add: dev_inv_def urb_ptrs_def)

lemma conn_safe_pc:
  "conn_safe keeps c \<Longrightarrow> (\<And>d. pc_device pc = Some d \<Longrightarrow> dev_inv d) \<Longrightarrow> conn_safe keeps (c\<lparr>cn_pc := pc\<rparr>)"
  by (cases "pc_device pc") (auto simp: conn_safe_def conn_devices_def)

lemma conn_safe_out: "conn_safe keeps (c\<lparr>cn_out := bs\<rparr>) = conn_safe keeps c"
  by (simp add: conn_safe_def conn_devices_def)

lemma write_then_safe:
  assumes "conn_safe keeps c" "\<And>d. pc_device ok_pc = Some d \<Longrightarrow> dev_inv d"
    "\<And>e d. pc_device (err_pc e) = Some d \<Longrightarrow> dev_inv d"
  shows "conn_safe keeps (write_then f bs ok_pc err_pc c)"
  using assms by (auto simp: write_then_def conn_safe_out intro!: conn_safe_pc split: option.split)

lemma refuse_safe:
  "conn_safe keeps c \<Longrightarrow> (\<And>x. d = Some x \<Longrightarrow> dev_inv x) \<Longrightarrow> conn_safe keeps (refuse f l d c)"
  by (auto simp: refuse_def intro: write_then_safe)

lemma on_request_safe: "conn_safe keeps c \<Longrightarrow> conn_safe keeps (on_request inp c)"
  by (auto simp: on_request_def intro!: conn_safe_pc write_then_safe
      split: sum.split option.split op_request.split)

lemma dropped_safe:
  assumes "env_ok v" "conn_safe keeps c" "cn_pc c = CnUnwind l (Some d) r"
  shows "conn_safe keeps (c\<lparr>cn_dev := Some (drop_dev v keeps d), cn_pc := CnUnwind l None r\<rparr>)"
proof -
  have "dev_inv d" using assms(2,3) by (simp add: conn_safe_def conn_devices_def)
  then show ?thesis
    using drop_device_clean [OF assms(1)] drop_device_safe [OF assms(1)]
    by (simp add: conn_safe_def conn_devices_def drop_dev_def)
qed

lemma held_safe: "conn_safe keeps c \<Longrightarrow> pc_device (cn_pc c) = Some d \<Longrightarrow> dev_inv d"
  by (simp add: conn_safe_def conn_devices_def)

lemma conn_step_safe:
  assumes "conn_step v keeps inp (reg, c) = (reg', c')" "env_ok v" "opens_safe (ci_source inp)" "conn_safe keeps c"
  shows "conn_safe keeps c'"
proof (cases "cn_pc c")
  case (CnOpened b d)
  moreover from this have "dev_inv d" using assms(4) held_safe by simp
  ultimately show ?thesis
    using assms(1,4) claim_all_safe
    by (auto simp: conn_step.simps intro!: conn_safe_pc refuse_safe split: prod.splits sum.splits)
next
  case (CnUnwind l d r)
  then show ?thesis
    using assms(1,4) dropped_safe [OF assms(2,4)]
    by (cases l; cases d) (auto simp: conn_step.simps intro!: conn_safe_pc)
qed (use assms held_safe [OF assms(4)] in \<open>auto simp: conn_step.simps opens_safe_def acquire_def release_all_safe
      intro!: conn_safe_pc refuse_safe on_request_safe write_then_safe
      split: sum.splits if_splits enum_error.splits prod.splits\<close>)

lemma conn_life_safe: "conn_life v keeps opts c \<Longrightarrow> env_ok v \<Longrightarrow> conn_safe keeps c"
proof (induction rule: conn_life.induct)
  case Born
  show ?case by (simp add: conn_safe_def conn_devices_def conn_new_def)
next
  case (Moves c inp reg reg' c')
  then show ?case using conn_step_safe by blast
next
  case (Serves c b d t d' t' res)
  then have "dev_inv d'" using session_run_safe held_safe by simp
  then show ?case using Serves.IH Serves.prems by (intro conn_safe_pc) simp_all
qed

lemma conn_life_moves:
  "conn_life v keeps opts c \<Longrightarrow> list_all (opens_safe \<circ> ci_source) inps \<Longrightarrow>
     conn_life v keeps opts (snd (fold (conn_step v keeps) inps (reg, c)))"
proof (induction inps arbitrary: reg c)
  case (Cons inp inps)
  obtain reg' c' where st: "conn_step v keeps inp (reg, c) = (reg', c')" by (rule prod.exhaust)
  then have "conn_life v keeps opts c'" using Cons.prems conn_life.Moves by auto
  then show ?case using Cons st by simp
qed simp

section \<open>Properties\<close>

text \<open>
  C5. The device of a connection is memory safe for the whole life of the connection: whatever
  the client sends, however its session goes (its threads not even started included), and on every
  refusal, failed claim and failed write, nothing is freed twice or used after it was freed, the
  blocks allocated for URBs are as many as the entries of the table and, while the device is open,
  exactly those the kernel has; and on a host that opens devices itself a device that was dropped
  is closed and has no block left.
\<close>

theorem conn_memory_safe:
  assumes "env_ok v" "conn_life v keeps opts c"
  shows "(\<forall>d \<in> conn_devices c. \<not> d_fault d \<and> length (d_heap d) = length (d_pending d)
       \<and> (d_open d \<longrightarrow> set (in_flight (d_log d)) = set (map fst (d_heap d))))
     \<and> (\<forall>d. cn_dev c = Some d \<longrightarrow> \<not> keeps \<longrightarrow> d_heap d = [] \<and> \<not> d_open d)"
proof -
  have safe: "conn_safe keeps c" using conn_life_safe [OF assms(2,1)] .
  have "length (d_heap d) = length (d_pending d)" if "dev_inv d" for d
  proof -
    have "length (urb_ptrs d) = length (map fst (d_heap d))"
      using that unfolding dev_inv_def by (metis distinct_card)
    then show ?thesis by (simp add: urb_ptrs_def)
  qed
  then show ?thesis using safe unfolding conn_safe_def by (auto simp: dev_inv_def)
qed

text \<open>
  A client imports the sample device; the threads of its session cannot be started, so that the
  URBs its prefetcher submitted are still with the kernel when the connection unwinds.
\<close>

definition plain_opts :: session_opts where
  "plain_opts = \<lparr>so_prefetch = True, so_hotkey = None\<rparr>"

fun unstarted :: "conn_pc \<Rightarrow> conn_pc" where
  "unstarted (CnRunning b d) =
     CnEnded b (ss_dev (session_start (usbfs_backend pump_env) plain_opts {} d)) (Inl (Io Other ''no threads''))"
| "unstarted pc = pc"

lemma conn_life_unstarted:
  assumes "conn_life pump_env keeps plain_opts c"
  shows "conn_life pump_env keeps plain_opts (c\<lparr>cn_pc := unstarted (cn_pc c)\<rparr>)"
proof (cases "\<exists>b d. cn_pc c = CnRunning b d")
  case True
  then show ?thesis using conn_life.Serves [OF assms _ session_run.NoThreads] by auto
next
  case False
  then have "unstarted (cn_pc c) = cn_pc c" by (cases "cn_pc c") auto
  then show ?thesis using assms by simp
qed

definition sample_moves :: "nat \<Rightarrow> registry \<Rightarrow> conn \<Rightarrow> conn" where
  "sample_moves n reg c = snd (fold (conn_step pump_env False) (replicate n sample_input) (reg, c))"

lemma sample_moves_life:
  "conn_life pump_env False opts c \<Longrightarrow> conn_life pump_env False opts (sample_moves n reg c)"
  unfolding sample_moves_def
  by (intro conn_life_moves) (auto simp: list_all_iff sample_input_def intro: single_opens_safe sample_usbfs_inv)

definition sample_ended :: conn where
  "sample_ended = (let c = sample_moves 6 {} conn_new in c\<lparr>cn_pc := unstarted (cn_pc c)\<rparr>)"

lemma sample_ended_life: "conn_life pump_env False plain_opts sample_ended"
  unfolding sample_ended_def Let_def by (intro conn_life_unstarted sample_moves_life conn_life.Born)

theorem conn_memory_safe_witness:
  "map_option (\<lambda>d. length (d_pending d)) (pc_device (cn_pc sample_ended)) = Some 1
   \<and> map_option d_heap (cn_dev (sample_moves 4 {''3-12''} sample_ended)) = Some []"
proof
  let ?c = "sample_moves 4 {''3-12''} sample_ended"
  have "cn_dev ?c \<noteq> None" by code_simp
  then show "map_option d_heap (cn_dev ?c) = Some []"
    using conn_memory_safe [OF pump_env_ok sample_moves_life [OF sample_ended_life]] by auto
qed code_simp

end
