(* ===== verification/Spec2Isabelle.thy ===== *)
theory Spec2Isabelle
  imports Android Attach_Cli Sockets Conn_Safety
begin

text \<open>
  A verification library for padwire, which forwards USB devices, above all game controllers,
  from one machine to another over USB/IP without a kernel module on the exporting side.

  \<^bold>\<open>The program.\<close> Six crates under \<^verbatim>\<open>src/crates\<close>:
    \<^item> \<^verbatim>\<open>usbip-proto\<close>: the wire format. Cursors over byte slices, the 48-byte command headers, the device
      records, the messages that set a connection up, and the functions that find the end of
      the next message in a stream.
    \<^item> \<^verbatim>\<open>usb-backend\<close>: the local bus. The parser of descriptor blobs, the allow-list, enumeration through
      sysfs, the device behind a usbfs descriptor (claiming, URBs, releasing) and the read-only tap
      on hidraw nodes.
    \<^item> \<^verbatim>\<open>usbfwd-server\<close>: the exporter. It accepts connections, answers the device list, and for an import
      takes a lease, opens and claims the device and runs a session: a reader, a reaper and a writer
      thread around the backend, with an optional prefetcher and a chord detector that can suspend
      the forward. A watcher resumes suspended devices.
    \<^item> \<^verbatim>\<open>usbfwd-attach\<close>: the importer. A daemon that reads a configuration file, asks the servers for their
      lists, runs \<^verbatim>\<open>usbip attach\<close>, and follows the ports of the kernel's \<^verbatim>\<open>vhci-hcd\<close>.
    \<^item> \<^verbatim>\<open>usbfwd-common\<close>: addresses of the tailnet, multicast DNS, logging, signals.
    \<^item> \<^verbatim>\<open>usbfwd-jni\<close>: the same exporter inside an Android app, on a descriptor the system hands over.

  \<^bold>\<open>How it is modelled.\<close> Pure code is a function. A fallible function returns a sum with the error on
  the left, and a panic, where the code can panic, is a value too. State is a record that is passed
  and returned. Machine integers are words of their width wherever arithmetic on them can wrap or
  their bits matter; lengths and milliseconds are natural numbers. A string is the list of its
  UTF-8 bytes as characters. Everything outside the process is an argument: the file system
  (\<^term>\<open>sample_fs\<close> is one), the kernel that answers ioctls, sockets, the resolver, the programs that
  are run, clocks. Threads are program counters in a record, one step being the code between two
  accesses to shared state, and the step relations \<^const>\<open>session_step\<close>, \<^const>\<open>server_step\<close>, \<^const>\<open>registry_step\<close> and
  \<^const>\<open>jni_step\<close> interleave them freely.

  \<^bold>\<open>Theories, in the order of the code.\<close>
    \<^item> \<^verbatim>\<open>Prelude\<close>, \<^verbatim>\<open>Rust_Str\<close>, \<^verbatim>\<open>Ip_Addr\<close>: results, byte order, UTF-8; the methods of \<^verbatim>\<open>str\<close> and of the integer
      parsers and printers that the sources call; \<^verbatim>\<open>IpAddr::from_str\<close>.
    \<^item> \<^verbatim>\<open>Wire\<close>, \<^verbatim>\<open>Pdu\<close>, \<^verbatim>\<open>Device\<close>, \<^verbatim>\<open>Op\<close>, \<^verbatim>\<open>Proto_Io\<close> for \<^verbatim>\<open>wire.rs\<close>, \<^verbatim>\<open>pdu.rs\<close>, \<^verbatim>\<open>device.rs\<close>, \<^verbatim>\<open>op.rs\<close>, \<^verbatim>\<open>io.rs\<close>. The
      locales \<^verbatim>\<open>codec\<close>, \<^verbatim>\<open>fixed_codec\<close> and \<^verbatim>\<open>framing\<close> state what an encoder and a decoder owe each other and
      are interpreted on every message of the protocol. Shown: whatever is written is read back and
      the reader stops at the first byte that follows; every PDU that is read is bounded and
      consumed exactly its bytes; a stream cut anywhere gives the error that cut it.
    \<^item> \<^verbatim>\<open>Descriptors\<close>, \<^verbatim>\<open>Device_Filter\<close>, \<^verbatim>\<open>Backend\<close>, \<^verbatim>\<open>Sys\<close>, \<^verbatim>\<open>Usbfs\<close>, \<^verbatim>\<open>Hidraw\<close> for \<^verbatim>\<open>usb-backend\<close>. Shown: the descriptor
      walker inverts the layout of the specification and panics on no blob whose configurations
      announce at least six bytes; a bus id from the network stays inside one sysfs directory;
      with an explicit heap for the boxed URBs, no box is freed while the kernel can write to it,
      for any sequence of operations and any kernel that answers as \<^const>\<open>env_ok\<close> says; interfaces are
      released before any is reconnected; the standard requests that change state never pass as raw
      transfers; the request numbers, computed from the layout of their C structs, are the
      kernel's for either pointer size and tell the requests apart. The locale \<^verbatim>\<open>urb_backend\<close> is what a session needs of a backend.
    \<^item> \<^verbatim>\<open>Registry\<close>, \<^verbatim>\<open>Chord\<close>, \<^verbatim>\<open>Toggle\<close>, \<^verbatim>\<open>Prefetch\<close>, \<^verbatim>\<open>Session\<close>, \<^verbatim>\<open>Server\<close>, \<^verbatim>\<open>Sources\<close>, \<^verbatim>\<open>Conn_Safety\<close>,
      \<^verbatim>\<open>Listen\<close>, \<^verbatim>\<open>Server_Cli\<close> for \<^verbatim>\<open>usbfwd-server\<close>. Shown, over every interleaving: each submission of a client is answered once,
      dropped for a stated reason or still held; a cancelled one is not answered afterwards; the
      bytes on the wire are whole replies in order; the outbox is bounded; reports are prefetched
      in order; a chord fires exactly when it was released and then held; a device is in the hands
      of one connection at a time, the server refines the abstract registry of leases, and what was
      opened is released and closed at the end; the memory safety of a device carries through the
      whole life of the connection that opened it; an import outside the allow-list changes nothing;
      the server listens outside the tailnet only where its command line says so. The locale
      \<^verbatim>\<open>pumped_device\<close> extends \<^verbatim>\<open>urb_backend\<close> and is interpreted on the usbfs device; \<^verbatim>\<open>exclusive_leases\<close> is what
      connections need of the registry, and \<^verbatim>\<open>device_source\<close> what they need of a source, interpreted on
      sysfs, on a single device and on the gate around them.
    \<^item> \<^verbatim>\<open>Toml\<close>, \<^verbatim>\<open>Config\<close>, \<^verbatim>\<open>Vhci\<close>, \<^verbatim>\<open>Daemon\<close>, \<^verbatim>\<open>Attach_Cli\<close> for \<^verbatim>\<open>usbfwd-attach\<close>. Shown: printed tables parse back
      with their line numbers; a configuration that loads is usable; no device is tracked twice;
      a restart beside a healthy attachment runs no command; the retry delays double up to their
      ceiling; waiting for a port ends.
    \<^item> \<^verbatim>\<open>Netif\<close>, \<^verbatim>\<open>Mdns\<close>, \<^verbatim>\<open>Log\<close>, \<^verbatim>\<open>Sockets\<close> for \<^verbatim>\<open>usbfwd-common\<close>, the last also for the options that server and
      client set on a connection. Shown: the tailnet's address range; an announced server
      is discovered with its name, port, texts and addresses; the flags say which signals have
      arrived; no multicast socket is leaked, closed twice or used after it was closed.
    \<^item> \<^verbatim>\<open>Android\<close> for \<^verbatim>\<open>usbfwd-jni\<close>. Shown: the exporter stays on loopback and the tailnet unless the app
      allows otherwise and there is no tailnet; a failed start changes nothing.
    \<^item> This theory: the device list from one machine's bus to the other's client.

  \<^bold>\<open>Loops and bounds.\<close> Loops over data are structural or have a measure: names in multicast DNS
  packets jump at most sixteen times, a report, a packet and a descriptor blob are cut at the size of
  the buffer they are read into. A loop that waits takes the list of what it sees, and ends with the
  list where the source would go on waiting. Two loops with a deadline run on fuel or a
  measure that the deadline gives: \<^const>\<open>settle\<close> gets one look more than its timeout holds pauses,
  which is proved to be enough, and \<^const>\<open>drain_wait\<close> decreases the time that is left.

  \<^bold>\<open>What the theorems say about weak points.\<close> Some theorems state behaviour that the comments around the
  code do not intend: a configuration descriptor that announces fewer than six bytes panics the
  parser; a connection that panics keeps its slot for good; a reply that cannot be written leaves
  the interfaces claimed when the source keeps its device; a submission can be answered and
  unlinked when the two cross; an idle prefetched endpoint whose submit is refused stays idle;
  \<^verbatim>\<open>--detach-all\<close> leaves ports that are not in use; a session whose threads cannot be started leaves its
  prefetched URBs in flight; a dead Android exporter still counts as running.

  \<^bold>\<open>Not modelled.\<close> \<^verbatim>\<open>into_raw_fd\<close>, which nothing calls and which forgets a device without dropping it;
  the order in which \<^verbatim>\<open>run\<close> starts its threads; log messages, apart from what the logger does with them; the texts of operating
  system errors; memory ordering of the atomics, each access being one step; tests, packaging and
  the Kotlin side of the app.
\<close>

section \<open>From one machine's bus to the other's device list\<close>

definition exported :: "device_filter \<Rightarrow> toggle \<Rightarrow> device_summary list \<Rightarrow> device_summary list" where
  "exported flt t ds =
     filter (\<lambda>d. filter_matches flt (fst (vid_pid d)) (snd (vid_pid d)) \<and> \<not> is_suspended (sm_busid d) t) ds"

lemma gated_list:
  "list_all_devices f = Inr ds \<Longrightarrow> src_list (gated (sysfs_devices f pb flt mt) t) = Inr (exported flt t ds)"
  by (simp add: gated_def sysfs_devices_def list_devices_def exported_def conj_commute)

definition fits_record :: "device_summary \<Rightarrow> bool" where
  "fits_record d \<longleftrightarrow> device_ok (to_usbip d) \<and> length (sm_interfaces d) < 256"

lemma fits_record_codec: "fits_record d \<Longrightarrow> device_ok (to_usbip d) \<and> interfaces_ok (to_usbip d)"
  by (simp add: fits_record_def interfaces_ok_def to_usbip_def unat_of_nat)

text \<open>
  C8. End to end: the request that the attaching program writes makes a connection of the server
  list its devices, and what the attaching program reads back are the records of exactly the
  devices on the server's bus that its allow-list admits and that are not suspended, in the
  server's order; nothing else about the server's bus is sent.
\<close>

theorem client_sees_exported:
  assumes "list_all_devices f = Inr ds" "list_all fits_record (exported flt t ds)" "length (exported flt t ds) \<le> 1024"
    and "read_op_request \<lparr>st_bytes = encode_devlist_request, st_end = e\<rparr> = Inr (q, s')"
    and "conn_step v keeps \<lparr>ci_source = gated (sysfs_devices f pb flt mt) t, ci_request = Inr q, ci_untimed = None, ci_write = None\<rparr> (reg, conn_new) = (reg', c)"
  shows "reg' = reg \<and> cn_pc c = CnDone (Finished (Inr ()))
    \<and> devlist host p (Inr [Dialled \<lparr>st_bytes = cn_out c, st_end = e'\<rparr>]) None = Inr (map to_usbip (exported flt t ds))"
proof -
  let ?ds = "map to_usbip (exported flt t ds)"
  have "q = Some DevList"
    using framesD [OF op_requests.receive_enc [of "Some DevList"], of "\<lparr>st_bytes = encode_devlist_request, st_end = e\<rparr>" "[]"] assms(4)
    by simp
  then have c: "reg' = reg" "cn_pc c = CnDone (Finished (Inr ()))" "cn_out c = encode_devlist_reply ?ds"
    using assms(5) by (auto simp: conn_step.simps conn_new_def on_request_def gated_list [OF assms(1)] write_then_def)
  have "list_all (\<lambda>d. device_ok d \<and> interfaces_ok d) ?ds \<and> length ?ds \<le> 1024"
    using assms(2,3) fits_record_codec by (auto simp: list_all_iff)
  from framesD [OF devlist_replies.receive_enc [OF this], of "\<lparr>st_bytes = cn_out c, st_end = e'\<rparr>" "[]"]
  have "read_devlist_reply \<lparr>st_bytes = cn_out c, st_end = e'\<rparr> = Inr (?ds, \<lparr>st_bytes = [], st_end = e'\<rparr>)"
    by (simp add: c)
  then show ?thesis by (simp add: c(1,2) devlist_def connect_def)
qed

lemma sample_listed: "\<exists>s. list_all_devices sample_fs = Inr [s] \<and> exported filter_default {} [s] = [s] \<and> fits_record s"
proof -
  obtain s where s: "summary_from_sysfs sample_fs ''3-12'' = Inr s" "sm_device s = ds_device sample_descriptors"
    "sm_busid s = ''3-12''" "sm_sys_path s = SYSFS_USB_DEVICES @ ''/3-12''" "sm_interfaces s = list_from sample_config"
    using sample_fs_summary by blast
  then have l: "list_all_devices sample_fs = Inr [s]"
    by (simp add: list_all_devices_def sample_fs_def [THEN arg_cong [where f = fs_read_dir]] starts_with_def)
  have x: "exported filter_default {} [s] = [s]"
    by (simp add: exported_def s vid_pid_def filter_matches_def filter_default_def pattern_matches_def
        sample_descriptors_def VALVE_VID_def is_suspended_def)
  have "fits_field ''3-12'' BUSID_LEN" "fits_field (SYSFS_USB_DEVICES @ ''/3-12'') PATH_LEN" by code_simp+
  moreover have "length (list_from sample_config) = 2" by code_simp
  ultimately have "fits_record s" by (simp add: fits_record_def device_ok_def to_usbip_def s)
  with l x show ?thesis by blast
qed

theorem client_sees_exported_witness:
  "\<exists>s (c :: conn). devlist ''deck'' 3240 (Inr [Dialled \<lparr>st_bytes = cn_out c, st_end = Io UnexpectedEof []\<rparr>]) None = Inr [to_usbip s]
     \<and> list_all_devices sample_fs = Inr [s]"
proof -
  obtain s where s: "list_all_devices sample_fs = Inr [s]" "exported filter_default {} [s] = [s]" "fits_record s"
    using sample_listed by blast
  let ?e = "Io UnexpectedEof []"
  have rq: "read_op_request \<lparr>st_bytes = encode_devlist_request, st_end = ?e\<rparr> = Inr (Some DevList, \<lparr>st_bytes = [], st_end = ?e\<rparr>)"
    using framesD [OF op_requests.receive_enc [of "Some DevList"], of "\<lparr>st_bytes = encode_devlist_request, st_end = ?e\<rparr>" "[]"]
    by simp
  obtain reg c where st: "conn_step sample_env False \<lparr>ci_source = gated (sysfs_devices sample_fs sample_probe filter_default 64) {},
      ci_request = Inr (Some DevList), ci_untimed = None, ci_write = None\<rparr> ({}, conn_new) = (reg, c)"
    by (rule prod.exhaust)
  have "list_all fits_record (exported filter_default {} [s])" "length (exported filter_default {} [s]) \<le> 1024"
    using s by simp_all
  from client_sees_exported [OF s(1) this rq st] s show ?thesis by auto
qed

end
